(* ===== verification/Prelude.thy ===== *)
theory Prelude
  imports Main "HOL-Library.Word" "HOL-Library.AList" "HOL-Library.Sublist"
begin

text \<open>
  What every component of the development shares: the machine integers and the byte strings
  of the Rust sources, errors as values of a sum type, the operations of the Rust standard
  library on strings that the sources call, hash maps as association lists, and the generic
  lemmas on them.

  A Rust \<open>str\<close> is a \<^typ>\<open>string\<close> whose characters are the bytes of its UTF-8 encoding,
  so that \<open>length\<close> is Rust's \<open>len()\<close>; a \<open>Bytes\<close>, \<open>Vec<u8>\<close> or \<open>[u8]\<close> is a list of
  8-bit words. A fallible operation returns \<open>'e + 'a\<close>, with \<^const>\<open>Inl\<close> for \<open>Err\<close>
  and \<^const>\<open>Inr\<close> for \<open>Ok\<close>.
\<close>

section \<open>Machine integers and errors\<close>

type_synonym byte = "8 word"
type_synonym u16 = "16 word"
type_synonym u32 = "32 word"
type_synonym u128 = "128 word"

text \<open>\<open>std::io::ErrorKind\<close>, restricted to the kinds the sources build or inspect.\<close>

datatype io_kind = InvalidData | InvalidInput | PermissionDenied | NotFound | TimedOut
  | BrokenPipe | UnexpectedEof | OtherKind

text \<open>What an \<open>io::Error\<close> carries: a message, or the error value of the library call that
  failed.\<close>

datatype io_msg = Msg string | FromUtf8Error "byte list" | ReadExactError nat

type_synonym io_error = "io_kind \<times> io_msg"
type_synonym 'a io_result = "io_error + 'a"

definition and_then :: "'e + 'a \<Rightarrow> ('a \<Rightarrow> 'e + 'b) \<Rightarrow> 'e + 'b" where
  "and_then r f = (case r of Inl e \<Rightarrow> Inl e | Inr x \<Rightarrow> f x)"

definition ok_or :: "'a option \<Rightarrow> 'e \<Rightarrow> 'e + 'a" where
  "ok_or x e = (case x of None \<Rightarrow> Inl e | Some v \<Rightarrow> Inr v)"

definition is_ok :: "'e + 'a \<Rightarrow> bool" where
  "is_ok r = (case r of Inl _ \<Rightarrow> False | Inr _ \<Rightarrow> True)"

lemma and_then_simps [simp]:
  "and_then (Inl e) f = Inl e"
  "and_then (Inr x) f = f x"
  by (simp_all add: and_then_def)

lemma and_then_eq_Inr:
  "and_then r f = Inr y \<longleftrightarrow> (\<exists>x. r = Inr x \<and> f x = Inr y)"
  by (cases r) auto

lemma and_then_eq_Inl:
  "and_then r f = Inl e \<longleftrightarrow> r = Inl e \<or> (\<exists>x. r = Inr x \<and> f x = Inl e)"
  by (cases r) auto

lemma ok_or_simps [simp]:
  "ok_or None e = Inl e"
  "ok_or (Some v) e = Inr v"
  by (simp_all add: ok_or_def)

lemma ok_or_eq_Inr: "ok_or x e = Inr v \<longleftrightarrow> x = Some v"
  by (cases x) auto

lemma ok_or_eq_Inl: "ok_or x e = Inl v \<longleftrightarrow> x = None \<and> v = e"
  by (cases x) auto

lemma is_ok_simps [simp]:
  "\<not> is_ok (Inl e)"
  "is_ok (Inr x)"
  by (simp_all add: is_ok_def)

section \<open>Bytes and strings\<close>

text \<open>\<open>str::as_bytes\<close> and the other way: a character of the model is one byte.\<close>

definition as_bytes :: "string \<Rightarrow> byte list" where
  "as_bytes s = map of_char s"

definition of_bytes :: "byte list \<Rightarrow> string" where
  "of_bytes bs = map (\<lambda>b. char_of (unat b)) bs"

lemma length_as_bytes [simp]: "length (as_bytes s) = length s"
  by (simp add: as_bytes_def)

lemma length_of_bytes [simp]: "length (of_bytes bs) = length bs"
  by (simp add: of_bytes_def)

lemma unat_less: "unat (w :: 'a::len word) < 2 ^ LENGTH('a)"
  by (rule unsigned_less)

lemma unat_byte_less [simp]: "unat (b :: byte) < 256"
  using unat_less [of b] by simp

lemma char_of_unat_of_char [simp]: "char_of (unat (of_char c :: byte)) = c"
proof -
  have "(of_char c :: byte) = of_nat (of_char c)" by (simp only: of_nat_of_char)
  moreover have "of_char c < (256 :: nat)" by simp
  ultimately have "unat (of_char c :: byte) = of_char c"
    by (simp add: unat_of_nat)
  then show ?thesis by simp
qed

lemma of_char_char_of_unat [simp]: "of_char (char_of (unat b)) = (b :: byte)"
proof -
  have "of_char (char_of (unat b)) = unat b" by (simp add: of_char_of)
  then have "of_nat (of_char (char_of (unat b))) = b" by simp
  then show ?thesis by (simp only: of_nat_of_char)
qed

lemma of_bytes_as_bytes [simp]: "of_bytes (as_bytes s) = s"
  by (simp add: of_bytes_def as_bytes_def comp_def)

lemma as_bytes_of_bytes [simp]: "as_bytes (of_bytes bs) = bs"
  by (simp add: of_bytes_def as_bytes_def comp_def)

lemma as_bytes_append [simp]: "as_bytes (s @ t) = as_bytes s @ as_bytes t"
  by (simp add: as_bytes_def)

lemma as_bytes_inj [simp]: "as_bytes s = as_bytes t \<longleftrightarrow> s = t"
  by (metis of_bytes_as_bytes)

lemma as_bytes_take [simp]: "as_bytes (take n s) = take n (as_bytes s)"
  by (simp add: as_bytes_def take_map)

section \<open>Big-endian integers\<close>

text \<open>\<open>to_be_bytes\<close> and the reads \<open>Buf::get_u16\<close>, \<open>Buf::get_u32\<close>.\<close>

definition be16 :: "u16 \<Rightarrow> byte list" where
  "be16 w = [ucast (drop_bit 8 w), ucast w]"

definition of_be16 :: "byte \<Rightarrow> byte \<Rightarrow> u16" where
  "of_be16 a b = word_cat a b"

definition be32 :: "u32 \<Rightarrow> byte list" where
  "be32 w = [ucast (drop_bit 24 w), ucast (drop_bit 16 w), ucast (drop_bit 8 w), ucast w]"

definition of_be32 :: "byte \<Rightarrow> byte \<Rightarrow> byte \<Rightarrow> byte \<Rightarrow> u32" where
  "of_be32 a b c d = word_cat (word_cat a b :: u16) (word_cat c d :: u16)"

lemma length_be16 [simp]: "length (be16 w) = 2"
  by (simp add: be16_def)

lemma length_be32 [simp]: "length (be32 w) = 4"
  by (simp add: be32_def)

lemma of_be16_be16 [simp]: "of_be16 (ucast (drop_bit 8 w)) (ucast w) = w"
  by (rule bit_word_eqI) (auto simp: of_be16_def bit_simps)

lemma be16_of_be16 [simp]: "be16 (of_be16 a b) = [a, b]"
  by (auto simp: be16_def of_be16_def bit_simps intro!: bit_word_eqI)

lemma of_be32_be32 [simp]:
  "of_be32 (ucast (drop_bit 24 w)) (ucast (drop_bit 16 w)) (ucast (drop_bit 8 w)) (ucast w) = w"
  by (rule bit_word_eqI) (auto simp: of_be32_def bit_simps)

lemma be32_of_be32 [simp]: "be32 (of_be32 a b c d) = [a, b, c, d]"
  by (auto simp: be32_def of_be32_def bit_simps intro!: bit_word_eqI)

end
