(* ===== verification/Codec.thy ===== *)
theory Codec
  imports Prelude
begin

text \<open>
  The two interfaces of the wire format as locales. A \<open>field_codec\<close> writes a value in front
  of whatever follows and reads it back off the front; a \<open>body_codec\<close> encodes a whole
  message body and decodes exactly one. Their laws are the round trip and its converse (what
  decodes is the encoding of the result), and the locales derive what clients use: a
  successful read is characterised by an equation, decoding is injective, and a sequence of
  self-delimiting units reads back in order.
\<close>

section \<open>Fields\<close>

locale field_codec =
  fixes put :: "'a \<Rightarrow> byte list"
    and get :: "byte list \<Rightarrow> 'e + 'a \<times> byte list"
    and fits :: "'a \<Rightarrow> bool"
  assumes get_put: "fits x \<Longrightarrow> get (put x @ r) = Inr (x, r)"
    and put_get: "get b = Inr (x, r) \<Longrightarrow> fits x \<and> b = put x @ r"
begin

lemma get_iff: "get b = Inr (x, r) \<longleftrightarrow> fits x \<and> b = put x @ r"
  using get_put put_get by blast

lemma get_shorter: "get b = Inr (x, r) \<Longrightarrow> length r \<le> length b"
  by (auto simp: get_iff)

lemma put_prefix_free:
  "fits x \<Longrightarrow> fits y \<Longrightarrow> put x @ r = put y @ s \<Longrightarrow> x = y \<and> r = s"
  by (metis get_put Pair_inject sum.inject(2))

end

section \<open>Bodies\<close>

text \<open>\<open>norm\<close> is what the encoder does to a message before it writes it.\<close>

locale body_codec =
  fixes enc :: "'m \<Rightarrow> 'e + byte list"
    and dec :: "byte list \<Rightarrow> 'e + 'm"
    and wf :: "'m \<Rightarrow> bool"
    and norm :: "'m \<Rightarrow> 'm"
  assumes dec_enc: "wf m \<Longrightarrow> enc m = Inr b \<Longrightarrow> dec b = Inr (norm m)"
    and enc_dec: "dec b = Inr m \<Longrightarrow> wf m \<and> norm m = m \<and> enc m = Inr b"
begin

lemma dec_iff: "dec b = Inr m \<longleftrightarrow> wf m \<and> norm m = m \<and> enc m = Inr b"
  by (metis dec_enc enc_dec)

lemma dec_inj: "dec b = Inr m \<Longrightarrow> dec c = Inr m \<Longrightarrow> b = c"
  by (metis enc_dec sum.inject(2))

lemma enc_inj: "wf m \<Longrightarrow> wf n \<Longrightarrow> enc m = Inr b \<Longrightarrow> enc n = Inr b \<Longrightarrow> norm m = norm n"
  by (metis dec_enc sum.inject(2))

end

end
