(* ===== verification/Rust_Str.thy ===== *)
theory Rust_Str
  imports Prelude
begin

text \<open>
  The string operations of the Rust standard library that the sources call: prefixes and
  suffixes, splitting, ASCII case folding, trimming by the Unicode \<open>White_Space\<close>
  property, and the decimal and hexadecimal printing of unsigned integers.
\<close>

section \<open>ASCII\<close>

definition byte_of :: "char \<Rightarrow> nat" where
  "byte_of c = of_char c"

definition is_ascii :: "char \<Rightarrow> bool" where
  "is_ascii c \<longleftrightarrow> byte_of c < 128"

definition is_ascii_digit :: "char \<Rightarrow> bool" where
  "is_ascii_digit c \<longleftrightarrow> 48 \<le> byte_of c \<and> byte_of c \<le> 57"

definition is_ascii_upper :: "char \<Rightarrow> bool" where
  "is_ascii_upper c \<longleftrightarrow> 65 \<le> byte_of c \<and> byte_of c \<le> 90"

definition is_ascii_lower :: "char \<Rightarrow> bool" where
  "is_ascii_lower c \<longleftrightarrow> 97 \<le> byte_of c \<and> byte_of c \<le> 122"

definition is_ascii_alphanumeric :: "char \<Rightarrow> bool" where
  "is_ascii_alphanumeric c \<longleftrightarrow> is_ascii_digit c \<or> is_ascii_upper c \<or> is_ascii_lower c"

definition ascii_lower :: "char \<Rightarrow> char" where
  "ascii_lower c = (if is_ascii_upper c then char_of (byte_of c + 32) else c)"

definition to_ascii_lowercase :: "string \<Rightarrow> string" where
  "to_ascii_lowercase s = map ascii_lower s"

definition eq_ignore_ascii_case :: "string \<Rightarrow> string \<Rightarrow> bool" where
  "eq_ignore_ascii_case s t \<longleftrightarrow> to_ascii_lowercase s = to_ascii_lowercase t"

lemma byte_of_less [simp]: "byte_of c < 256"
  by (simp add: byte_of_def)

lemma byte_of_inj [simp]: "byte_of c = byte_of d \<longleftrightarrow> c = d"
  by (simp add: byte_of_def)

lemma byte_of_char_of [simp]: "n < 256 \<Longrightarrow> byte_of (char_of n) = n"
  by (simp add: byte_of_def)

lemma byte_of_ascii_lower:
  "byte_of (ascii_lower c) = (if is_ascii_upper c then byte_of c + 32 else byte_of c)"
  by (simp add: ascii_lower_def is_ascii_upper_def)

lemma not_upper_ascii_lower [simp]: "\<not> is_ascii_upper (ascii_lower c)"
  by (simp add: is_ascii_upper_def byte_of_ascii_lower)

lemma ascii_lower_idem [simp]: "ascii_lower (ascii_lower c) = ascii_lower c"
  by (subst (1) ascii_lower_def) simp

lemma ascii_lower_id: "\<not> is_ascii_upper c \<Longrightarrow> ascii_lower c = c"
  by (simp add: ascii_lower_def)

lemma ascii_lower_alphanumeric [simp]:
  "is_ascii_alphanumeric (ascii_lower c) \<longleftrightarrow> is_ascii_alphanumeric c"
  by (auto simp: is_ascii_alphanumeric_def is_ascii_digit_def is_ascii_lower_def
      is_ascii_upper_def byte_of_ascii_lower)

lemma ascii_lower_eq_iff:
  "\<not> is_ascii_upper d \<Longrightarrow> \<not> is_ascii_lower d \<Longrightarrow> ascii_lower c = d \<longleftrightarrow> c = d"
proof (cases "is_ascii_upper c")
  case True
  then have "is_ascii_lower (ascii_lower c)"
    by (simp add: is_ascii_lower_def is_ascii_upper_def byte_of_ascii_lower)
  moreover assume "\<not> is_ascii_upper d" "\<not> is_ascii_lower d"
  ultimately show ?thesis using True by auto
next
  case False
  then show ?thesis by (simp add: ascii_lower_id)
qed

lemma length_to_ascii_lowercase [simp]: "length (to_ascii_lowercase s) = length s"
  by (simp add: to_ascii_lowercase_def)

lemma to_ascii_lowercase_idem [simp]:
  "to_ascii_lowercase (to_ascii_lowercase s) = to_ascii_lowercase s"
  by (simp add: to_ascii_lowercase_def)

lemma to_ascii_lowercase_append [simp]:
  "to_ascii_lowercase (s @ t) = to_ascii_lowercase s @ to_ascii_lowercase t"
  by (simp add: to_ascii_lowercase_def)

lemma to_ascii_lowercase_Nil_iff [simp]: "to_ascii_lowercase s = [] \<longleftrightarrow> s = []"
  by (simp add: to_ascii_lowercase_def)

lemma eq_ignore_ascii_case_refl [simp]: "eq_ignore_ascii_case s s"
  by (simp add: eq_ignore_ascii_case_def)

section \<open>Prefixes, suffixes and splitting\<close>

definition strip_prefix :: "string \<Rightarrow> string \<Rightarrow> string option" where
  "strip_prefix p s = (if prefix p s then Some (drop (length p) s) else None)"

definition strip_suffix :: "string \<Rightarrow> string \<Rightarrow> string option" where
  "strip_suffix p s = (if suffix p s then Some (take (length s - length p) s) else None)"

text \<open>\<open>str::split\<close> on one character: never empty, and \<open>n\<close> separators give \<open>n + 1\<close>
  pieces.\<close>

fun split_on :: "char \<Rightarrow> string \<Rightarrow> string list" where
  "split_on c [] = [[]]"
| "split_on c (x # xs) =
     (if x = c then [] # split_on c xs
      else (case split_on c xs of [] \<Rightarrow> [[x]] | p # ps \<Rightarrow> (x # p) # ps))"

text \<open>\<open>str::split_once\<close>: at the first occurrence.\<close>

fun split_once :: "char \<Rightarrow> string \<Rightarrow> (string \<times> string) option" where
  "split_once c [] = None"
| "split_once c (x # xs) =
     (if x = c then Some ([], xs)
      else (case split_once c xs of None \<Rightarrow> None | Some (a, b) \<Rightarrow> Some (x # a, b)))"

lemma strip_prefix_Some [simp]: "strip_prefix p s = Some r \<longleftrightarrow> s = p @ r"
  by (auto simp: strip_prefix_def prefix_def)

lemma strip_prefix_None: "strip_prefix p s = None \<longleftrightarrow> \<not> prefix p s"
  by (simp add: strip_prefix_def)

lemma strip_suffix_Some [simp]: "strip_suffix p s = Some r \<longleftrightarrow> s = r @ p"
  by (auto simp: strip_suffix_def suffix_def)

lemma split_on_not_Nil [simp]: "split_on c s \<noteq> []"
  by (induction s) (auto split: list.splits)

lemma split_on_no_sep: "c \<notin> set s \<Longrightarrow> split_on c s = [s]"
  by (induction s) auto

lemma split_on_append:
  "c \<notin> set s \<Longrightarrow> split_on c (s @ c # t) = s # split_on c t"
  by (induction s) auto

lemma split_on_sep_free: "p \<in> set (split_on c s) \<Longrightarrow> c \<notin> set p"
  by (induction s arbitrary: p) (auto split: if_splits list.splits)

lemma hd_split_on: "hd (split_on c s) = takeWhile (\<lambda>x. x \<noteq> c) s"
  by (induction s) (auto split: list.splits)

lemma set_split_on: "x \<in> set s \<Longrightarrow> x \<noteq> c \<Longrightarrow> \<exists>p \<in> set (split_on c s). x \<in> set p"
  by (induction s) (auto split: list.splits)

lemma set_split_on_sub: "p \<in> set (split_on c s) \<Longrightarrow> set p \<subseteq> set s"
  by (induction s arbitrary: p) (force split: if_splits list.splits)+

lemma split_once_eq:
  "split_once c s =
     (if c \<in> set s then Some (takeWhile (\<lambda>x. x \<noteq> c) s, tl (dropWhile (\<lambda>x. x \<noteq> c) s)) else None)"
  by (induction s) auto

lemma split_once_append [simp]: "c \<notin> set a \<Longrightarrow> split_once c (a @ c # b) = Some (a, b)"
  by (induction a) auto

lemma split_once_SomeD: "split_once c s = Some (a, b) \<Longrightarrow> s = a @ c # b \<and> c \<notin> set a"
proof -
  assume "split_once c s = Some (a, b)"
  then have c: "c \<in> set s" and a: "a = takeWhile (\<lambda>x. x \<noteq> c) s"
    and b: "b = tl (dropWhile (\<lambda>x. x \<noteq> c) s)"
    by (simp_all add: split_once_eq split: if_splits)
  from c have "dropWhile (\<lambda>x. x \<noteq> c) s = c # b"
    unfolding b by (induction s) auto
  then have "s = a @ c # b" unfolding a by (metis takeWhile_dropWhile_id)
  moreover have "c \<notin> set a" unfolding a by (auto dest: set_takeWhileD)
  ultimately show ?thesis ..
qed

lemma split_once_Some:
  "split_once c s = Some (a, b) \<longleftrightarrow> s = a @ c # b \<and> c \<notin> set a"
  using split_once_SomeD by fastforce

lemma split_once_None: "split_once c s = None \<longleftrightarrow> c \<notin> set s"
  by (induction s) (auto split: option.splits)

section \<open>Trimming\<close>

text \<open>
  The UTF-8 encodings of the 25 code points with the Unicode \<open>White_Space\<close> property, which
  is what \<open>char::is_whitespace\<close> and so \<open>str::trim\<close> test. In a valid UTF-8 string one of
  them is a prefix (suffix) exactly when the first (last) character is white space.
\<close>

definition white_space_bytes :: "nat list list" where
  "white_space_bytes =
     [[9], [10], [11], [12], [13], [32], [0xC2, 0x85], [0xC2, 0xA0], [0xE1, 0x9A, 0x80]]
     @ map (\<lambda>n. [0xE2, 0x80, n])
         [0x80, 0x81, 0x82, 0x83, 0x84, 0x85, 0x86, 0x87, 0x88, 0x89, 0x8A, 0xA8, 0xA9, 0xAF]
     @ [[0xE2, 0x81, 0x9F], [0xE3, 0x80, 0x80]]"

definition white_space :: "string list" where
  "white_space = map (map char_of) white_space_bytes"

definition ws_prefix :: "string \<Rightarrow> string option" where
  "ws_prefix s = find (\<lambda>w. prefix w s) white_space"

definition ws_suffix :: "string \<Rightarrow> string option" where
  "ws_suffix s = find (\<lambda>w. suffix w s) white_space"

lemma white_space_not_Nil: "[] \<notin> set white_space"
  by (simp add: white_space_def white_space_bytes_def)

lemma find_Some_sat: "find P xs = Some x \<Longrightarrow> x \<in> set xs \<and> P x"
  by (induction xs) (auto split: if_splits)

lemma ws_prefix_pos: "ws_prefix s = Some w \<Longrightarrow> 0 < length w \<and> length w \<le> length s"
  unfolding ws_prefix_def
  by (metis find_Some_sat white_space_not_Nil length_greater_0_conv prefix_length_le)

lemma ws_suffix_pos: "ws_suffix s = Some w \<Longrightarrow> 0 < length w \<and> length w \<le> length s"
  unfolding ws_suffix_def
  by (metis find_Some_sat white_space_not_Nil length_greater_0_conv suffix_length_le)

function trim_start :: "string \<Rightarrow> string" where
  "trim_start s = (case ws_prefix s of None \<Rightarrow> s | Some w \<Rightarrow> trim_start (drop (length w) s))"
  by pat_completeness auto
termination
  by (relation "measure length") (simp_all, meson ws_prefix_pos diff_less less_le_trans)

function trim_end :: "string \<Rightarrow> string" where
  "trim_end s =
     (case ws_suffix s of None \<Rightarrow> s | Some w \<Rightarrow> trim_end (take (length s - length w) s))"
  by pat_completeness auto
termination
  by (relation "measure length") (simp_all, meson ws_suffix_pos diff_less less_le_trans)

declare trim_start.simps [simp del] trim_end.simps [simp del]

definition trim :: "string \<Rightarrow> string" where
  "trim s = trim_end (trim_start s)"

text \<open>\<open>trim_start_matches\<close> and \<open>trim_end_matches\<close> with one ASCII character.\<close>

definition trim_start_matches :: "char \<Rightarrow> string \<Rightarrow> string" where
  "trim_start_matches c s = dropWhile (\<lambda>x. x = c) s"

definition trim_end_matches :: "char \<Rightarrow> string \<Rightarrow> string" where
  "trim_end_matches c s = rev (dropWhile (\<lambda>x. x = c) (rev s))"

lemma trim_start_suffix: "suffix (trim_start s) s"
proof (induction s rule: trim_start.induct)
  case (1 s)
  show ?case
  proof (cases "ws_prefix s")
    case None
    then show ?thesis by (simp add: trim_start.simps [of s])
  next
    case (Some w)
    with 1 have "suffix (trim_start (drop (length w) s)) (drop (length w) s)" by simp
    then have "suffix (trim_start (drop (length w) s)) s"
      by (meson suffix_drop suffix_order.trans)
    with Some show ?thesis by (simp add: trim_start.simps [of s])
  qed
qed

lemma trim_end_prefix: "prefix (trim_end s) s"
proof (induction s rule: trim_end.induct)
  case (1 s)
  show ?case
  proof (cases "ws_suffix s")
    case None
    then show ?thesis by (simp add: trim_end.simps [of s])
  next
    case (Some w)
    with 1 have "prefix (trim_end (take (length s - length w) s)) (take (length s - length w) s)"
      by simp
    then have "prefix (trim_end (take (length s - length w) s)) s"
      by (meson take_is_prefix prefix_order.trans)
    with Some show ?thesis by (simp add: trim_end.simps [of s])
  qed
qed

lemma trim_end_ws_suffix: "ws_suffix (trim_end s) = None"
proof (induction s rule: trim_end.induct)
  case (1 s)
  then show ?case by (cases "ws_suffix s") (simp_all add: trim_end.simps [of s])
qed

lemma ws_prefix_None_iff: "ws_prefix s = None \<longleftrightarrow> (\<forall>w \<in> set white_space. \<not> prefix w s)"
  by (auto simp: ws_prefix_def find_None_iff)

lemma trim_start_ws_prefix: "ws_prefix (trim_start s) = None"
proof (induction s rule: trim_start.induct)
  case (1 s)
  then show ?case by (cases "ws_prefix s") (simp_all add: trim_start.simps [of s])
qed

lemma trim_start_id: "ws_prefix s = None \<Longrightarrow> trim_start s = s"
  by (simp add: trim_start.simps [of s])

lemma trim_end_id: "ws_suffix s = None \<Longrightarrow> trim_end s = s"
  by (simp add: trim_end.simps [of s])

lemma ws_prefix_trim: "ws_prefix (trim s) = None"
  using trim_start_ws_prefix [of s] trim_end_prefix [of "trim_start s"]
  unfolding trim_def ws_prefix_None_iff by (meson prefix_order.trans)

lemma trim_idem [simp]: "trim (trim s) = trim s"
  using ws_prefix_trim [of s] trim_end_ws_suffix [of "trim_start s"]
  by (simp add: trim_def trim_start_id trim_end_id)

lemma trim_id: "ws_prefix s = None \<Longrightarrow> ws_suffix s = None \<Longrightarrow> trim s = s"
  by (simp add: trim_def trim_start_id trim_end_id)

lemma set_trim_sub: "set (trim s) \<subseteq> set s"
  unfolding trim_def
  by (meson trim_start_suffix trim_end_prefix set_mono_prefix set_mono_suffix subset_trans)

text \<open>A string of ASCII characters above the space is untouched by trimming.\<close>

definition printable :: "char \<Rightarrow> bool" where
  "printable c \<longleftrightarrow> 32 < byte_of c \<and> byte_of c < 128"

lemma white_space_unprintable: "w \<in> set white_space \<Longrightarrow> \<forall>c \<in> set w. \<not> printable c"
proof -
  have "\<forall>ns \<in> set white_space_bytes. \<forall>n \<in> set ns. n < 256 \<and> \<not> (32 < n \<and> n < 128)"
    by (simp add: white_space_bytes_def)
  then show "w \<in> set white_space \<Longrightarrow> ?thesis"
    by (auto simp: white_space_def printable_def)
qed

lemma trim_printable: "\<forall>c \<in> set s. printable c \<Longrightarrow> trim s = s"
proof (rule trim_id)
  assume *: "\<forall>c \<in> set s. printable c"
  have "\<not> set w \<subseteq> set s" if "w \<in> set white_space" for w
    using that * white_space_unprintable [OF that] white_space_not_Nil
    by (metis list.set_intros(1) neq_Nil_conv subsetD)
  then show "ws_prefix s = None" "ws_suffix s = None"
    by (auto simp: ws_prefix_def ws_suffix_def find_None_iff
        dest: set_mono_prefix set_mono_suffix)
qed

section \<open>Printing numbers\<close>

definition digit_char :: "nat \<Rightarrow> char" where
  "digit_char d = char_of (if d < 10 then 48 + d else 87 + d)"

text \<open>\<open>{}\<close> (radix 10) and \<open>{:x}\<close> (radix 16) of an unsigned integer.\<close>

fun show_radix :: "nat \<Rightarrow> nat \<Rightarrow> string" where
  "show_radix r n =
     (if n < r \<or> r < 2 then [digit_char n] else show_radix r (n div r) @ [digit_char (n mod r)])"

declare show_radix.simps [simp del]

abbreviation show_nat :: "nat \<Rightarrow> string" where
  "show_nat n \<equiv> show_radix 10 n"

abbreviation show_hex :: "nat \<Rightarrow> string" where
  "show_hex n \<equiv> show_radix 16 n"

end
