(* ===== verification/Utf8.thy ===== *)
theory Utf8
  imports Prelude
begin

text \<open>
  UTF-8 as \<open>String::from_utf8\<close> checks it (the well-formed byte sequences of the Unicode
  standard, table 3-7) and \<open>str::floor_char_boundary\<close>. The main fact is that cutting a
  valid string at a character boundary leaves a valid string.
\<close>

section \<open>Validity\<close>

definition cont :: "byte \<Rightarrow> bool" where
  "cont b \<longleftrightarrow> 0x80 \<le> unat b \<and> unat b \<le> 0xBF"

definition utf8_2 :: "byte \<Rightarrow> byte \<Rightarrow> bool" where
  "utf8_2 a b \<longleftrightarrow> 0xC2 \<le> unat a \<and> unat a \<le> 0xDF \<and> cont b"

definition utf8_3 :: "byte \<Rightarrow> byte \<Rightarrow> byte \<Rightarrow> bool" where
  "utf8_3 a b c \<longleftrightarrow> 0xE0 \<le> unat a \<and> unat a \<le> 0xEF \<and> cont b \<and> cont c
     \<and> (unat a = 0xE0 \<longrightarrow> 0xA0 \<le> unat b) \<and> (unat a = 0xED \<longrightarrow> unat b \<le> 0x9F)"

definition utf8_4 :: "byte \<Rightarrow> byte \<Rightarrow> byte \<Rightarrow> byte \<Rightarrow> bool" where
  "utf8_4 a b c d \<longleftrightarrow> 0xF0 \<le> unat a \<and> unat a \<le> 0xF4 \<and> cont b \<and> cont c \<and> cont d
     \<and> (unat a = 0xF0 \<longrightarrow> 0x90 \<le> unat b) \<and> (unat a = 0xF4 \<longrightarrow> unat b \<le> 0x8F)"

fun utf8_valid :: "byte list \<Rightarrow> bool" where
  "utf8_valid [] = True"
| "utf8_valid (a # r) =
     (if unat a < 0x80 then utf8_valid r
      else (case r of [] \<Rightarrow> False
        | b # r2 \<Rightarrow> if utf8_2 a b then utf8_valid r2
          else (case r2 of [] \<Rightarrow> False
            | c # r3 \<Rightarrow> if utf8_3 a b c then utf8_valid r3
              else (case r3 of [] \<Rightarrow> False
                | d # r4 \<Rightarrow> utf8_4 a b c d \<and> utf8_valid r4))))"

declare utf8_valid.simps(2) [simp del]

text \<open>A Rust string of the model: its bytes are valid UTF-8.\<close>

definition is_str :: "string \<Rightarrow> bool" where
  "is_str s \<longleftrightarrow> utf8_valid (as_bytes s)"

section \<open>Character boundaries\<close>

text \<open>\<open>u8::is_utf8_char_boundary\<close>: every byte but a continuation byte starts a character.\<close>

definition char_start :: "byte \<Rightarrow> bool" where
  "char_start b \<longleftrightarrow> \<not> cont b"

text \<open>\<open>str::floor_char_boundary\<close>: walk down from the index to a byte that starts a character.\<close>

primrec boundary_below :: "byte list \<Rightarrow> nat \<Rightarrow> nat" where
  "boundary_below bs 0 = 0"
| "boundary_below bs (Suc i) = (if char_start (bs ! Suc i) then Suc i else boundary_below bs i)"

definition floor_char_boundary :: "string \<Rightarrow> nat \<Rightarrow> nat" where
  "floor_char_boundary s i =
     (if length s \<le> i then length s else boundary_below (as_bytes s) i)"

lemma boundary_below_le: "boundary_below bs i \<le> i"
  by (induction i) auto

lemma boundary_below_start:
  "boundary_below bs i = 0 \<or> char_start (bs ! boundary_below bs i)"
  by (induction i) auto

lemma floor_char_boundary_le: "floor_char_boundary s i \<le> i"
  using boundary_below_le [of "as_bytes s" i] by (simp add: floor_char_boundary_def)

lemma floor_char_boundary_id: "length s \<le> i \<Longrightarrow> floor_char_boundary s i = length s"
  by (simp add: floor_char_boundary_def)

lemma utf8_lead:
  "utf8_2 a b \<Longrightarrow> \<not> unat a < 0x80 \<and> cont b"
  "utf8_3 a b c \<Longrightarrow> \<not> unat a < 0x80 \<and> \<not> utf8_2 a b \<and> cont b \<and> cont c"
  "utf8_4 a b c d \<Longrightarrow> \<not> unat a < 0x80 \<and> \<not> utf8_2 a b \<and> \<not> utf8_3 a b c \<and> cont b \<and> cont c \<and> cont d"
  by (auto simp: utf8_2_def utf8_3_def utf8_4_def)

text \<open>One character off the front: the four shapes a valid non-empty string can have.\<close>

lemma utf8_valid_cases [consumes 2, case_names One Two Three Four]:
  assumes "utf8_valid bs" and "bs \<noteq> []"
  obtains a r where "bs = a # r" "unat a < 0x80" "utf8_valid r"
  | a b r where "bs = a # b # r" "utf8_2 a b" "utf8_valid r"
  | a b c r where "bs = a # b # c # r" "utf8_3 a b c" "utf8_valid r"
  | a b c d r where "bs = a # b # c # d # r" "utf8_4 a b c d" "utf8_valid r"
proof -
  from assms obtain x xs where bs: "bs = x # xs" and v: "utf8_valid (x # xs)" by (cases bs) auto
  show ?thesis
    using v unfolding bs utf8_valid.simps(2) [of x xs]
    by (auto split: if_splits list.splits intro: that simp: bs)
qed

lemma utf8_valid_intros:
  "unat a < 0x80 \<Longrightarrow> utf8_valid r \<Longrightarrow> utf8_valid (a # r)"
  "utf8_2 a b \<Longrightarrow> utf8_valid r \<Longrightarrow> utf8_valid (a # b # r)"
  "utf8_3 a b c \<Longrightarrow> utf8_valid r \<Longrightarrow> utf8_valid (a # b # c # r)"
  "utf8_4 a b c d \<Longrightarrow> utf8_valid r \<Longrightarrow> utf8_valid (a # b # c # d # r)"
  unfolding utf8_valid.simps(2) [of a] by (simp_all add: utf8_lead)

lemma start_past_cont:
  assumes "\<forall>b \<in> set ys. cont b" and "char_start ((a # ys @ r) ! i)" and "i \<noteq> 0"
  obtains j where "i = Suc (length ys + j)"
proof -
  have "\<not> i - 1 < length ys"
    using assms by (cases i) (auto simp: char_start_def nth_append)
  then have "i = Suc (length ys + (i - 1 - length ys))" using assms(3) by simp
  then show ?thesis by (rule that)
qed

lemma utf8_valid_take:
  "utf8_valid bs \<Longrightarrow> i < length bs \<Longrightarrow> char_start (bs ! i) \<Longrightarrow> utf8_valid (take i bs)"
proof (induction "length bs" arbitrary: bs i rule: less_induct)
  case less
  then have ne: "bs \<noteq> []" by auto
  have IH: "utf8_valid (take j r)"
    if "utf8_valid r" "length r < length bs" "j < length r" "char_start (r ! j)" for r j
    using less.hyps that by blast
  show ?case
  proof (cases "i = 0")
    case False
    from less.prems(1) ne show ?thesis
    proof (cases rule: utf8_valid_cases)
      case (One a r)
      with False less.prems IH [of r "i - 1"] show ?thesis
        by (cases i) (auto intro: utf8_valid_intros)
    next
      case (Two a b r)
      with False less.prems(3) obtain j where "i = Suc (length [b] + j)"
        using start_past_cont [of "[b]" a r i] utf8_lead(1) by auto
      with Two less.prems IH [of r j] show ?thesis by (auto intro!: utf8_valid_intros(2))
    next
      case (Three a b c r)
      with False less.prems(3) obtain j where "i = Suc (length [b, c] + j)"
        using start_past_cont [of "[b, c]" a r i] utf8_lead(2) by auto
      with Three less.prems IH [of r j] show ?thesis by (auto intro!: utf8_valid_intros(3))
    next
      case (Four a b c d r)
      with False less.prems(3) obtain j where "i = Suc (length [b, c, d] + j)"
        using start_past_cont [of "[b, c, d]" a r i] utf8_lead(3) by auto
      with Four less.prems IH [of r j] show ?thesis by (auto intro!: utf8_valid_intros(4))
    qed
  qed simp
qed

lemma floor_char_boundary_valid:
  assumes "is_str s"
  shows "is_str (take (floor_char_boundary s i) s)"
proof (cases "length s \<le> i")
  case True
  with assms show ?thesis by (simp add: floor_char_boundary_id)
next
  case False
  let ?j = "boundary_below (as_bytes s) i"
  have j: "?j < length (as_bytes s)"
    using False boundary_below_le [of "as_bytes s" i] by simp
  have "utf8_valid (take ?j (as_bytes s))"
    using boundary_below_start [of "as_bytes s" i] assms j
    by (auto simp: is_str_def intro: utf8_valid_take)
  with False show ?thesis by (simp add: floor_char_boundary_def is_str_def)
qed

lemma utf8_valid_ascii: "\<forall>b \<in> set bs. unat b < 0x80 \<Longrightarrow> utf8_valid bs"
  by (induction bs) (auto intro: utf8_valid_intros(1))

end
