(* ===== verification/Wire.thy ===== *)
theory Wire
  imports Codec Rust_Str Utf8
begin

text \<open>
  The tunnel protocol of \<open>crates/proto/src/lib.rs\<close>: the limits, the message type, its
  encoding as a WebSocket body and as a length-prefixed QUIC frame, decoding, and the
  redacting \<open>Debug\<close> output.
\<close>

section \<open>Limits\<close>

definition MAX_ACTIVE_STREAMS :: nat where
  "MAX_ACTIVE_STREAMS = 128"

definition STREAM_RECV_WINDOW :: nat where
  "STREAM_RECV_WINDOW = 256 * 1024"

definition WINDOW_UPDATE_THRESHOLD :: nat where
  "WINDOW_UPDATE_THRESHOLD = STREAM_RECV_WINDOW div 2"

definition TUNNEL_READ_CHUNK :: nat where
  "TUNNEL_READ_CHUNK = 32 * 1024"

definition MAX_DATA_PAYLOAD_LEN :: nat where
  "MAX_DATA_PAYLOAD_LEN = 128 * 1024"

definition MAX_CONNECT_TARGET_LEN :: nat where
  "MAX_CONNECT_TARGET_LEN = 2048"

definition MAX_CONNECT_ERR_LEN :: nat where
  "MAX_CONNECT_ERR_LEN = 1024"

definition MAX_AUTH_TOKEN_LEN :: nat where
  "MAX_AUTH_TOKEN_LEN = 512"

definition MAX_MESSAGE_BODY_LEN :: nat where
  "MAX_MESSAGE_BODY_LEN = MAX_DATA_PAYLOAD_LEN + 9"

definition MAX_FRAME_BODY_LEN :: nat where
  "MAX_FRAME_BODY_LEN = MAX_CONNECT_TARGET_LEN + 7"

lemmas wire_limits = MAX_DATA_PAYLOAD_LEN_def MAX_CONNECT_TARGET_LEN_def
  MAX_CONNECT_ERR_LEN_def MAX_AUTH_TOKEN_LEN_def MAX_MESSAGE_BODY_LEN_def
  MAX_FRAME_BODY_LEN_def

section \<open>Messages\<close>

datatype message_type = TConnect | TConnectOk | TConnectErr | TData | TClose | TReset
  | TWindowUpdate | TAuth

fun type_byte :: "message_type \<Rightarrow> byte" where
  "type_byte TConnect = 0x01"
| "type_byte TConnectOk = 0x02"
| "type_byte TConnectErr = 0x03"
| "type_byte TData = 0x10"
| "type_byte TClose = 0x20"
| "type_byte TReset = 0x21"
| "type_byte TWindowUpdate = 0x22"
| "type_byte TAuth = 0x40"

definition bad :: "io_msg \<Rightarrow> io_error" where
  "bad e = (InvalidData, e)"

definition type_of_byte :: "byte \<Rightarrow> message_type io_result" where
  "type_of_byte v =
     (if v = 0x01 then Inr TConnect
      else if v = 0x02 then Inr TConnectOk
      else if v = 0x03 then Inr TConnectErr
      else if v = 0x10 then Inr TData
      else if v = 0x20 then Inr TClose
      else if v = 0x21 then Inr TReset
      else if v = 0x22 then Inr TWindowUpdate
      else if v = 0x40 then Inr TAuth
      else Inl (bad (Msg ''unknown message type'')))"

datatype message =
    Connect u32 string
  | ConnectOk u32
  | ConnectErr u32 string
  | Data u32 "byte list"
  | Close u32
  | Reset u32
  | WindowUpdate u32 u32
  | Auth string

section \<open>Encoding\<close>

definition put_str :: "byte list \<Rightarrow> string \<Rightarrow> nat \<Rightarrow> nat \<Rightarrow> byte list io_result" where
  "put_str buf s mn mx =
     (if \<not> (mn \<le> length s \<and> length s \<le> mx)
      then Inl (InvalidInput, Msg (''string length '' @ show_nat (length s) @ '' outside ''
             @ show_nat mn @ ''..='' @ show_nat mx))
      else Inr (buf @ be16 (of_nat (length s)) @ as_bytes s))"

text \<open>\<open>Message::encode_into\<close>: the type byte, the stream id of every message but \<open>Auth\<close>, then
  the fields.\<close>

fun message_kind :: "message \<Rightarrow> message_type \<times> u32 option" where
  "message_kind (Connect sid _) = (TConnect, Some sid)"
| "message_kind (ConnectOk sid) = (TConnectOk, Some sid)"
| "message_kind (ConnectErr sid _) = (TConnectErr, Some sid)"
| "message_kind (Data sid _) = (TData, Some sid)"
| "message_kind (Close sid) = (TClose, Some sid)"
| "message_kind (Reset sid) = (TReset, Some sid)"
| "message_kind (WindowUpdate sid _) = (TWindowUpdate, Some sid)"
| "message_kind (Auth _) = (TAuth, None)"

definition encode_into :: "message \<Rightarrow> byte list \<Rightarrow> byte list io_result" where
  "encode_into m buf0 =
     (let (kind, sid) = message_kind m;
          buf1 = buf0 @ [type_byte kind];
          buf = (case sid of None \<Rightarrow> buf1 | Some i \<Rightarrow> buf1 @ be32 i)
      in case m of
           Connect _ target \<Rightarrow> put_str buf target 0 MAX_CONNECT_TARGET_LEN
         | ConnectErr _ error \<Rightarrow>
             put_str buf (take (floor_char_boundary error MAX_CONNECT_ERR_LEN) error)
               0 MAX_CONNECT_ERR_LEN
         | Auth token \<Rightarrow> put_str buf token 1 MAX_AUTH_TOKEN_LEN
         | Data _ payload \<Rightarrow>
             if MAX_DATA_PAYLOAD_LEN < length payload
             then Inl (InvalidInput, Msg (''data payload too large: ''
                    @ show_nat (length payload) @ '' bytes''))
             else Inr (buf @ be32 (of_nat (length payload)) @ payload)
         | WindowUpdate _ bytes \<Rightarrow> Inr (buf @ be32 bytes)
         | ConnectOk _ \<Rightarrow> Inr buf
         | Close _ \<Rightarrow> Inr buf
         | Reset _ \<Rightarrow> Inr buf)"

definition encode :: "message \<Rightarrow> byte list io_result" where
  "encode m = encode_into m []"

definition frame :: "message \<Rightarrow> byte list io_result" where
  "frame m = and_then (encode_into m (replicate 4 0))
     (\<lambda>buf. let body_len = of_nat (length buf - 4) in Inr (be32 body_len @ drop 4 buf))"

section \<open>Decoding\<close>

fun get_u32 :: "byte list \<Rightarrow> (u32 \<times> byte list) io_result" where
  "get_u32 (a # b # c # d # r) = Inr (of_be32 a b c d, r)"
| "get_u32 _ = Inl (bad (Msg ''message truncated''))"

fun get_str :: "nat \<Rightarrow> nat \<Rightarrow> byte list \<Rightarrow> (string \<times> byte list) io_result" where
  "get_str mn mx (a # b # r) =
     (let len = unat (of_be16 a b)
      in if \<not> (mn \<le> len \<and> len \<le> mx) \<or> length r < len
         then Inl (bad (Msg (''string length '' @ show_nat len @ '' invalid'')))
         else if utf8_valid (take len r) then Inr (of_bytes (take len r), drop len r)
         else Inl (bad (FromUtf8Error (take len r))))"
| "get_str mn mx _ = Inl (bad (Msg ''message truncated''))"

definition get_payload :: "byte list \<Rightarrow> (byte list \<times> byte list) io_result" where
  "get_payload b0 = and_then (get_u32 b0) (\<lambda>(n, b).
     let len = unat n
     in if MAX_DATA_PAYLOAD_LEN < len \<or> length b < len
        then Inl (bad (Msg (''data payload length '' @ show_nat len @ '' invalid'')))
        else Inr (take len b, drop len b))"

definition decode :: "byte list \<Rightarrow> message io_result" where
  "decode buf = (case buf of [] \<Rightarrow> Inl (bad (Msg ''empty message'')) | v # b0 \<Rightarrow>
     and_then (type_of_byte v) (\<lambda>t.
     and_then
       (case t of
          TConnect \<Rightarrow>
            and_then (get_u32 b0) (\<lambda>(sid, b).
            and_then (get_str 0 MAX_CONNECT_TARGET_LEN b) (\<lambda>(target, b). Inr (Connect sid target, b)))
        | TConnectOk \<Rightarrow> and_then (get_u32 b0) (\<lambda>(sid, b). Inr (ConnectOk sid, b))
        | TConnectErr \<Rightarrow>
            and_then (get_u32 b0) (\<lambda>(sid, b).
            and_then (get_str 0 MAX_CONNECT_ERR_LEN b) (\<lambda>(error, b). Inr (ConnectErr sid error, b)))
        | TData \<Rightarrow>
            and_then (get_u32 b0) (\<lambda>(sid, b).
            and_then (get_payload b) (\<lambda>(payload, b). Inr (Data sid payload, b)))
        | TClose \<Rightarrow> and_then (get_u32 b0) (\<lambda>(sid, b). Inr (Close sid, b))
        | TReset \<Rightarrow> and_then (get_u32 b0) (\<lambda>(sid, b). Inr (Reset sid, b))
        | TWindowUpdate \<Rightarrow>
            and_then (get_u32 b0) (\<lambda>(sid, b).
            and_then (get_u32 b) (\<lambda>(bytes, b). Inr (WindowUpdate sid bytes, b)))
        | TAuth \<Rightarrow>
            and_then (get_str 1 MAX_AUTH_TOKEN_LEN b0) (\<lambda>(token, b). Inr (Auth token, b)))
       (\<lambda>(msg, b). if b \<noteq> [] then Inl (bad (Msg ''trailing bytes after message'')) else Inr msg)))"

text \<open>
  \<open>read_frame\<close> on a QUIC receive stream, which delivers its bytes in order: the stream is the
  bytes that arrive before it finishes, and the result carries those not yet read. Finishing
  inside \<open>read_exact\<close> is an error.
\<close>

definition read_exact :: "nat \<Rightarrow> byte list \<Rightarrow> (byte list \<times> byte list) io_result" where
  "read_exact n s =
     (if length s < n then Inl (OtherKind, ReadExactError (length s)) else Inr (take n s, drop n s))"

definition read_frame :: "byte list \<Rightarrow> (message \<times> byte list) io_result" where
  "read_frame recv =
     and_then (read_exact 4 recv) (\<lambda>(hdr, recv1).
     and_then (get_u32 hdr) (\<lambda>(n, _).
       let len = unat n
       in if \<not> (1 \<le> len \<and> len \<le> MAX_FRAME_BODY_LEN)
          then Inl (bad (Msg (''invalid frame length '' @ show_nat len)))
          else and_then (read_exact len recv1) (\<lambda>(body, recv2).
               and_then (decode body) (\<lambda>m. Inr (m, recv2)))))"

text \<open>\<open>impl Debug for Message\<close>; \<open>dbg\<close> is the standard \<open>{:?}\<close> rendering of a string.\<close>

fun debug_message :: "(string \<Rightarrow> string) \<Rightarrow> message \<Rightarrow> string" where
  "debug_message dbg (Connect sid target) =
     ''Connect { stream_id: '' @ show_nat (unat sid) @ '', target: '' @ dbg target @ '' }''"
| "debug_message dbg (ConnectOk sid) = ''ConnectOk { stream_id: '' @ show_nat (unat sid) @ '' }''"
| "debug_message dbg (ConnectErr sid error) =
     ''ConnectErr { stream_id: '' @ show_nat (unat sid) @ '', error: '' @ dbg error @ '' }''"
| "debug_message dbg (Data sid payload) =
     ''Data { stream_id: '' @ show_nat (unat sid) @ '', payload_len: ''
       @ show_nat (length payload) @ '' }''"
| "debug_message dbg (Close sid) = ''Close { stream_id: '' @ show_nat (unat sid) @ '' }''"
| "debug_message dbg (Reset sid) = ''Reset { stream_id: '' @ show_nat (unat sid) @ '' }''"
| "debug_message dbg (WindowUpdate sid bytes) =
     ''WindowUpdate { stream_id: '' @ show_nat (unat sid) @ '', bytes: ''
       @ show_nat (unat bytes) @ '' }''"
| "debug_message dbg (Auth _) =
     ''Auth { token: '' @ [CHR 0x22] @ ''[redacted]'' @ [CHR 0x22] @ '' }''"

section \<open>The field codecs\<close>

definition str_field :: "string \<Rightarrow> byte list" where
  "str_field s = be16 (of_nat (length s)) @ as_bytes s"

definition str_fits :: "nat \<Rightarrow> nat \<Rightarrow> string \<Rightarrow> bool" where
  "str_fits mn mx s \<longleftrightarrow> is_str s \<and> mn \<le> length s \<and> length s \<le> mx"

definition payload_field :: "byte list \<Rightarrow> byte list" where
  "payload_field p = be32 (of_nat (length p)) @ p"

definition payload_fits :: "byte list \<Rightarrow> bool" where
  "payload_fits p \<longleftrightarrow> length p \<le> MAX_DATA_PAYLOAD_LEN"

lemma unat_of_nat_u16: "n < 65536 \<Longrightarrow> unat (of_nat n :: u16) = n"
  by (simp add: unat_of_nat take_bit_eq_mod)

lemma unat_of_nat_u32: "n < 4294967296 \<Longrightarrow> unat (of_nat n :: u32) = n"
  by (simp add: unat_of_nat take_bit_eq_mod)

lemma get_u32_put: "get_u32 (be32 w @ r) = Inr (w, r)"
  by (simp add: be32_def)

lemma get_u32_Inr: "get_u32 b = Inr (w, r) \<Longrightarrow> b = be32 w @ r"
  by (cases b rule: get_u32.cases) auto

lemma be16_cons: "be16 w @ r = ucast (drop_bit 8 w) # ucast w # r"
  by (simp add: be16_def)

lemma get_str_put:
  assumes "str_fits mn mx s" and "mx < 65536"
  shows "get_str mn mx (str_field s @ r) = Inr (s, r)"
proof -
  have "unat (of_nat (length s) :: u16) = length s"
    using assms by (intro unat_of_nat_u16) (simp add: str_fits_def)
  then show ?thesis
    using assms by (simp add: str_field_def be16_cons str_fits_def is_str_def Let_def)
qed

lemma get_str_Inr:
  assumes "get_str mn mx b = Inr (s, r)" and "mx < 65536"
  shows "str_fits mn mx s \<and> b = str_field s @ r"
proof (cases "(mn, mx, b)" rule: get_str.cases)
  case (1 mn' mx' a c q)
  let ?len = "unat (of_be16 a c)"
  have s: "s = of_bytes (take ?len q)" "r = drop ?len q" "utf8_valid (take ?len q)"
    and len: "mn \<le> ?len" "?len \<le> mx" "?len \<le> length q"
    using assms 1 by (auto simp: Let_def split: if_splits)
  have "length s = ?len" using s len by simp
  then have "be16 (of_nat (length s)) = [a, c]" by simp
  then show ?thesis
    using s len 1 by (simp add: str_fits_def str_field_def is_str_def)
qed (use assms in auto)

lemma get_payload_put:
  assumes "payload_fits p"
  shows "get_payload (payload_field p @ r) = Inr (p, r)"
proof -
  have "unat (of_nat (length p) :: u32) = length p"
    using assms by (intro unat_of_nat_u32) (simp add: payload_fits_def wire_limits)
  then show ?thesis
    using assms by (simp add: get_payload_def payload_field_def get_u32_put payload_fits_def)
qed

lemma get_payload_Inr:
  assumes "get_payload b = Inr (p, r)"
  shows "payload_fits p \<and> b = payload_field p @ r"
proof -
  from assms obtain n q where n: "get_u32 b = Inr (n, q)"
    and len: "unat n \<le> MAX_DATA_PAYLOAD_LEN" "unat n \<le> length q"
    and p: "p = take (unat n) q" "r = drop (unat n) q"
    by (auto simp: get_payload_def and_then_eq_Inr Let_def split: if_splits)
  have "length p = unat n" using len p by simp
  then show ?thesis
    using get_u32_Inr [OF n] p len by (simp add: payload_fits_def payload_field_def)
qed

interpretation u32_field: field_codec be32 get_u32 "\<lambda>_. True"
  by unfold_locales (auto simp: get_u32_put dest: get_u32_Inr)

interpretation target_field: field_codec str_field "get_str 0 MAX_CONNECT_TARGET_LEN"
    "str_fits 0 MAX_CONNECT_TARGET_LEN"
  by unfold_locales (use get_str_put get_str_Inr in \<open>simp_all add: wire_limits\<close>)

interpretation error_field: field_codec str_field "get_str 0 MAX_CONNECT_ERR_LEN"
    "str_fits 0 MAX_CONNECT_ERR_LEN"
  by unfold_locales (use get_str_put get_str_Inr in \<open>simp_all add: wire_limits\<close>)

interpretation token_field: field_codec str_field "get_str 1 MAX_AUTH_TOKEN_LEN"
    "str_fits 1 MAX_AUTH_TOKEN_LEN"
  by unfold_locales (use get_str_put get_str_Inr in \<open>simp_all add: wire_limits\<close>)

interpretation payload_field: field_codec payload_field get_payload payload_fits
  by unfold_locales (auto simp: get_payload_put dest: get_payload_Inr)

lemmas field_iff = u32_field.get_iff target_field.get_iff error_field.get_iff
  token_field.get_iff [unfolded One_nat_def] payload_field.get_iff

section \<open>The message codec\<close>

text \<open>What a \<open>Message\<close> value is in Rust (every string is UTF-8), what the encoder writes of it
  (the error text cut to its limit), and which messages fit the format.\<close>

fun wf_message :: "message \<Rightarrow> bool" where
  "wf_message (Connect _ target) = is_str target"
| "wf_message (ConnectErr _ error) = is_str error"
| "wf_message (Auth token) = is_str token"
| "wf_message _ = True"

fun wire_form :: "message \<Rightarrow> message" where
  "wire_form (ConnectErr sid error) =
     ConnectErr sid (take (floor_char_boundary error MAX_CONNECT_ERR_LEN) error)"
| "wire_form m = m"

fun encodable :: "message \<Rightarrow> bool" where
  "encodable (Connect _ target) \<longleftrightarrow> length target \<le> MAX_CONNECT_TARGET_LEN"
| "encodable (Data _ payload) \<longleftrightarrow> length payload \<le> MAX_DATA_PAYLOAD_LEN"
| "encodable (Auth token) \<longleftrightarrow> 1 \<le> length token \<and> length token \<le> MAX_AUTH_TOKEN_LEN"
| "encodable _ \<longleftrightarrow> True"

text \<open>The body as one expression, the reference definition of \<open>encode\<close> on encodable messages.\<close>

fun body_bytes :: "message \<Rightarrow> byte list" where
  "body_bytes (Connect sid target) = 0x01 # be32 sid @ str_field target"
| "body_bytes (ConnectOk sid) = 0x02 # be32 sid"
| "body_bytes (ConnectErr sid error) = 0x03 # be32 sid @ str_field error"
| "body_bytes (Data sid payload) = 0x10 # be32 sid @ payload_field payload"
| "body_bytes (Close sid) = 0x20 # be32 sid"
| "body_bytes (Reset sid) = 0x21 # be32 sid"
| "body_bytes (WindowUpdate sid bytes) = 0x22 # be32 sid @ be32 bytes"
| "body_bytes (Auth token) = 0x40 # str_field token"

lemma error_cut_length:
  "length (take (floor_char_boundary e MAX_CONNECT_ERR_LEN) e) \<le> MAX_CONNECT_ERR_LEN"
  using floor_char_boundary_le [of e MAX_CONNECT_ERR_LEN] by simp

lemma wire_form_encodable [simp]: "encodable (wire_form m) = encodable m"
  by (cases m) auto

lemma wire_form_wf [simp]: "wf_message m \<Longrightarrow> wf_message (wire_form m)"
  by (cases m) (auto simp: floor_char_boundary_valid)

lemma put_str_ok: "mn \<le> length s \<Longrightarrow> length s \<le> mx \<Longrightarrow> put_str buf s mn mx = Inr (buf @ str_field s)"
  by (simp add: put_str_def str_field_def)

lemma put_str_is_ok: "is_ok (put_str buf s mn mx) \<longleftrightarrow> mn \<le> length s \<and> length s \<le> mx"
  by (simp add: put_str_def)

lemma encode_into_eq: "encodable m \<Longrightarrow> encode_into m buf = Inr (buf @ body_bytes (wire_form m))"
  using error_cut_length
  by (cases m) (auto simp: encode_into_def put_str_ok payload_field_def)

lemma encode_into_is_ok: "is_ok (encode_into m buf) \<longleftrightarrow> encodable m"
  using error_cut_length
  by (cases m) (auto simp: encode_into_def put_str_is_ok Let_def)

lemma encode_into_Inr:
  "encode_into m buf = Inr b \<longleftrightarrow> encodable m \<and> b = buf @ body_bytes (wire_form m)"
  using encode_into_eq encode_into_is_ok by (metis is_ok_simps(2) sum.inject(2))

lemma encode_Inr: "encode m = Inr b \<longleftrightarrow> encodable m \<and> b = body_bytes (wire_form m)"
  by (simp add: encode_def encode_into_Inr)

lemma type_of_byte_Inr: "type_of_byte v = Inr t \<longleftrightarrow> v = type_byte t"
  by (cases t) (auto simp: type_of_byte_def)

lemma type_of_byte_type_byte [simp]: "type_of_byte (type_byte t) = Inr t"
  by (simp add: type_of_byte_Inr)

text \<open>The field of \<open>ConnectErr\<close> is already within its limit when it comes off the wire.\<close>

lemma wire_form_decoded: "str_fits 0 MAX_CONNECT_ERR_LEN e \<Longrightarrow> wire_form (ConnectErr sid e) = ConnectErr sid e"
  by (simp add: str_fits_def floor_char_boundary_id)

text \<open>Decoding is the inverse of \<open>body_bytes\<close> on the messages the encoder can write.\<close>

definition on_wire :: "message \<Rightarrow> bool" where
  "on_wire m \<longleftrightarrow> wf_message m \<and> encodable m \<and> wire_form m = m"

lemma le_floor_iff: "length e \<le> floor_char_boundary e n \<longleftrightarrow> length e \<le> n"
  by (metis floor_char_boundary_id floor_char_boundary_le le_trans order_refl)

lemma wire_form_idem [simp]: "wire_form (wire_form m) = wire_form m"
  by (cases m) (use error_cut_length in \<open>auto simp del: take_take simp: floor_char_boundary_id\<close>)

lemma on_wire_simps [simp]:
  "on_wire (Connect sid t) \<longleftrightarrow> str_fits 0 MAX_CONNECT_TARGET_LEN t"
  "on_wire (ConnectOk sid)"
  "on_wire (ConnectErr sid e) \<longleftrightarrow> str_fits 0 MAX_CONNECT_ERR_LEN e"
  "on_wire (Data sid p) \<longleftrightarrow> payload_fits p"
  "on_wire (Close sid)"
  "on_wire (Reset sid)"
  "on_wire (WindowUpdate sid n)"
  "on_wire (Auth k) \<longleftrightarrow> str_fits 1 MAX_AUTH_TOKEN_LEN k"
  by (auto simp: on_wire_def str_fits_def payload_fits_def le_floor_iff)

lemma decode_body_bytes: "on_wire m \<Longrightarrow> decode (body_bytes m) = Inr m"
proof (cases m)
qed (simp_all add: decode_def type_of_byte_def u32_field.get_put target_field.get_put
    error_field.get_put token_field.get_put payload_field.get_put
    u32_field.get_put [of _ "[]", simplified] target_field.get_put [of _ "[]", simplified]
    error_field.get_put [of _ "[]", simplified] token_field.get_put [of _ "[]", simplified]
    payload_field.get_put [of _ "[]", simplified])

lemma decode_Inr: "decode b = Inr m \<longleftrightarrow> on_wire m \<and> b = body_bytes m"
proof
  assume "decode b = Inr m"
  then obtain v r t where "b = v # r" "v = type_byte t" "decode (v # r) = Inr m"
    by (auto simp: decode_def and_then_eq_Inr type_of_byte_Inr split: list.splits)
  then show "on_wire m \<and> b = body_bytes m"
    by (cases t) (auto simp: decode_def and_then_eq_Inr field_iff type_of_byte_def split: if_splits)
qed (simp add: decode_body_bytes)

interpretation message_codec: body_codec encode decode wf_message wire_form
proof unfold_locales
  show "decode b = Inr (wire_form m)" if "wf_message m" "encode m = Inr b" for m b
    using that by (auto simp: encode_Inr decode_Inr on_wire_def)
  show "wf_message m \<and> wire_form m = m \<and> encode m = Inr b" if "decode b = Inr m" for m b
    using that by (auto simp: encode_Inr decode_Inr on_wire_def)
qed

section \<open>Frames\<close>

definition frame_bytes :: "message \<Rightarrow> byte list" where
  "frame_bytes m = be32 (of_nat (length (body_bytes m))) @ body_bytes m"

definition frame_fits :: "message \<Rightarrow> bool" where
  "frame_fits m \<longleftrightarrow> on_wire m \<and> length (body_bytes m) \<le> MAX_FRAME_BODY_LEN"

fun is_data :: "message \<Rightarrow> bool" where
  "is_data (Data _ _) = True"
| "is_data _ = False"

lemma length_str_field [simp]: "length (str_field s) = length s + 2"
  by (simp add: str_field_def)

lemma length_payload_field [simp]: "length (payload_field p) = length p + 4"
  by (simp add: payload_field_def)

lemma body_bytes_pos: "1 \<le> length (body_bytes m)"
  by (cases m) auto

lemma error_cut_le: "1024 \<le> k \<Longrightarrow> min (length e) (floor_char_boundary e 1024) \<le> k"
  using floor_char_boundary_le [of e 1024] by simp

lemma body_bytes_le: "encodable m \<Longrightarrow> length (body_bytes (wire_form m)) \<le> MAX_MESSAGE_BODY_LEN"
  by (cases m) (auto simp: wire_limits error_cut_le)

lemma control_body_le:
  "encodable m \<Longrightarrow> \<not> is_data m \<Longrightarrow> length (body_bytes (wire_form m)) \<le> MAX_FRAME_BODY_LEN"
  by (cases m) (auto simp: wire_limits error_cut_le)

lemma frame_Inr: "frame m = Inr f \<longleftrightarrow> encodable m \<and> f = frame_bytes (wire_form m)"
  by (auto simp: frame_def and_then_eq_Inr encode_into_Inr frame_bytes_def)

lemma read_frame_put:
  assumes "frame_fits m"
  shows "read_frame (frame_bytes m @ r) = Inr (m, r)"
proof -
  let ?b = "body_bytes m"
  have le: "length ?b \<le> MAX_FRAME_BODY_LEN" and dec: "decode ?b = Inr m"
    using assms by (simp_all add: frame_fits_def decode_Inr)
  have len: "unat (of_nat (length ?b) :: u32) = length ?b"
    using le by (intro unat_of_nat_u32) (simp add: wire_limits)
  have "read_exact 4 (frame_bytes m @ r) = Inr (be32 (of_nat (length ?b)), ?b @ r)"
    by (simp add: read_exact_def frame_bytes_def)
  moreover have "read_exact (length ?b) (?b @ r) = Inr (?b, r)"
    by (simp add: read_exact_def)
  ultimately show ?thesis
    using le dec len body_bytes_pos [of m] u32_field.get_put [of _ "[]"]
    by (simp add: read_frame_def)
qed

lemma read_frame_Inr:
  assumes "read_frame s = Inr (m, r)"
  shows "frame_fits m \<and> s = frame_bytes m @ r"
proof -
  from assms obtain n q where n: "get_u32 (take 4 s) = Inr (n, q)" and s4: "4 \<le> length s"
    and le: "unat n \<le> MAX_FRAME_BODY_LEN" "unat n \<le> length (drop 4 s)"
    and r: "r = drop (unat n) (drop 4 s)" and dec: "decode (take (unat n) (drop 4 s)) = Inr m"
    by (auto simp: read_frame_def read_exact_def and_then_eq_Inr Let_def split: if_splits)
  have body: "on_wire m" "take (unat n) (drop 4 s) = body_bytes m"
    using dec by (simp_all add: decode_Inr)
  have len: "length (body_bytes m) = unat n"
    using body(2) le(2) by (metis length_take min.absorb2)
  have "take 4 s = be32 n @ q" using n by (simp add: u32_field.get_iff)
  moreover have "length (take 4 s) = 4" using s4 by simp
  ultimately have "take 4 s = be32 n" by simp
  then have "s = be32 n @ body_bytes m @ r"
    using body(2) r by (metis append_take_drop_id)
  then show ?thesis
    using body le len by (simp add: frame_fits_def frame_bytes_def)
qed

interpretation frame_field: field_codec frame_bytes read_frame frame_fits
  by unfold_locales (auto simp: read_frame_put dest: read_frame_Inr)

section \<open>Properties\<close>

text \<open>(C28) Every message the encoder accepts decodes to itself, except that a \<open>ConnectErr\<close> text
  over its limit comes back cut at a character boundary, and its body fits the WebSocket
  message limit.\<close>

theorem decode_encode:
  assumes "wf_message m" and "encode m = Inr b"
  shows "decode b = Inr (wire_form m) \<and> length b \<le> MAX_MESSAGE_BODY_LEN"
  using message_codec.dec_enc [OF assms] assms(2) body_bytes_le by (auto simp: encode_Inr)

theorem decode_encode_witness:
  "decode (body_bytes (Connect 7 ''http://10.0.0.1:80'')) = Inr (Connect 7 ''http://10.0.0.1:80'')"
proof -
  have "wf_message (Connect 7 ''http://10.0.0.1:80'')"
    by (simp add: is_str_def utf8_valid_ascii as_bytes_def)
  then show ?thesis
    using decode_encode [of "Connect 7 ''http://10.0.0.1:80''"
        "body_bytes (Connect 7 ''http://10.0.0.1:80'')"]
    by (simp add: encode_Inr wire_limits)
qed

text \<open>(C11) Decoding accepts nothing but encodings: a body that decodes is, byte for byte, what
  the encoder writes for the result. So two different bodies never decode to the same
  message, and no message is longer than its encoding.\<close>

theorem decode_canonical:
  assumes "decode b = Inr m"
  shows "encode m = Inr b \<and> (\<forall>c. decode c = Inr m \<longrightarrow> c = b)"
  using message_codec.enc_dec [OF assms] message_codec.dec_inj [OF assms] by metis

theorem decode_canonical_witness:
  "encode (Reset 9) = Inr [0x21, 0, 0, 0, 9]"
  using decode_canonical [of "[0x21, 0, 0, 0, 9]" "Reset 9"]
  by (simp add: decode_Inr be32_def)

text \<open>What the decoder returns is a message as Rust has it and within every limit of the protocol,
  whatever the bytes: its strings are UTF-8, a target has at most 2048 bytes, an error 1024, a token 1 to 512,
  a payload 128 KiB.\<close>

theorem decode_typed:
  assumes "decode b = Inr m"
  shows "wf_message m \<and> (case m of Connect _ t \<Rightarrow> is_str t \<and> length t \<le> 2048
    | ConnectErr _ e \<Rightarrow> is_str e \<and> length e \<le> 1024
    | Auth k \<Rightarrow> is_str k \<and> 1 \<le> length k \<and> length k \<le> 512
    | Data _ p \<Rightarrow> length p \<le> 131072
    | _ \<Rightarrow> True)"
proof -
  have "on_wire m" using assms decode_Inr by blast
  then show ?thesis by (cases m) (auto simp: on_wire_def str_fits_def payload_fits_def wire_limits le_floor_iff)
qed

theorem decode_typed_witness: "decode [0x21, 0, 0, 0, 9] = Inr (Reset 9) \<and> wf_message (Reset 9)"
proof -
  have "decode [0x21, 0, 0, 0, 9] = Inr (Reset 9)" by (simp add: decode_Inr be32_def)
  then show ?thesis using decode_typed by blast
qed

text \<open>The encoder refuses exactly the messages outside the protocol's limits: a \<open>Connect\<close>
  target over 2048 bytes, an empty or over-long token, a payload over 128 KiB. Over-long
  \<open>ConnectErr\<close> texts are never refused.\<close>

theorem encode_refuses:
  "is_ok (encode m) \<longleftrightarrow>
     (case m of Connect _ t \<Rightarrow> length t \<le> 2048
      | Auth k \<Rightarrow> 1 \<le> length k \<and> length k \<le> 512
      | Data _ p \<Rightarrow> length p \<le> 131072
      | _ \<Rightarrow> True)"
  by (cases m) (auto simp: encode_def encode_into_is_ok wire_limits)

text \<open>A framed control message is read back from the head of a QUIC stream and nothing after
  it is touched, whatever follows. Every control message the encoder accepts fits the frame
  limit, so \<open>read_frame\<close> never refuses one.\<close>

theorem read_frame_frame:
  assumes "wf_message m" and "encodable m" and "\<not> is_data m"
  shows "\<exists>f. frame m = Inr f \<and> (\<forall>r. read_frame (f @ r) = Inr (wire_form m, r))"
proof -
  have "frame_fits (wire_form m)"
    using assms control_body_le by (simp add: frame_fits_def on_wire_def)
  then show ?thesis
    using assms(2) frame_field.get_put by (auto simp: frame_Inr)
qed

theorem read_frame_frame_witness:
  "\<forall>r. read_frame ([0, 0, 0, 5, 0x21, 0, 0, 0, 9] @ r) = Inr (Reset 9, r)"
  using read_frame_frame [of "Reset 9"] by (simp add: frame_Inr frame_bytes_def be32_def)

text \<open>The \<open>Debug\<close> rendering of a message, which reaches logs, is the same for every bearer
  token, and for every payload of the same length.\<close>

lemma debug_redacts:
  "debug_message dbg (Auth k) = debug_message dbg (Auth k')"
  "length p = length p' \<Longrightarrow> debug_message dbg (Data sid p) = debug_message dbg (Data sid p')"
  by simp_all

end
