(* ===== verification/Traces.thy ===== *)
theory Traces
  imports Main
begin

text \<open>
  Runs of a labelled step relation, and the contracts the components with concurrent
  callers are proved against: an invariant every step keeps, a budget, a level that no
  step raises by more than its label pays in, and the origin of a condition.
\<close>

inductive run :: "('s \<Rightarrow> 'l \<Rightarrow> 's \<Rightarrow> bool) \<Rightarrow> 's \<Rightarrow> 'l list \<Rightarrow> 's \<Rightarrow> bool"
  for step :: "'s \<Rightarrow> 'l \<Rightarrow> 's \<Rightarrow> bool" where
  run_Nil [intro!]: "run step s [] s"
| run_snoc: "run step s tr s' \<Longrightarrow> step s' l s'' \<Longrightarrow> run step s (tr @ [l]) s''"

inductive_cases run_NilE [elim!]: "run step s [] s'"

lemma run_single: "step s l s' \<Longrightarrow> run step s [l] s'"
  using run_snoc [OF run_Nil] by fastforce

lemma run_append: "run step s' tr' s'' \<Longrightarrow> run step s tr s' \<Longrightarrow> run step s (tr @ tr') s''"
proof (induction rule: run.induct)
  case (run_snoc s' tr' s1 l s2)
  then show ?case using run.run_snoc [of step s "tr @ tr'" s1 l s2] by simp
qed simp

lemma run_Cons: "step s l s' \<Longrightarrow> run step s' tr s'' \<Longrightarrow> run step s (l # tr) s''"
  using run_append [OF _ run_single, of step s' tr s'' s l] by simp

locale step_invariant =
  fixes step :: "'s \<Rightarrow> 'l \<Rightarrow> 's \<Rightarrow> bool"
    and inv :: "'s \<Rightarrow> bool"
  assumes step_inv: "inv s \<Longrightarrow> step s l s' \<Longrightarrow> inv s'"
begin

lemma run_inv: "run step s tr s' \<Longrightarrow> inv s \<Longrightarrow> inv s'"
  by (induction rule: run.induct) (auto intro: step_inv)

end

locale step_budget = step_invariant +
  fixes level :: "'s \<Rightarrow> int"
    and gain :: "'l \<Rightarrow> int"
  assumes step_level: "inv s \<Longrightarrow> step s l s' \<Longrightarrow> level s' \<le> level s + gain l"
begin

lemma run_level: "run step s tr s' \<Longrightarrow> inv s \<Longrightarrow> level s' \<le> level s + sum_list (map gain tr)"
proof (induction rule: run.induct)
  case (run_snoc s tr s1 l s2)
  then show ?case using step_level [OF run_inv [OF run_snoc.hyps(1)] run_snoc.hyps(2)] by simp
qed simp

end

text \<open>A condition that only certain steps bring about, and that certain others end: when it holds, one of the
  former was taken, and none of the latter since.\<close>

locale step_origin =
  fixes step :: "'s \<Rightarrow> 'l \<Rightarrow> 's \<Rightarrow> bool"
    and holds :: "'s \<Rightarrow> bool"
    and origin :: "'s \<Rightarrow> 'l \<Rightarrow> bool"
    and ends :: "'l \<Rightarrow> bool"
  assumes step_origin: "step s l s' \<Longrightarrow> holds s' \<Longrightarrow> holds s \<or> origin s l"
    and step_ends: "step s l s' \<Longrightarrow> ends l \<Longrightarrow> \<not> holds s'"
begin

lemma run_origin: "run step s tr s' \<Longrightarrow> \<not> holds s \<Longrightarrow> holds s' \<Longrightarrow>
    \<exists>tr1 l tr2 s1. tr = tr1 @ l # tr2 \<and> run step s tr1 s1 \<and> origin s1 l \<and> (\<forall>l' \<in> set tr2. \<not> ends l')"
proof (induction rule: run.induct)
  case (run_snoc s tr s1 l s2)
  show ?case
  proof (cases "holds s1")
    case True
    obtain tr1 k tr2 s0 where ih: "tr = tr1 @ k # tr2" "run step s tr1 s0" "origin s0 k" "\<forall>l' \<in> set tr2. \<not> ends l'"
      using run_snoc.IH [OF run_snoc.prems(1) True] by (elim exE conjE)
    moreover have "\<not> ends l" using step_ends [OF run_snoc.hyps(2)] run_snoc.prems(2) by blast
    ultimately have "tr @ [l] = tr1 @ k # (tr2 @ [l])" "\<forall>l' \<in> set (tr2 @ [l]). \<not> ends l'" by auto
    then show ?thesis using ih(2,3) by (intro exI conjI)
  next
    case False
    then have "origin s1 l" using step_origin [OF run_snoc.hyps(2) run_snoc.prems(2)] by simp
    then show ?thesis using run_snoc.hyps(1) by (intro exI [of _ tr] exI [of _ l] exI [of _ "[]"] exI [of _ s1]) simp
  qed
qed simp

end

end
