(* ===== verification/Send_Credit.thy ===== *)
theory Send_Credit
  imports Prelude Traces
begin

text \<open>
  \<open>SendCredit\<close> of \<open>crates/proto/src/lib.rs\<close>: the per-stream send credit of the WebSocket mux.
  The atomic operations are functions on the state; \<open>acquire\<close> is a small state machine with
  one transition per atomic access, and \<open>add\<close> and \<open>close\<close> are an update followed by a separate
  notification, so that every interleaving of their accesses is a run of \<open>credit_step\<close>.
\<close>

section \<open>The state and its atomic updates\<close>

text \<open>\<open>bytes as i64\<close>, wrap-around included, and \<open>i64::saturating_add\<close>.\<close>

definition as_i64 :: "nat \<Rightarrow> int" where
  "as_i64 n = signed_take_bit 63 (int n)"

definition i64_max :: int where
  "i64_max = 2 ^ 63 - 1"

definition i64_min :: int where
  "i64_min = - (2 ^ 63)"

definition i64_saturating_add :: "int \<Rightarrow> int \<Rightarrow> int" where
  "i64_saturating_add a b = max i64_min (min i64_max (a + b))"

definition i64_sub :: "int \<Rightarrow> int \<Rightarrow> int" where
  "i64_sub a b = signed_take_bit 63 (a - b)"

text \<open>Where a caller of \<open>acquire\<close> stands in the loop: loading \<open>closed\<close>, taking the credit,
  registering with \<open>Notify\<close>, loading \<open>closed\<close> and \<open>credit\<close> again, waiting, returned.\<close>

datatype acquire_pc = Check | Take | Register | Recheck_closed | Recheck_credit | Parked
  | Returned bool

text \<open>\<open>woken\<close> is set when \<open>notify_waiters\<close> runs while the caller's \<open>Notified\<close> is enabled.\<close>

record acquirer =
  need :: int
  acq_pc :: acquire_pc
  woken :: bool

record send_credit =
  credit :: int
  max_credit :: int
  credit_closed :: bool
  notifying :: nat
  acquirers :: "nat \<Rightarrow> acquirer option"

definition send_credit_new :: "nat \<Rightarrow> send_credit" where
  "send_credit_new initial = \<lparr>credit = as_i64 initial, max_credit = as_i64 initial, credit_closed = False,
     notifying = 0, acquirers = (\<lambda>_. None)\<rparr>"

definition credit_added :: "int \<Rightarrow> int \<Rightarrow> int \<Rightarrow> int option" where
  "credit_added mx bytes cur =
     (let next = min (i64_saturating_add cur bytes) mx in if cur < next then Some next else None)"

definition credit_taken :: "int \<Rightarrow> int \<Rightarrow> int option" where
  "credit_taken n cur = (if n \<le> cur then Some (i64_sub cur n) else None)"

definition registered :: "acquirer \<Rightarrow> bool" where
  "registered a \<longleftrightarrow> acq_pc a \<in> {Recheck_closed, Recheck_credit, Parked}"

definition notify_waiters :: "send_credit \<Rightarrow> send_credit" where
  "notify_waiters s = s\<lparr>acquirers := (\<lambda>t. map_option
     (\<lambda>a. if registered a then a\<lparr>woken := True\<rparr> else a) (acquirers s t))\<rparr>"

section \<open>One step of a caller of acquire\<close>

definition goto :: "nat \<Rightarrow> acquirer \<Rightarrow> acquire_pc \<Rightarrow> send_credit \<Rightarrow> send_credit" where
  "goto t a p s = s\<lparr>acquirers := (acquirers s)(t \<mapsto> a\<lparr>acq_pc := p\<rparr>)\<rparr>"

text \<open>\<open>None\<close> where the caller cannot move: it waits un-notified, or has returned.\<close>

definition acquire_next :: "nat \<Rightarrow> acquirer \<Rightarrow> send_credit \<Rightarrow> send_credit option" where
  "acquire_next t a s = (case acq_pc a of
       Check \<Rightarrow> Some (goto t a (if credit_closed s then Returned False else Take) s)
     | Take \<Rightarrow> (case credit_taken (need a) (credit s) of
           Some c \<Rightarrow> Some (goto t a (Returned True) (s\<lparr>credit := c\<rparr>))
         | None \<Rightarrow> Some (goto t a Register s))
     | Register \<Rightarrow> Some (goto t (a\<lparr>woken := False\<rparr>) Recheck_closed s)
     | Recheck_closed \<Rightarrow> Some (goto t a (if credit_closed s then Check else Recheck_credit) s)
     | Recheck_credit \<Rightarrow> Some (goto t a (if credit s < need a then Parked else Check) s)
     | Parked \<Rightarrow> (if woken a then Some (goto t a Check s) else None)
     | Returned _ \<Rightarrow> None)"

section \<open>Interleavings\<close>

datatype credit_event =
    Call nat nat          \<comment> \<open>caller t calls \<open>acquire(bytes)\<close>\<close>
  | Move nat int          \<comment> \<open>caller t performs its next access, reserving that much\<close>
  | Add nat               \<comment> \<open>the update of \<open>add(bytes)\<close>\<close>
  | Store_closed          \<comment> \<open>the store of \<open>close()\<close>\<close>
  | Notify                \<comment> \<open>the \<open>notify_waiters\<close> of an \<open>add\<close> or \<open>close\<close>\<close>

definition reserved :: "nat \<Rightarrow> send_credit \<Rightarrow> int" where
  "reserved t s = (case acquirers s t of
     Some a \<Rightarrow> if acq_pc a = Returned True then need a else 0 | None \<Rightarrow> 0)"

text \<open>A buffer holds fewer than \<open>2^63\<close> bytes, so every reservation fits an \<open>i64\<close>.\<close>

inductive credit_step :: "send_credit \<Rightarrow> credit_event \<Rightarrow> send_credit \<Rightarrow> bool" where
  call: "acquirers s t = None \<Longrightarrow> bytes < 2 ^ 63 \<Longrightarrow>
     credit_step s (Call t bytes)
       (s\<lparr>acquirers := (acquirers s)(t \<mapsto> \<lparr>need = as_i64 bytes, acq_pc = Check, woken = False\<rparr>)\<rparr>)"
| move: "acquirers s t = Some a \<Longrightarrow> acquire_next t a s = Some s' \<Longrightarrow>
     credit_step s (Move t (reserved t s')) s'"
| add: "c = (case credit_added (max_credit s) (as_i64 bytes) (credit s) of
       Some n \<Rightarrow> n | None \<Rightarrow> credit s) \<Longrightarrow>
     credit_step s (Add bytes) (s\<lparr>credit := c, notifying := notifying s + 1\<rparr>)"
| close: "credit_step s Store_closed (s\<lparr>credit_closed := True, notifying := notifying s + 1\<rparr>)"
| notify: "0 < notifying s \<Longrightarrow>
     credit_step s Notify (notify_waiters (s\<lparr>notifying := notifying s - 1\<rparr>))"

inductive_cases credit_stepE: "credit_step s e s'"

section \<open>Invariant\<close>

lemma as_i64_id [simp]: "n < 2 ^ 63 \<Longrightarrow> as_i64 n = int n"
  unfolding as_i64_def by (rule signed_take_bit_int_eq_self) auto

lemma i64_sub_id: "0 \<le> b \<Longrightarrow> b \<le> a \<Longrightarrow> a \<le> i64_max \<Longrightarrow> i64_sub a b = a - b"
  unfolding i64_sub_def by (rule signed_take_bit_int_eq_self) (auto simp: i64_max_def)

lemma as_i64_le: "as_i64 n \<le> int n"
proof -
  have "as_i64 n \<le> int n mod 2 ^ 64"
    using signed_take_bit_int_less_eq_self_iff
    by (simp add: as_i64_def signed_take_bit_eq_take_bit_minus take_bit_eq_mod)
  also have "\<dots> \<le> int n" by (simp add: zmod_le_nonneg_dividend)
  finally show ?thesis .
qed

text \<open>What a registered caller that no notification has reached knows: the part of the
  condition it has already read still holds, unless a notification is on its way.\<close>

definition settled :: "send_credit \<Rightarrow> acquirer \<Rightarrow> bool" where
  "settled s a \<longleftrightarrow>
     (acq_pc a = Recheck_credit \<longrightarrow> \<not> credit_closed s) \<and>
     (acq_pc a = Parked \<longrightarrow> \<not> credit_closed s \<and> credit s < need a)"

definition acquirer_ok :: "send_credit \<Rightarrow> acquirer \<Rightarrow> bool" where
  "acquirer_ok s a \<longleftrightarrow> 0 \<le> need a \<and> (woken a \<or> notifying s \<noteq> 0 \<or> settled s a)"

definition credit_inv :: "send_credit \<Rightarrow> bool" where
  "credit_inv s \<longleftrightarrow> 0 \<le> credit s \<and> credit s \<le> max_credit s \<and> max_credit s \<le> i64_max \<and>
     (\<forall>t a. acquirers s t = Some a \<longrightarrow> acquirer_ok s a)"

lemma credit_inv_new: "n < 2 ^ 63 \<Longrightarrow> credit_inv (send_credit_new n)"
  by (auto simp: credit_inv_def send_credit_new_def i64_max_def)

lemma credit_added_bounds:
  assumes "credit_added mx b c = Some n" and "c \<le> mx" and "0 \<le> c" and "mx \<le> i64_max"
  shows "c < n \<and> n \<le> mx \<and> n \<le> c + max 0 b"
  using assms by (auto simp: credit_added_def Let_def i64_saturating_add_def i64_min_def split: if_splits)

lemma credit_taken_bounds:
  assumes "credit_taken n c = Some c'" and "0 \<le> n" and "c \<le> i64_max"
  shows "c' = c - n \<and> 0 \<le> c'"
  using assms by (auto simp: credit_taken_def i64_sub_id split: if_splits)

lemmas ok_simps = acquirer_ok_def settled_def

text \<open>A caller's own move leaves the others as they are: it never raises the credit.\<close>

lemma goto_inv:
  assumes "credit_inv s" and "0 \<le> c" and "c \<le> credit s"
    and "acquirer_ok (s\<lparr>credit := c\<rparr>) (a\<lparr>acq_pc := p\<rparr>)"
  shows "credit_inv (goto t a p (s\<lparr>credit := c\<rparr>))"
proof -
  have "acquirer_ok (goto t a p (s\<lparr>credit := c\<rparr>)) b \<longleftrightarrow> acquirer_ok (s\<lparr>credit := c\<rparr>) b" for b
    by (simp add: ok_simps goto_def)
  moreover have "acquirer_ok (s\<lparr>credit := c\<rparr>) b" if "acquirer_ok s b" for b
    using that assms(3) by (auto simp: ok_simps)
  ultimately show ?thesis
    using assms by (simp add: credit_inv_def) (auto simp: goto_def split: if_splits)
qed

lemma goto_inv_same:
  assumes "credit_inv s" and "acquirer_ok s (a\<lparr>acq_pc := p\<rparr>)"
  shows "credit_inv (goto t a p s)"
proof -
  have "0 \<le> credit s" using assms(1) by (simp add: credit_inv_def)
  then show ?thesis using goto_inv [where s = s and c = "credit s"] assms by simp
qed

lemma acquire_next_inv:
  assumes "credit_inv s" and "acquirers s t = Some a" and "acquire_next t a s = Some s'"
  shows "credit_inv s' \<and> credit s' + reserved t s' \<le> credit s"
proof -
  have a: "acquirer_ok s a" and c: "credit s \<le> i64_max" "0 \<le> credit s"
    using assms by (auto simp: credit_inv_def)
  then have a0: "0 \<le> need a" by (simp add: acquirer_ok_def)
  have same: "credit_inv (goto t b p s) \<and> credit (goto t b p s) + reserved t (goto t b p s) \<le> credit s"
    if "acquirer_ok s (b\<lparr>acq_pc := p\<rparr>)" "p \<noteq> Returned True" for b p
    using goto_inv_same [OF assms(1) that(1)] that(2) by (simp add: reserved_def goto_def)
  show ?thesis
  proof (cases "acq_pc a = Take \<and> need a \<le> credit s")
    case True
    then have taken: "credit_taken (need a) (credit s) = Some (credit s - need a)"
      using a0 c by (simp add: credit_taken_def i64_sub_id)
    have "s' = goto t a (Returned True) (s\<lparr>credit := credit s - need a\<rparr>)"
      using assms(3) True taken by (simp add: acquire_next_def)
    moreover have "credit_inv (goto t a (Returned True) (s\<lparr>credit := credit s - need a\<rparr>))"
      using assms(1) True a0 by (intro goto_inv) (auto simp: ok_simps)
    ultimately show ?thesis by (simp add: reserved_def goto_def)
  next
    case False
    then obtain b p where "s' = goto t b p s" "acquirer_ok s (b\<lparr>acq_pc := p\<rparr>)" "p \<noteq> Returned True"
      using assms(3) a a0
      by (auto simp: acquire_next_def ok_simps credit_taken_def split: acquire_pc.splits if_splits)
    then show ?thesis using same by blast
  qed
qed

lemma notify_waiters_ok:
  assumes "acquirers (notify_waiters s) t = Some b" and "\<And>a. acquirers s t = Some a \<Longrightarrow> 0 \<le> need a"
  shows "acquirer_ok (notify_waiters s) b"
proof -
  obtain a where a: "acquirers s t = Some a" "b = (if registered a then a\<lparr>woken := True\<rparr> else a)"
    using assms(1) by (auto simp: notify_waiters_def)
  then show ?thesis
    using assms(2) [OF a(1)] by (auto simp: ok_simps registered_def)
qed

definition credit_gain :: "credit_event \<Rightarrow> int" where
  "credit_gain e = (case e of Add n \<Rightarrow> int n | Move _ k \<Rightarrow> - k | _ \<Rightarrow> 0)"

lemma credit_step_inv:
  assumes "credit_inv s" and "credit_step s e s'"
  shows "credit_inv s' \<and> credit s' \<le> credit s + credit_gain e"
  using assms(2)
proof (cases rule: credit_step.cases)
  case (add c bytes)
  have "credit s \<le> c \<and> c \<le> max_credit s \<and> c \<le> credit s + int bytes"
    using add credit_added_bounds [of "max_credit s" "as_i64 bytes" "credit s"] assms(1)
      as_i64_le [of bytes]
    by (auto simp: credit_inv_def split: option.splits)
  then show ?thesis using add assms(1) by (auto simp: credit_inv_def credit_gain_def ok_simps)
next
  case (move t a)
  then show ?thesis using acquire_next_inv [OF assms(1), of t a s'] by (simp add: credit_gain_def)
next
  case notify
  let ?s = "s\<lparr>notifying := notifying s - 1\<rparr>"
  have "acquirer_ok (notify_waiters ?s) b" if "acquirers (notify_waiters ?s) t = Some b" for t b
    using notify_waiters_ok [OF that] assms(1) by (auto simp: credit_inv_def acquirer_ok_def)
  then show ?thesis
    using assms(1) notify by (simp add: credit_inv_def credit_gain_def) (simp add: notify_waiters_def)
qed (use assms(1) in \<open>auto simp: credit_inv_def ok_simps credit_gain_def\<close>)

interpretation credit_runs: step_budget credit_step credit_inv credit credit_gain
  by unfold_locales (use credit_step_inv in blast)+

section \<open>Progress of a caller\<close>

text \<open>The moves of one caller while nothing else runs.\<close>

fun solo :: "nat \<Rightarrow> nat \<Rightarrow> send_credit \<Rightarrow> send_credit" where
  "solo t 0 s = s"
| "solo t (Suc n) s = (case acquirers s t of
     None \<Rightarrow> s
   | Some a \<Rightarrow> (case acquire_next t a s of None \<Rightarrow> s | Some s' \<Rightarrow> solo t n s'))"

lemma solo_numeral [simp]:
  "solo t (numeral k) s = (case acquirers s t of
     None \<Rightarrow> s
   | Some a \<Rightarrow> (case acquire_next t a s of None \<Rightarrow> s | Some s' \<Rightarrow> solo t (pred_numeral k) s'))"
  by (simp add: numeral_eq_Suc)

definition pc_of :: "send_credit \<Rightarrow> nat \<Rightarrow> acquire_pc option" where
  "pc_of s t = map_option acq_pc (acquirers s t)"

lemma goto_sel [simp]:
  "acquirers (goto t a p s) t = Some (a\<lparr>acq_pc := p\<rparr>)"
  "credit (goto t a p s) = credit s"
  "credit_closed (goto t a p s) = credit_closed s"
  "notifying (goto t a p s) = notifying s"
  by (simp_all add: goto_def)

lemma solo_run: "\<exists>tr. run credit_step s tr (solo t n s)"
proof (induction n arbitrary: s)
  case (Suc n)
  show ?case
  proof (cases "\<exists>a s'. acquirers s t = Some a \<and> acquire_next t a s = Some s'")
    case True
    then obtain a s' where "acquirers s t = Some a" "acquire_next t a s = Some s'" by blast
    moreover from this have "credit_step s (Move t (reserved t s')) s'" by (rule credit_step.move)
    ultimately show ?thesis
      using run_Cons [of credit_step s _ s'] Suc.IH [of s'] by fastforce
  qed (auto split: option.splits)
qed auto

text \<open>Callers that have not passed the \<open>closed\<close> load of their current round.\<close>

definition before_take :: "send_credit \<Rightarrow> nat \<Rightarrow> bool" where
  "before_take s t \<longleftrightarrow> pc_of s t \<notin> {Some Take, Some (Returned True)}"

lemma closed_before_take_step:
  assumes "credit_step s e s'" and "credit_closed s \<and> before_take s t"
  shows "credit_closed s' \<and> before_take s' t"
  using assms
proof (cases rule: credit_step.cases)
  case (move t' a)
  then show ?thesis
    using assms(2)
    by (cases "t' = t") (auto simp: before_take_def pc_of_def acquire_next_def goto_def
        split: acquire_pc.splits option.splits if_splits)
next
  case notify
  have "pc_of (notify_waiters s) t = pc_of s t" for s
    by (cases "acquirers s t") (auto simp: pc_of_def notify_waiters_def)
  then show ?thesis using notify assms(2) by (simp add: before_take_def notify_waiters_def pc_of_def)
qed (auto simp: before_take_def pc_of_def)

interpretation closed_runs: step_invariant credit_step "\<lambda>s. credit_closed s \<and> before_take s t"
  by unfold_locales (rule closed_before_take_step)

text \<open>A fresh credit of \<open>w\<close> on which caller 1 has just called \<open>acquire(n)\<close>.\<close>

definition called :: "nat \<Rightarrow> nat \<Rightarrow> send_credit" where
  "called w n = (send_credit_new w)\<lparr>acquirers :=
     [1 \<mapsto> \<lparr>need = as_i64 n, acq_pc = Check, woken = False\<rparr>]\<rparr>"

lemma called_run1: "n < 2 ^ 63 \<Longrightarrow> run credit_step (send_credit_new w) [Call 1 n] (called w n)"
  using credit_step.call [of "send_credit_new w" 1 n]
  by (intro run_single) (simp add: called_def send_credit_new_def)

lemma called_run: "n < 2 ^ 63 \<Longrightarrow> \<exists>tr. run credit_step (send_credit_new w) tr (solo 1 k (called w n))"
  using solo_run [of "called w n" 1 k] run_append [OF _ called_run1] by blast

lemmas called_eval = called_def send_credit_new_def acquire_next_def credit_taken_def

section \<open>Properties\<close>

text \<open>(C27) Whatever the interleaving of senders, grants and closes, the credit stays between zero
  and the initial window, and the bytes reserved so far never exceed the initial window plus
  the bytes granted, oversized grants included.\<close>

theorem credit_never_overcommitted:
  assumes "initial < 2 ^ 63" and "run credit_step (send_credit_new initial) tr s"
  shows "0 \<le> credit s \<and> credit s \<le> max_credit s \<and>
    credit s + sum_list (map (\<lambda>e. case e of Move _ k \<Rightarrow> k | _ \<Rightarrow> 0) tr)
      \<le> int initial + sum_list (map (\<lambda>e. case e of Add n \<Rightarrow> int n | _ \<Rightarrow> 0) tr)"
proof -
  have "sum_list (map credit_gain es) = sum_list (map (\<lambda>e. case e of Add n \<Rightarrow> int n | _ \<Rightarrow> 0) es)
      - sum_list (map (\<lambda>e. case e of Move _ k \<Rightarrow> k | _ \<Rightarrow> 0) es)" for es
    by (induction es) (auto simp: credit_gain_def split: credit_event.splits)
  then show ?thesis
    using credit_runs.run_inv [OF assms(2)] credit_runs.run_level [OF assms(2)]
      credit_inv_new [OF assms(1)] assms(1)
    by (simp add: credit_inv_def send_credit_new_def)
qed

theorem credit_never_overcommitted_witness:
  "run credit_step (send_credit_new 9) [Call 1 5] (called 9 5) \<and> credit (called 9 5) \<le> 9"
  using credit_never_overcommitted [of 9 "[Call 1 5]" "called 9 5"] called_run1 [of 5 9]
  by simp

text \<open>(C8) No wake-up is lost: once every \<open>add\<close> and \<open>close\<close> has finished its notification, a caller
  that is parked and not yet woken really lacks credit on an open stream.\<close>

theorem no_lost_wakeup:
  assumes "initial < 2 ^ 63" and "run credit_step (send_credit_new initial) tr s"
    and "notifying s = 0" and "acquirers s t = Some a" and "acq_pc a = Parked" and "\<not> woken a"
  shows "\<not> credit_closed s \<and> credit s < need a"
  using credit_runs.run_inv [OF assms(2) credit_inv_new [OF assms(1)]] assms(3-)
  by (auto simp: credit_inv_def ok_simps)

theorem no_lost_wakeup_witness:
  "credit (solo 1 5 (called 3 5)) = 3 \<and> pc_of (solo 1 5 (called 3 5)) 1 = Some Parked \<and>
   \<not> credit_closed (solo 1 5 (called 3 5))"
proof -
  obtain tr where "run credit_step (send_credit_new 3) tr (solo 1 5 (called 3 5))"
    using called_run [of 5 3 5] by auto
  then show ?thesis
    using no_lost_wakeup [of 3 tr "solo 1 5 (called 3 5)" 1] by (simp add: called_eval pc_of_def)
qed

text \<open>After \<open>close\<close>, an \<open>acquire\<close> that starts, or is anywhere but between its load of
  \<open>closed\<close> and its update of the credit, never reserves anything again.\<close>

theorem closed_acquire_never_reserves:
  assumes "run credit_step s tr s'" and "credit_closed s" and "before_take s t"
  shows "credit_closed s' \<and> pc_of s' t \<noteq> Some (Returned True)"
  using closed_runs.run_inv [OF assms(1)] assms(2,3) by (auto simp: before_take_def)

theorem closed_acquire_never_reserves_witness:
  "pc_of (solo 1 6 (called 9 5\<lparr>credit_closed := True\<rparr>)) 1 \<noteq> Some (Returned True)"
proof -
  let ?s = "called 9 5\<lparr>credit_closed := True\<rparr>"
  obtain tr where "run credit_step ?s tr (solo 1 6 ?s)" using solo_run by blast
  moreover have "before_take ?s 1" by (simp add: before_take_def pc_of_def called_def)
  ultimately show ?thesis using closed_acquire_never_reserves [of ?s tr "solo 1 6 ?s" 1] by simp
qed

text \<open>A caller never leaks: in every reachable state with no notification outstanding, if the
  stream is closed or the credit covers the request, the caller's own next six accesses bring
  it to its return, with \<open>false\<close> when it reads the closed flag and \<open>true\<close> when the stream is open.\<close>

theorem acquire_returns:
  assumes "initial < 2 ^ 63" and "run credit_step (send_credit_new initial) tr s"
    and "notifying s = 0" and "acquirers s t = Some a" and "acq_pc a \<noteq> Returned False"
    and "credit_closed s \<or> need a \<le> credit s"
  shows "(\<exists>tr'. run credit_step s tr' (solo t 6 s)) \<and>
    pc_of (solo t 6 s) t = Some (Returned
      (\<not> credit_closed s \<or> acq_pc a = Returned True \<or> acq_pc a = Take \<and> need a \<le> credit s))"
proof -
  have "acquirer_ok s a"
    using credit_runs.run_inv [OF assms(2) credit_inv_new [OF assms(1)]] assms(4)
    by (simp add: credit_inv_def)
  then show ?thesis
    using assms(3-) solo_run [of s t 6]
    by (cases "acq_pc a")
      (auto simp: acquire_next_def pc_of_def ok_simps credit_taken_def)
qed

theorem acquire_returns_witness:
  "pc_of (solo 1 6 (called 9 5)) 1 = Some (Returned True)"
  using acquire_returns [of 9 "[Call 1 5]" "called 9 5" 1
      "\<lparr>need = 5, acq_pc = Check, woken = False\<rparr>"] called_run1 [of 5 9]
  by (simp add: called_def send_credit_new_def)

end
