(* ===== verification/Obfs.thy ===== *)
theory Obfs
  imports Prelude
begin

text \<open>
  The UDP obfuscation layer of \<open>crates/proto/src/obfs.rs\<close>. The ChaCha8 keystream is the
  parameter \<open>cipher\<close>: \<open>cipher secret iv data\<close> is \<open>apply_keystream\<close> of a fresh cipher on the
  data. The random IVs are the parameter \<open>rng\<close>, its \<open>i\<close>-th value the \<open>i\<close>-th draw of a call.
  Out-of-range slices panic in Rust: \<open>None\<close>.
\<close>

unbundle bit_operations_syntax

section \<open>Sending\<close>

definition IV_LEN :: nat where
  "IV_LEN = 12"

definition MTU_DISCOVERY_UPPER_BOUND :: nat where
  "MTU_DISCOVERY_UPPER_BOUND = 1452 - IV_LEN"

type_synonym cipher = "byte list \<Rightarrow> byte list \<Rightarrow> byte list \<Rightarrow> byte list"

record ('d, 'e, 'i) transmit =
  destination :: 'd
  ecn :: 'e
  contents :: "byte list"
  segment_size :: "nat option"
  src_ip :: 'i

definition effective_segment_size :: "('d, 'e, 'i) transmit \<Rightarrow> nat" where
  "effective_segment_size t =
     (case segment_size t of
        Some n \<Rightarrow> if 0 < n \<and> n < length (contents t) then n
                     else max (length (contents t)) 1
      | None \<Rightarrow> max (length (contents t)) 1)"

text \<open>\<open>slice::chunks\<close>.\<close>

function chunks :: "nat \<Rightarrow> 'a list \<Rightarrow> 'a list list" where
  "chunks n xs = (if xs = [] \<or> n = 0 then [] else take n xs # chunks n (drop n xs))"
  by pat_completeness auto
termination by (relation "measure (\<lambda>(n, xs). length xs)") auto

declare chunks.simps [simp del]

fun encode_chunks :: "cipher \<Rightarrow> byte list \<Rightarrow> (nat \<Rightarrow> byte list) \<Rightarrow> nat \<Rightarrow> byte list list \<Rightarrow> byte list" where
  "encode_chunks cipher secret rng i [] = []"
| "encode_chunks cipher secret rng i (chunk # rest) =
     (let iv = rng i in iv @ cipher secret iv chunk @ encode_chunks cipher secret rng (i + 1) rest)"

definition div_ceil :: "nat \<Rightarrow> nat \<Rightarrow> nat" where
  "div_ceil a b = a div b + (if a mod b = 0 then 0 else 1)"

definition encode_transmit ::
  "cipher \<Rightarrow> byte list \<Rightarrow> (nat \<Rightarrow> byte list) \<Rightarrow> ('d, 'e, 'i) transmit \<Rightarrow> ('d, 'e, 'i) transmit" where
  "encode_transmit cipher secret rng t =
     (let seg_size = effective_segment_size t;
          segment_count = div_ceil (length (contents t)) seg_size;
          out = encode_chunks cipher secret rng 0 (chunks seg_size (contents t))
      in \<lparr>destination = destination t, ecn = ecn t, contents = out,
          segment_size = (if 1 < segment_count then Some (seg_size + IV_LEN) else None),
          src_ip = src_ip t\<rparr>)"

section \<open>Receiving\<close>

record 'r recv_meta =
  meta_len :: nat
  meta_stride :: nat
  meta_rest :: 'r

text \<open>\<open>slice::copy_within(from..to, dest)\<close> and overwriting a slice, both in range.\<close>

definition overwrite :: "nat \<Rightarrow> 'a list \<Rightarrow> 'a list \<Rightarrow> 'a list" where
  "overwrite at ys xs = take at xs @ ys @ drop (at + length ys) xs"

definition copy_within :: "nat \<Rightarrow> nat \<Rightarrow> nat \<Rightarrow> 'a list \<Rightarrow> 'a list" where
  "copy_within from to dest xs = overwrite dest (take (to - from) (drop from xs)) xs"

definition too_small :: "string \<Rightarrow> io_error" where
  "too_small what = (InvalidData, Msg (''obfuscated datagram '' @ what @ ''is too small''))"

text \<open>The loop of \<open>decrypt_meta_payload\<close>, with its two offsets; the buffer is changed in place,
  also by a call that fails later.\<close>

function decrypt_segments ::
  "cipher \<Rightarrow> byte list \<Rightarrow> nat \<Rightarrow> nat \<Rightarrow> byte list \<Rightarrow> nat \<Rightarrow> nat \<Rightarrow> (byte list \<times> nat io_result) option" where
  "decrypt_segments cipher secret enc_len enc_stride buf write_offset segment_start =
     (if segment_start < enc_len then
        let segment_end = min (segment_start + enc_stride) enc_len;
            segment_len = segment_end - segment_start
        in if segment_len \<le> IV_LEN then Some (buf, Inl (too_small ''segment ''))
           else if length buf < segment_end then None
           else let iv = take IV_LEN (drop segment_start buf);
                    payload_len = segment_len - IV_LEN;
                    buf1 = copy_within (segment_start + IV_LEN) segment_end write_offset buf;
                    payload = take payload_len (drop write_offset buf1);
                    buf2 = overwrite write_offset (cipher secret iv payload) buf1
                in decrypt_segments cipher secret enc_len enc_stride buf2
                     (write_offset + payload_len) (segment_start + enc_stride)
      else Some (buf, Inr write_offset))"
  by pat_completeness auto
termination
  by (relation "measure (\<lambda>(_, _, enc_len, _, _, _, segment_start). enc_len - segment_start)")
    (auto simp: IV_LEN_def)

declare decrypt_segments.simps [simp del]

definition decrypt_meta_payload ::
  "cipher \<Rightarrow> byte list \<Rightarrow> byte list \<Rightarrow> 'r recv_meta \<Rightarrow> (byte list \<times> 'r recv_meta io_result) option" where
  "decrypt_meta_payload cipher secret buf m =
     (if meta_len m = 0 \<or> meta_stride m \<le> IV_LEN then Some (buf, Inl (too_small []))
      else map_option (\<lambda>(buf', r). (buf', and_then r (\<lambda>write_offset.
             Inr (m\<lparr>meta_len := write_offset, meta_stride := meta_stride m - IV_LEN\<rparr>))))
           (decrypt_segments cipher secret (meta_len m) (meta_stride m) buf 0 0))"

text \<open>The compaction loop of \<open>poll_recv\<close> over the packets of one batch: the accepted packets are
  swapped to the front and their metadata copied out.\<close>

definition swap :: "nat \<Rightarrow> nat \<Rightarrow> 'a list \<Rightarrow> 'a list" where
  "swap i j xs = xs[i := xs ! j, j := xs ! i]"

fun accept_batch :: "cipher \<Rightarrow> byte list \<Rightarrow> nat list \<Rightarrow> byte list list \<Rightarrow> 'r recv_meta list
    \<Rightarrow> 'r recv_meta list \<Rightarrow> nat \<Rightarrow> (byte list list \<times> 'r recv_meta list \<times> nat) option" where
  "accept_batch cipher secret [] bufs udp_meta metas valid_count = Some (bufs, metas, valid_count)"
| "accept_batch cipher secret (index # rest) bufs udp_meta metas valid_count =
     (case decrypt_meta_payload cipher secret (bufs ! index) (udp_meta ! index) of
        None \<Rightarrow> None
      | Some (buf, Inl _) \<Rightarrow>
          accept_batch cipher secret rest (bufs[index := buf]) udp_meta metas valid_count
      | Some (buf, Inr m) \<Rightarrow>
          let bufs1 = swap valid_count index (bufs[index := buf]);
              udp_meta1 = swap valid_count index (udp_meta[index := m])
          in accept_batch cipher secret rest bufs1 udp_meta1
               (metas[valid_count := udp_meta1 ! valid_count]) (valid_count + 1))"

text \<open>What the socket does at each turn of the receive loop: not ready, a readiness error, ready
  but the read would block, or a batch of packets in the first buffers.\<close>

datatype 'r socket_turn =
    Not_ready
  | Ready_error io_error
  | Would_block
  | Batch "(byte list \<times> 'r recv_meta) list"

datatype 'a poll = Pending | Ready 'a

text \<open>\<open>poll_recv\<close> over the turns the socket takes during the call: \<open>None\<close> is a panic, or a socket
  that never stops reporting readiness and then blocking.\<close>

fun poll_recv :: "cipher \<Rightarrow> byte list \<Rightarrow> nat \<Rightarrow> 'r socket_turn list \<Rightarrow> byte list list \<Rightarrow> 'r recv_meta list
    \<Rightarrow> (byte list list \<times> 'r recv_meta list \<times> nat io_result poll) option" where
  "poll_recv cipher secret batch_size turns bufs metas =
     (let max_packets = min (min (length bufs) (length metas)) batch_size
      in if max_packets = 0 then Some (bufs, metas, Ready (Inr 0))
         else case dropWhile (\<lambda>t. t = Would_block) turns of
           [] \<Rightarrow> None
         | Not_ready # _ \<Rightarrow> Some (bufs, metas, Pending)
         | Ready_error e # _ \<Rightarrow> Some (bufs, metas, Ready (Inl e))
         | Would_block # _ \<Rightarrow> None
         | Batch packets # _ \<Rightarrow>
             let received = take max_packets packets;
                 bufs1 = map fst received @ drop (length received) bufs
             in map_option (\<lambda>(bufs2, metas2, valid_count).
                    (bufs2, metas2, if 0 < valid_count then Ready (Inr valid_count) else Pending))
                  (accept_batch cipher secret [0..<length received] bufs1 (map snd received) metas 0))"

section \<open>Chunks\<close>

text \<open>What the code relies on of the cipher: applying the keystream keeps the length, and applying
  it twice from the start gives the data back.\<close>

definition stream_cipher :: "cipher \<Rightarrow> bool" where
  "stream_cipher cipher \<longleftrightarrow> (\<forall>secret iv d. length (cipher secret iv d) = length d \<and>
     cipher secret iv (cipher secret iv d) = d)"

lemma stream_cipherD [simp]:
  "stream_cipher cipher \<Longrightarrow> length (cipher secret iv d) = length d"
  "stream_cipher cipher \<Longrightarrow> cipher secret iv (cipher secret iv d) = d"
  by (simp_all add: stream_cipher_def)

lemma chunks_Nil [simp]: "chunks n [] = []"
  by (simp add: chunks.simps)

lemma chunks_step: "xs \<noteq> [] \<Longrightarrow> 0 < n \<Longrightarrow> chunks n xs = take n xs # chunks n (drop n xs)"
  by (simp add: chunks.simps [of n xs])

lemma length_chunks: "0 < n \<Longrightarrow> length (chunks n xs) = div_ceil (length xs) n"
proof (induction n xs rule: chunks.induct)
  case (1 n xs)
  show ?case
  proof (cases "xs = []")
    case False
    then have IH: "length (chunks n (drop n xs)) = div_ceil (length xs - n) n" using 1 by simp
    have "div_ceil (length xs) n = Suc (div_ceil (length xs - n) n)"
    proof (cases "n \<le> length xs")
      case True
      then show ?thesis using 1(2) by (simp add: div_ceil_def le_div_geq le_mod_geq)
    qed (use False in \<open>simp add: div_ceil_def\<close>)
    then show ?thesis using IH False 1(2) by (simp add: chunks_step)
  qed (simp add: div_ceil_def)
qed

lemma length_encode_chunks:
  assumes "stream_cipher cipher" and "\<forall>i. length (rng i) = IV_LEN"
  shows "length (encode_chunks cipher secret rng i cs) = length (concat cs) + IV_LEN * length cs"
  using assms by (induction cs arbitrary: i) (simp_all add: Let_def)

lemma concat_chunks: "0 < n \<Longrightarrow> concat (chunks n xs) = xs"
proof (induction n xs rule: chunks.induct)
  case (1 n xs)
  then show ?case by (cases "xs = []") (simp_all add: chunks_step)
qed

section \<open>Round trip\<close>

lemma overwrite_at: "length p = n \<Longrightarrow> overwrite n ys (p @ r) = p @ ys @ drop (length ys) r"
  by (simp add: overwrite_def)

lemma decrypt_segments_unfold:
  assumes "ss < enc_len" and "min (ss + enc_stride) enc_len = ss + IV_LEN + n" and "0 < n"
    and "ss + IV_LEN + n \<le> length buf"
    and "copy_within (ss + IV_LEN) (ss + IV_LEN + n) wo buf = buf1"
    and "overwrite wo (cipher secret (take IV_LEN (drop ss buf)) (take n (drop wo buf1))) buf1 = buf2"
  shows "decrypt_segments cipher secret enc_len enc_stride buf wo ss =
    decrypt_segments cipher secret enc_len enc_stride buf2 (wo + n) (ss + enc_stride)"
  using assms by (subst decrypt_segments.simps) (simp add: Let_def)

text \<open>One turn of the loop on a buffer that holds the decrypted prefix \<open>p\<close>, a gap \<open>g\<close>, and a
  segment whose end is known.\<close>

lemma decrypt_segments_step:
  assumes cipher: "stream_cipher cipher" and iv: "length iv = IV_LEN" and c: "c \<noteq> []"
    and buf: "buf = p @ g @ iv @ cipher secret iv c @ r"
    and se: "min (length (p @ g) + enc_stride) enc_len = length (p @ g) + IV_LEN + length c"
  shows "\<exists>g1. length g1 = length g + IV_LEN \<and>
    decrypt_segments cipher secret enc_len enc_stride buf (length p) (length (p @ g)) =
    decrypt_segments cipher secret enc_len enc_stride ((p @ c) @ g1 @ r)
      (length (p @ c)) (length (p @ g) + enc_stride)"
proof -
  let ?e = "cipher secret iv c" and ?ss = "length (p @ g)"
  let ?g1 = "drop (length c) (g @ iv @ ?e)"
  have e: "length ?e = length c" using cipher by simp
  have "?ss + IV_LEN + length c \<le> enc_len" using se by linarith
  then have ss: "?ss < enc_len" using c by (cases c) auto
  have ivr: "take IV_LEN (drop ?ss buf) = iv" using buf iv by simp
  have src: "take (length c) (drop (?ss + IV_LEN) buf) = ?e" using buf iv e by simp
  have b1: "copy_within (?ss + IV_LEN) (?ss + IV_LEN + length c) (length p) buf = p @ ?e @ ?g1 @ r"
    using src e buf by (simp add: copy_within_def overwrite_at)
  have b2: "overwrite (length p) (cipher secret iv (take (length c) (drop (length p) (p @ ?e @ ?g1 @ r))))
      (p @ ?e @ ?g1 @ r) = p @ c @ ?g1 @ r"
    using cipher e by (simp add: overwrite_at)
  have "length ?g1 = length g + IV_LEN" using e iv by simp
  moreover have "?ss + IV_LEN + length c \<le> length buf" using buf iv e by simp
  ultimately show ?thesis
    using decrypt_segments_unfold [where cipher = cipher and secret = secret, OF ss se _ _ b1, unfolded ivr, OF _ _ b2] c
    by (metis append_assoc length_append length_greater_0_conv)
qed

lemma decrypt_encode_chunks:
  assumes cipher: "stream_cipher cipher" and rng: "\<forall>i. length (rng i) = IV_LEN" and n: "0 < n"
    and xs: "xs \<noteq> []"
    and "enc = encode_chunks cipher secret rng i (chunks n xs)"
    and "enc_len = length (p @ g @ enc)"
  shows "\<exists>g'. decrypt_segments cipher secret enc_len (n + IV_LEN) (p @ g @ enc @ tl1) (length p)
      (length (p @ g)) = Some ((p @ xs) @ g' @ tl1, Inr (length (p @ xs)))"
  using xs assms(5,6)
proof (induction "length xs" arbitrary: xs p g enc i rule: less_induct)
  case less
  let ?c = "take n xs" and ?xs = "drop n xs" and ?iv = "rng i"
  let ?enc = "encode_chunks cipher secret rng (i + 1) (chunks n ?xs)"
  have enc: "enc = ?iv @ cipher secret ?iv ?c @ ?enc"
    using less.prems n by (simp add: chunks_step Let_def)
  have iv: "length ?iv = IV_LEN" and e: "length (cipher secret ?iv ?c) = length ?c"
    using cipher rng by simp_all
  have tail: "?enc = []" if "?xs = []" using that by simp
  have se: "min (length (p @ g) + (n + IV_LEN)) enc_len = length (p @ g) + IV_LEN + length ?c"
    using less.prems(3) enc iv e tail by (cases "?xs = []") auto
  have c: "?c \<noteq> []" using less.prems(1) n by simp
  obtain g1 where g1: "length g1 = length g + IV_LEN"
    and step: "decrypt_segments cipher secret enc_len (n + IV_LEN) (p @ g @ enc @ tl1) (length p)
        (length (p @ g)) = decrypt_segments cipher secret enc_len (n + IV_LEN)
          ((p @ ?c) @ g1 @ ?enc @ tl1) (length (p @ ?c)) (length (p @ g) + (n + IV_LEN))"
    using decrypt_segments_step [OF cipher iv c _ se, where secret = secret and r = "?enc @ tl1"] enc
    by auto
  show ?case
  proof (cases "?xs = []")
    case True
    then have "\<not> length (p @ g) + (n + IV_LEN) < enc_len" and "?c = xs" and "?enc = []"
      using less.prems(3) enc iv e by auto
    then show ?thesis unfolding step by (subst decrypt_segments.simps) auto
  next
    case False
    then have ss: "length (p @ g) + (n + IV_LEN) = length ((p @ ?c) @ g1)" using g1 by simp
    have "enc_len = length ((p @ ?c) @ g1 @ ?enc)"
      using less.prems(3) enc iv e g1 by simp
    moreover have "length ?xs < length xs" using less.prems(1) n by (cases xs) auto
    ultimately show ?thesis
      unfolding step ss using less.hyps [of ?xs ?enc "i + 1" "p @ ?c" g1] False by simp
  qed
qed

lemma decrypt_encoded:
  assumes "stream_cipher cipher" and "\<forall>i. length (rng i) = IV_LEN" and "0 < n" and "xs \<noteq> []"
    and "meta_len m = length (encode_chunks cipher secret rng 0 (chunks n xs))"
    and "meta_stride m = n + IV_LEN"
  shows "\<exists>g'. decrypt_meta_payload cipher secret
      (encode_chunks cipher secret rng 0 (chunks n xs) @ tl1) m =
    Some (xs @ g' @ tl1, Inr (m\<lparr>meta_len := length xs, meta_stride := n\<rparr>))"
proof -
  let ?enc = "encode_chunks cipher secret rng 0 (chunks n xs)"
  have "0 < length ?enc" using assms by (simp add: length_encode_chunks concat_chunks)
  then show ?thesis
    using decrypt_encode_chunks [OF assms(1-4) refl, of _ "[]" "[]" secret 0 tl1] assms(3,5,6)
    by (fastforce simp: decrypt_meta_payload_def)
qed

lemma effective_segment_size_pos: "0 < effective_segment_size t"
  by (auto simp: effective_segment_size_def split: option.splits)

lemma segment_count_le_1:
  assumes "\<not> 1 < div_ceil a n" and "0 < n"
  shows "a \<le> n"
proof -
  have a: "a = a div n * n + a mod n" and m: "a mod n < n" using assms(2) by simp_all
  have "a div n = 0 \<or> a div n = 1 \<and> a mod n = 0"
    using assms(1) by (auto simp: div_ceil_def split: if_splits)
  then show ?thesis
  proof
    assume "a div n = 0"
    then have "a = a mod n" using a by simp
    then show ?thesis using m by linarith
  next
    assume "a div n = 1 \<and> a mod n = 0"
    then have "a = n" using a by simp
    then show ?thesis by simp
  qed
qed

text \<open>The size of one segment as the receiver sees it: the stride of a GRO batch, or the length
  of a lone datagram.\<close>

definition wire_stride :: "('d, 'e, 'i) transmit \<Rightarrow> nat" where
  "wire_stride t = (case segment_size t of Some n \<Rightarrow> n | None \<Rightarrow> length (contents t))"

lemma chunks_single: "xs \<noteq> [] \<Longrightarrow> length xs \<le> n \<Longrightarrow> chunks n xs = [xs]"
  using chunks_step [of xs n] by (cases n) simp_all

section \<open>The batch\<close>

text \<open>The packets of a batch that decrypt, in order.\<close>

definition accepted :: "cipher \<Rightarrow> byte list \<Rightarrow> (byte list \<times> 'r recv_meta) list
    \<Rightarrow> (byte list \<times> 'r recv_meta) list" where
  "accepted cipher secret packets = List.map_filter (\<lambda>(buf, m).
     case decrypt_meta_payload cipher secret buf m of Some (buf', Inr m') \<Rightarrow> Some (buf', m') | _ \<Rightarrow> None)
     packets"

lemma decrypt_segments_in_range:
  "enc_len \<le> length buf \<Longrightarrow> write_offset \<le> segment_start \<Longrightarrow>
     stream_cipher cipher \<Longrightarrow>
     \<exists>buf' r. decrypt_segments cipher secret enc_len enc_stride buf write_offset segment_start
       = Some (buf', r) \<and> length buf' = length buf"
proof (induction cipher secret enc_len enc_stride buf write_offset segment_start
    rule: decrypt_segments.induct)
  case (1 cipher secret enc_len enc_stride buf wo ss)
  let ?se = "min (ss + enc_stride) enc_len"
  let ?b1 = "copy_within (ss + IV_LEN) ?se wo buf"
  let ?b2 = "overwrite wo (cipher secret (take IV_LEN (drop ss buf))
    (take (?se - ss - IV_LEN) (drop wo ?b1))) ?b1"
  show ?case
  proof (cases "ss < enc_len \<and> \<not> ?se - ss \<le> IV_LEN")
    case True
    have "length ?b1 = length buf" using True 1(2,3)
      by (auto simp: copy_within_def overwrite_def)
    moreover from this have "length ?b2 = length buf" using True 1(2-4)
      by (auto simp: overwrite_def)
    moreover have "wo + (?se - ss - IV_LEN) \<le> ss + enc_stride" using 1(3) by auto
    moreover have "\<not> length buf < ?se" using 1(2) by auto
    ultimately show ?thesis
      using 1(1) [OF conjunct1 [OF True] refl refl conjunct2 [OF True] _ refl refl refl refl refl]
        True 1(2,4)
      by (subst decrypt_segments.simps) (simp add: Let_def)
  qed (auto simp: decrypt_segments.simps)
qed

lemma decrypt_in_range:
  assumes "stream_cipher cipher" and "meta_len m \<le> length buf"
  shows "decrypt_meta_payload cipher secret buf m \<noteq> None"
  using decrypt_segments_in_range [OF assms(2) _ assms(1), of 0 0 secret "meta_stride m"]
  by (auto simp: decrypt_meta_payload_def)

lemma length_swap [simp]: "length (swap i j xs) = length xs"
  by (simp add: swap_def)

lemma swap_other: "j < l \<Longrightarrow> i \<le> j \<Longrightarrow> swap i j (xs[j := y]) ! l = xs ! l"
  by (simp add: swap_def)

lemma swap_hit: "i \<le> j \<Longrightarrow> j < length xs \<Longrightarrow> swap i j (xs[j := y]) ! i = y"
  by (cases "i = j") (simp_all add: swap_def)

lemma take_swap:
  "i \<le> j \<Longrightarrow> j < length xs \<Longrightarrow> take (Suc i) (swap i j (xs[j := y])) = take i xs @ [y]"
  using swap_hit [of i j xs y] by (simp add: take_Suc_conv_app_nth) (simp add: swap_def)

lemma accepted_Cons:
  "accepted cipher secret ((buf, m) # ps) =
     (case decrypt_meta_payload cipher secret buf m of
        Some (buf', Inr m') \<Rightarrow> (buf', m') # accepted cipher secret ps
      | _ \<Rightarrow> accepted cipher secret ps)"
  by (auto simp: accepted_def List.map_filter_simps split: option.splits sum.splits)

lemma accept_batch_accepted:
  assumes "vc \<le> k" and "k \<le> n" and "length um = n" and "n \<le> length bufs" and "n \<le> length metas"
    and "\<forall>j. k \<le> j \<and> j < n \<longrightarrow> decrypt_meta_payload cipher secret (bufs ! j) (um ! j) \<noteq> None"
    and "acc = accepted cipher secret (map (\<lambda>j. (bufs ! j, um ! j)) [k..<n])"
  shows "\<exists>bufs' metas'. accept_batch cipher secret [k..<n] bufs um metas vc
      = Some (bufs', metas', vc + length acc)
    \<and> take (vc + length acc) bufs' = take vc bufs @ map fst acc
    \<and> take (vc + length acc) metas' = take vc metas @ map snd acc"
  using assms
proof (induction "n - k" arbitrary: k vc bufs um metas acc)
  case 0
  then show ?case by (auto simp: accepted_def List.map_filter_simps)
next
  case (Suc d)
  then have k: "k < n" "[k..<n] = k # [Suc k..<n]" by (simp_all add: upt_conv_Cons)
  obtain buf r where dec: "decrypt_meta_payload cipher secret (bufs ! k) (um ! k) = Some (buf, r)"
    using Suc.prems(6) k(1) by fastforce
  show ?case
  proof (cases r)
    case (Inl e)
    have same: "map (\<lambda>j. (bufs[k := buf] ! j, um ! j)) [Suc k..<n] = map (\<lambda>j. (bufs ! j, um ! j)) [Suc k..<n]"
      by simp
    have acc: "acc = accepted cipher secret (map (\<lambda>j. (bufs[k := buf] ! j, um ! j)) [Suc k..<n])"
      unfolding same using Suc.prems(7) k dec Inl by (simp add: accepted_Cons)
    have "\<exists>bufs' metas'. accept_batch cipher secret [Suc k..<n] (bufs[k := buf]) um metas vc
        = Some (bufs', metas', vc + length acc)
      \<and> take (vc + length acc) bufs' = take vc (bufs[k := buf]) @ map fst acc
      \<and> take (vc + length acc) metas' = take vc metas @ map snd acc"
      by (rule Suc.hyps(1)) (use Suc.hyps(2) Suc.prems acc in auto)
    then show ?thesis using k dec Inl Suc.prems(1) by simp
  next
    case (Inr m)
    let ?b = "swap vc k (bufs[k := buf])" and ?u = "swap vc k (um[k := m])"
    let ?m = "metas[vc := ?u ! vc]"
    let ?acc = "accepted cipher secret (map (\<lambda>j. (bufs ! j, um ! j)) [Suc k..<n])"
    have "map (\<lambda>j. (?b ! j, ?u ! j)) [Suc k..<n] = map (\<lambda>j. (bufs ! j, um ! j)) [Suc k..<n]"
      using Suc.prems(1) by (simp add: swap_other)
    then have rest: "?acc = accepted cipher secret (map (\<lambda>j. (?b ! j, ?u ! j)) [Suc k..<n])"
      by (simp only:)
    have acc: "acc = (buf, m) # ?acc"
      using Suc.prems(7) k dec Inr by (simp add: accepted_Cons)
    have "take (Suc vc) ?b = take vc bufs @ [buf]"
      using Suc.prems(1-5) k(1) by (simp add: take_swap)
    moreover have "take (Suc vc) ?m = take vc metas @ [m]"
      using Suc.prems(1-5) k(1) by (simp add: swap_hit take_Suc_conv_app_nth)
    ultimately have heads: "take (Suc vc) ?b = take vc bufs @ [buf]"
      "take (Suc vc) ?m = take vc metas @ [m]" by blast+
    have "\<exists>bufs' metas'. accept_batch cipher secret [Suc k..<n] ?b ?u ?m (Suc vc)
        = Some (bufs', metas', Suc vc + length ?acc)
      \<and> take (Suc vc + length ?acc) bufs' = take (Suc vc) ?b @ map fst ?acc
      \<and> take (Suc vc + length ?acc) metas' = take (Suc vc) ?m @ map snd ?acc"
      by (rule Suc.hyps(1)) (use Suc.hyps(2) Suc.prems rest in \<open>auto simp: swap_other\<close>)
    then show ?thesis unfolding heads using k dec Inr acc by (simp add: Let_def)
  qed
qed

section \<open>Properties\<close>

text \<open>(C32) What one end sends the other end reads: the segments of a transmit, received as one
  batch of segments of the announced stride (or as one datagram), decrypt in place to the
  original contents with the original segment size, whatever follows them in the buffer.\<close>

theorem obfs_roundtrip:
  fixes t :: "('d, 'e, 'i) transmit"
  assumes "stream_cipher cipher" and "\<forall>i. length (rng i) = IV_LEN" and "contents t \<noteq> []"
    and "sent = encode_transmit cipher secret rng t"
    and "meta_len m = length (contents sent)" and "meta_stride m = wire_stride sent"
  shows "\<exists>gap. decrypt_meta_payload cipher secret (contents sent @ rest) m =
    Some (contents t @ gap @ rest,
      Inr (m\<lparr>meta_len := length (contents t),
             meta_stride := min (effective_segment_size t) (length (contents t))\<rparr>))"
proof -
  let ?n = "effective_segment_size t" and ?c = "contents t"
  let ?enc = "encode_chunks cipher secret rng 0 (chunks ?n ?c)"
  have pos: "0 < ?n" by (rule effective_segment_size_pos)
  have sent: "contents sent = ?enc" using assms(4) by (simp add: encode_transmit_def Let_def)
  have len: "length ?enc = length ?c + IV_LEN * div_ceil (length ?c) ?n"
    using assms(1,2)
    by (simp add: length_encode_chunks concat_chunks length_chunks effective_segment_size_pos)
  have le: "?n \<le> length ?c"
    using assms(3) by (cases "contents t") (auto simp: effective_segment_size_def split: option.splits)
  show ?thesis
  proof (cases "1 < div_ceil (length ?c) ?n")
    case True
    then have "meta_stride m = ?n + IV_LEN"
      using assms(4,6) by (simp add: encode_transmit_def wire_stride_def Let_def)
    then show ?thesis
      using decrypt_encoded [OF assms(1,2) pos assms(3), of m secret rest] assms(5) sent le
      by (simp add: min_absorb1)
  next
    case False
    then have n: "?n = length ?c"
      using segment_count_le_1 [OF False effective_segment_size_pos] le by simp
    have "div_ceil (length ?c) ?n = 1" using n assms(3) by (simp add: div_ceil_def)
    then have "meta_stride m = length ?c + IV_LEN"
      using assms(4,6) len False by (simp add: encode_transmit_def wire_stride_def Let_def)
    then show ?thesis
      using decrypt_encoded [OF assms(1,2) pos assms(3), of m secret rest] assms(5) sent n
      by simp
  qed
qed

text \<open>An involutive keystream for the concrete runs: the IV's first byte on every position.\<close>

definition xor_cipher :: cipher where
  "xor_cipher secret iv d = map (\<lambda>b. b XOR hd (iv @ [0])) d"

lemma xor_cipher_ok: "stream_cipher xor_cipher"
  by (simp add: stream_cipher_def xor_cipher_def o_def xor.assoc)

theorem obfs_roundtrip_witness:
  "\<exists>gap. decrypt_meta_payload xor_cipher [] (contents (encode_transmit xor_cipher [] (\<lambda>i. replicate 12 7)
      \<lparr>destination = (), ecn = (), contents = [1, 2, 3, 4, 5], segment_size = Some 2, src_ip = ()\<rparr>) @ [9])
      \<lparr>meta_len = 41, meta_stride = 14, meta_rest = ()\<rparr>
    = Some ([1, 2, 3, 4, 5] @ gap @ [9], Inr \<lparr>meta_len = 5, meta_stride = 2, meta_rest = ()\<rparr>)"
proof -
  let ?t = "\<lparr>destination = (), ecn = (), contents = [1, 2, 3, 4, 5 :: byte], segment_size = Some 2, src_ip = ()\<rparr>"
  have n: "effective_segment_size ?t = 2" by (simp add: effective_segment_size_def)
  have "length (contents (encode_transmit xor_cipher [] (\<lambda>i. replicate 12 7) ?t)) = 41"
    using xor_cipher_ok
    by (simp add: encode_transmit_def Let_def n length_encode_chunks IV_LEN_def concat_chunks
        length_chunks div_ceil_def)
  moreover have "wire_stride (encode_transmit xor_cipher [] (\<lambda>i. replicate 12 7) ?t) = 14"
    by (simp add: wire_stride_def encode_transmit_def Let_def n div_ceil_def IV_LEN_def)
  ultimately show ?thesis
    using obfs_roundtrip [OF xor_cipher_ok, of "\<lambda>i. replicate 12 7" ?t _ "[]"
        "\<lparr>meta_len = 41, meta_stride = 14, meta_rest = ()\<rparr>" "[9]"]
    by (simp add: IV_LEN_def n flip: numeral_2_eq_2)
qed

text \<open>A poll that receives a batch hands up exactly the packets that decrypt, in the order they
  arrived, and their metadata; the forged ones among them are dropped. With none left it
  answers pending, and the call never panics on packets that fit their buffers.\<close>

theorem poll_recv_filters:
  assumes "stream_cipher cipher" and "0 < batch" and "length packets \<le> min (min (length bufs) (length metas)) batch"
    and "packets \<noteq> []" and "list_all (\<lambda>(buf, m). meta_len m \<le> length buf) packets"
    and "good = accepted cipher secret packets"
  shows "\<exists>bufs' metas'. poll_recv cipher secret batch (replicate k Would_block @ [Batch packets]) bufs metas
      = Some (bufs', metas', if good = [] then Pending else Ready (Inr (length good)))
    \<and> take (length good) bufs' = map fst good \<and> take (length good) metas' = map snd good"
proof -
  let ?n = "length packets" and ?b = "map fst packets @ drop (length packets) bufs"
  have acc: "good = accepted cipher secret (map (\<lambda>j. (?b ! j, map snd packets ! j)) [0..<?n])"
  proof -
    have "map (\<lambda>j. (?b ! j, map snd packets ! j)) [0..<?n] = packets"
      by (rule nth_equalityI) (simp_all add: nth_append)
    then show ?thesis using assms(6) by simp
  qed
  have ok: "\<forall>j. 0 \<le> j \<and> j < ?n \<longrightarrow>
      decrypt_meta_payload cipher secret (?b ! j) (map snd packets ! j) \<noteq> None"
    using assms(1,5)
    by (simp add: nth_append list_all_length split_def decrypt_in_range del: not_None_eq)
  have "\<exists>bufs' metas'. accept_batch cipher secret [0..<?n] ?b (map snd packets) metas 0
      = Some (bufs', metas', 0 + length good)
    \<and> take (0 + length good) bufs' = take 0 ?b @ map fst good
    \<and> take (0 + length good) metas' = take 0 metas @ map snd good"
    by (rule accept_batch_accepted [OF _ _ _ _ _ ok acc]) (use assms(3) in auto)
  moreover have "dropWhile (\<lambda>t. t = Would_block) (replicate k Would_block @ [Batch packets]) = [Batch packets]"
    by (induction k) auto
  ultimately show ?thesis
    using assms(2-4) by (auto simp: Let_def)
qed

theorem poll_recv_filters_witness:
  "\<exists>bufs' metas'. poll_recv xor_cipher [] 32 [Would_block, Batch [([7], \<lparr>meta_len = 1, meta_stride = 1, meta_rest = ()\<rparr>)]]
     [[0]] [\<lparr>meta_len = 0, meta_stride = 0, meta_rest = ()\<rparr>] = Some (bufs', metas', Pending)"
proof -
  have "accepted xor_cipher [] [([7], \<lparr>meta_len = 1, meta_stride = 1, meta_rest = ()\<rparr>)] = []"
    by (simp add: accepted_def List.map_filter_simps decrypt_meta_payload_def IV_LEN_def)
  then show ?thesis
    using poll_recv_filters [OF xor_cipher_ok, of 32 "[([7], \<lparr>meta_len = 1, meta_stride = 1, meta_rest = ()\<rparr>)]"
        "[[0]]" "[\<lparr>meta_len = 0, meta_stride = 0, meta_rest = ()\<rparr>]" "[]" "[]" 1]
    by (simp del: poll_recv.simps)
qed

end
