(* ===== verification/Tables.thy ===== *)
theory Tables
  imports Main "HOL-Library.AList" Traces
begin

text \<open>
  Hash maps (\<open>HashMap\<close>, \<open>DashMap\<close>) as association lists with distinct keys, in the order
  the map happens to iterate in: lookup is \<open>map_of\<close>, \<open>insert\<close> is \<open>AList.update\<close>, \<open>remove\<close> is
  \<open>AList.delete\<close> and \<open>retain\<close> is \<open>filter\<close>. No property depends on the order. The lemmas give
  what the components need of sizes and lookups, and \<open>min_by_key\<close> of iterators.
\<close>

abbreviation distinct_keys :: "('k \<times> 'v) list \<Rightarrow> bool" where
  "distinct_keys t \<equiv> distinct (map fst t)"

abbreviation keys :: "('k \<times> 'v) list \<Rightarrow> 'k set" where
  "keys t \<equiv> fst ` set t"

declare map_of_eq_Some_iff [simp del] and Some_eq_map_of_iff [simp del]

named_theorems table_simps \<open>lookups and sizes after an operation\<close>

lemma distinct_keys_filter [simp]: "distinct_keys t \<Longrightarrow> distinct_keys (filter P t)"
  by (induction t) auto

lemma length_update [table_simps]:
  "length (AList.update k v t) = (if k \<in> keys t then length t else Suc (length t))"
  by (induction t) auto

lemma length_delete [table_simps]:
  "distinct_keys t \<Longrightarrow> length (AList.delete k t) = (if k \<in> keys t then length t - 1 else length t)"
proof (induction t)
  case (Cons p t)
  have "k \<in> keys t \<Longrightarrow> 0 < length t" by auto
  moreover have "k \<notin> keys t \<Longrightarrow> AList.delete k t = t" by (rule AList.delete_id)
  ultimately show ?case using Cons by (auto simp: AList.delete_eq)
qed (simp add: AList.delete_eq)

lemma length_delete_le: "length (AList.delete k t) \<le> length t"
  by (simp add: AList.delete_eq)

lemma map_of_filter [table_simps]:
  "distinct_keys t \<Longrightarrow> map_of (filter P t) k =
     (case map_of t k of Some v \<Rightarrow> if P (k, v) then Some v else None | None \<Rightarrow> None)"
proof (induction t)
  case (Cons p t)
  have "map_of (filter P t) (fst p) = None"
    using Cons.prems by (auto simp: map_of_eq_None_iff)
  moreover have "map_of t (fst p) = None"
    using Cons.prems by (auto simp: map_of_eq_None_iff)
  ultimately show ?case using Cons by (cases p) (auto split: option.splits)
qed simp

lemma map_of_update [table_simps]: "map_of (AList.update k v t) = (map_of t)(k \<mapsto> v)"
  by (rule AList.update_conv')

lemma map_of_delete [table_simps]: "map_of (AList.delete k t) = (map_of t)(k := None)"
  by (rule AList.delete_conv')

lemma keys_update [simp]: "keys (AList.update k v t) = insert k (keys t)"
  by (induction t) auto

lemma keys_delete [simp]: "keys (AList.delete k t) = keys t - {k}"
  by (auto simp: AList.delete_eq)

lemma in_keys_iff: "k \<in> keys t \<longleftrightarrow> map_of t k \<noteq> None"
  by (auto simp: map_of_eq_None_iff)

section \<open>Minimum by key\<close>

fun min_by_key :: "('a \<Rightarrow> 'b::linorder) \<Rightarrow> 'a list \<Rightarrow> 'a option" where
  "min_by_key f [] = None"
| "min_by_key f (x # xs) =
     (case min_by_key f xs of None \<Rightarrow> Some x | Some y \<Rightarrow> if f y < f x then Some y else Some x)"

lemma min_by_key_None [simp]: "min_by_key f xs = None \<longleftrightarrow> xs = []"
  by (cases xs) (auto split: option.splits)

lemma min_by_key_Some: "min_by_key f xs = Some y \<Longrightarrow> y \<in> set xs \<and> (\<forall>x \<in> set xs. f y \<le> f x)"
  by (induction xs arbitrary: y) (fastforce split: option.splits if_splits)+

end
