(* ===== verification/Ip.thy ===== *)
theory Ip
  imports Prelude
begin

text \<open>
  IP addresses as the Rust standard library has them (\<open>IpAddr\<close> with its octets and segments
  and the predicates the sources use), and the address guards of \<open>crates/proto/src/ssrf.rs\<close>.
\<close>

unbundle bit_operations_syntax

section \<open>Addresses\<close>

datatype ipv4 = Ipv4 byte byte byte byte

datatype ipv6 = Ipv6 u16 u16 u16 u16 u16 u16 u16 u16

datatype ip_addr = V4 ipv4 | V6 ipv6

fun segments :: "ipv6 \<Rightarrow> u16 list" where
  "segments (Ipv6 a b c d e f g h) = [a, b, c, d, e, f, g, h]"

fun v4_link_local :: "ipv4 \<Rightarrow> bool" where
  "v4_link_local (Ipv4 a b _ _) \<longleftrightarrow> a = 169 \<and> b = 254"

fun v4_multicast :: "ipv4 \<Rightarrow> bool" where
  "v4_multicast (Ipv4 a _ _ _) \<longleftrightarrow> 224 \<le> a \<and> a \<le> 239"

fun v4_loopback :: "ipv4 \<Rightarrow> bool" where
  "v4_loopback (Ipv4 a _ _ _) \<longleftrightarrow> a = 127"

definition v6_unspecified :: "ipv6 \<Rightarrow> bool" where
  "v6_unspecified ip \<longleftrightarrow> ip = Ipv6 0 0 0 0 0 0 0 0"

definition v6_loopback :: "ipv6 \<Rightarrow> bool" where
  "v6_loopback ip \<longleftrightarrow> ip = Ipv6 0 0 0 0 0 0 0 1"

definition v6_multicast :: "ipv6 \<Rightarrow> bool" where
  "v6_multicast ip \<longleftrightarrow> segments ip ! 0 AND 0xff00 = 0xff00"

definition v6_unicast_link_local :: "ipv6 \<Rightarrow> bool" where
  "v6_unicast_link_local ip \<longleftrightarrow> segments ip ! 0 AND 0xffc0 = 0xfe80"

definition high_byte :: "u16 \<Rightarrow> byte" where
  "high_byte w = ucast (drop_bit 8 w)"

definition low_byte :: "u16 \<Rightarrow> byte" where
  "low_byte w = ucast w"

fun to_ipv4_mapped :: "ipv6 \<Rightarrow> ipv4 option" where
  "to_ipv4_mapped (Ipv6 a b c d e f g h) =
     (if a = 0 \<and> b = 0 \<and> c = 0 \<and> d = 0 \<and> e = 0 \<and> f = 0xffff
      then Some (Ipv4 (high_byte g) (low_byte g) (high_byte h) (low_byte h)) else None)"

fun to_canonical :: "ip_addr \<Rightarrow> ip_addr" where
  "to_canonical (V4 a) = V4 a"
| "to_canonical (V6 a) = (case to_ipv4_mapped a of Some v4 \<Rightarrow> V4 v4 | None \<Rightarrow> V6 a)"

fun is_loopback :: "ip_addr \<Rightarrow> bool" where
  "is_loopback (V4 a) = v4_loopback a"
| "is_loopback (V6 a) = v6_loopback a"

section \<open>The guards\<close>

definition to_ipv4_synthesized :: "ipv6 \<Rightarrow> ipv4 option" where
  "to_ipv4_synthesized v6 =
     (case to_ipv4_mapped v6 of
        Some v4 \<Rightarrow> Some v4
      | None \<Rightarrow>
          let s = segments v6
          in if s ! 0 = 0x0064 \<and> s ! 1 = 0xff9b \<and> s ! 2 = 0 \<and> s ! 3 = 0 \<and> s ! 4 = 0 \<and> s ! 5 = 0
             then Some (Ipv4 (high_byte (s ! 6)) (low_byte (s ! 6)) (high_byte (s ! 7)) (low_byte (s ! 7)))
             else None)"

fun is_metadata_ip :: "ip_addr \<Rightarrow> bool" where
  "is_metadata_ip (V4 v4) \<longleftrightarrow>
     v4 = Ipv4 169 254 169 254 \<or> v4 = Ipv4 100 100 100 200 \<or> v4 = Ipv4 168 63 129 16"
| "is_metadata_ip (V6 v6) \<longleftrightarrow> (let s = segments v6 in s ! 0 = 0xfd00 \<and> s ! 1 = 0x0ec2)"

text \<open>\<open>is_strictly_dangerous_ip\<close> calls itself on the embedded IPv4 address only.\<close>

definition v4_strictly_dangerous :: "ipv4 \<Rightarrow> bool" where
  "v4_strictly_dangerous v4 \<longleftrightarrow>
     v4_link_local v4 \<or> v4 = Ipv4 0 0 0 0 \<or> v4_multicast v4 \<or> v4 = Ipv4 255 255 255 255
     \<or> is_metadata_ip (V4 v4)"

fun is_strictly_dangerous_ip :: "ip_addr \<Rightarrow> bool" where
  "is_strictly_dangerous_ip (V4 v4) \<longleftrightarrow> v4_strictly_dangerous v4"
| "is_strictly_dangerous_ip (V6 v6) \<longleftrightarrow>
     v6_unspecified v6 \<or> v6_multicast v6 \<or> v6_unicast_link_local v6 \<or> is_metadata_ip (V6 v6)
     \<or> (case to_ipv4_synthesized v6 of Some v4 \<Rightarrow> v4_strictly_dangerous v4 | None \<Rightarrow> False)"

definition is_local_direct_target_ip :: "ip_addr \<Rightarrow> bool" where
  "is_local_direct_target_ip ip \<longleftrightarrow> is_loopback (to_canonical ip)"

section \<open>Embeddings\<close>

fun mapped :: "ipv4 \<Rightarrow> ipv6" where
  "mapped (Ipv4 a b c d) = Ipv6 0 0 0 0 0 0xffff (of_be16 a b) (of_be16 c d)"

fun nat64 :: "ipv4 \<Rightarrow> ipv6" where
  "nat64 (Ipv4 a b c d) = Ipv6 0x64 0xff9b 0 0 0 0 (of_be16 a b) (of_be16 c d)"

lemma high_low_of_be16 [simp]: "high_byte (of_be16 a b) = a" "low_byte (of_be16 a b) = b"
  using be16_of_be16 [of a b] by (simp_all add: high_byte_def low_byte_def be16_def)

lemma of_be16_high_low [simp]: "of_be16 (high_byte w) (low_byte w) = w"
  by (simp add: high_byte_def low_byte_def)

lemma of_be16_eq: "w = of_be16 a b \<longleftrightarrow> high_byte w = a \<and> low_byte w = b"
  by (metis high_low_of_be16 of_be16_high_low)

lemma to_ipv4_mapped_Some: "to_ipv4_mapped v6 = Some v4 \<longleftrightarrow> v6 = mapped v4"
  by (cases v6; cases v4) (simp add: of_be16_eq, blast)

lemma to_ipv4_mapped_mapped [simp]: "to_ipv4_mapped (mapped v4) = Some v4"
  by (simp only: to_ipv4_mapped_Some)

lemma mapped_eq [simp]: "mapped v = mapped w \<longleftrightarrow> v = w"
  by (metis option.inject to_ipv4_mapped_Some)

lemma mapped_not_nat64 [simp]: "mapped v \<noteq> nat64 w"
  by (cases v; cases w) simp

lemma to_ipv4_synthesized_Some:
  "to_ipv4_synthesized v6 = Some v4 \<longleftrightarrow> v6 = mapped v4 \<or> v6 = nat64 v4"
proof (cases "to_ipv4_mapped v6")
  case None
  then have "v6 \<noteq> mapped v4" by (metis option.simps(3) to_ipv4_mapped_Some)
  moreover have "to_ipv4_synthesized v6 = Some v4 \<longleftrightarrow> v6 = nat64 v4"
    using None by (cases v6; cases v4)
      (auto simp: to_ipv4_synthesized_def of_be16_eq Let_def simp del: to_ipv4_mapped.simps
        split: if_splits)
  ultimately show ?thesis by blast
next
  case (Some w)
  then show ?thesis
    using to_ipv4_mapped_Some [of v6 w] by (auto simp: to_ipv4_synthesized_def)
qed

lemma v4_embedded_harmless:
  "v6 = mapped v4 \<or> v6 = nat64 v4 \<Longrightarrow>
     \<not> v6_unspecified v6 \<and> \<not> v6_multicast v6 \<and> \<not> v6_unicast_link_local v6 \<and> \<not> is_metadata_ip (V6 v6)"
  by (cases v4) (auto simp: v6_unspecified_def v6_multicast_def v6_unicast_link_local_def)

section \<open>Properties\<close>

text \<open>(C33) Re-encoding an IPv4 address as IPv4-mapped or NAT64 IPv6 never changes the verdict of the
  guard, and these two embeddings are the only addresses whose verdict is that of an IPv4.\<close>

theorem dangerous_ip_embedding:
  "is_strictly_dangerous_ip (V6 (mapped v4)) = is_strictly_dangerous_ip (V4 v4)
   \<and> is_strictly_dangerous_ip (V6 (nat64 v4)) = is_strictly_dangerous_ip (V4 v4)
   \<and> (to_ipv4_synthesized v6 = Some v4 \<longleftrightarrow> v6 = mapped v4 \<or> v6 = nat64 v4)"
proof -
  have s: "to_ipv4_synthesized (mapped v4) = Some v4" "to_ipv4_synthesized (nat64 v4) = Some v4"
    by (simp_all add: to_ipv4_synthesized_Some)
  show ?thesis
    using v4_embedded_harmless [of "mapped v4" v4] v4_embedded_harmless [of "nat64 v4" v4]
    by (simp add: s to_ipv4_synthesized_Some)
qed

text \<open>A direct upstream is loopback and nothing else: \<open>127.0.0.0/8\<close>, \<open>::1\<close> and the mapped form
  of \<open>127.0.0.0/8\<close>, and no such address is one the guard forbids to connectors. In particular a
  NAT64 form of a loopback address is not accepted.\<close>

theorem local_direct_target_iff:
  "(is_local_direct_target_ip ip \<longleftrightarrow>
     (\<exists>b c d. ip = V4 (Ipv4 127 b c d) \<or> ip = V6 (mapped (Ipv4 127 b c d))) \<or> ip = V6 (Ipv6 0 0 0 0 0 0 0 1))
   \<and> \<not> (is_local_direct_target_ip ip \<and> is_strictly_dangerous_ip ip)
   \<and> \<not> is_local_direct_target_ip (V6 (nat64 v4))"
proof -
  have direct: "is_local_direct_target_ip ip \<longleftrightarrow>
     (\<exists>b c d. ip = V4 (Ipv4 127 b c d) \<or> ip = V6 (mapped (Ipv4 127 b c d))) \<or> ip = V6 (Ipv6 0 0 0 0 0 0 0 1)"
  proof (cases ip)
    case (V4 a)
    then show ?thesis by (cases a) (auto simp: is_local_direct_target_ip_def)
  next
    case (V6 a)
    have "v4_loopback v \<longleftrightarrow> (\<exists>b c d. v = Ipv4 127 b c d)" for v by (cases v) auto
    moreover have "mapped v \<noteq> Ipv6 0 0 0 0 0 0 0 1" for v by (cases v) auto
    moreover have "to_ipv4_mapped a = None \<longleftrightarrow> (\<forall>v. a \<noteq> mapped v)"
      by (metis not_None_eq option.distinct(1) to_ipv4_mapped_Some)
    ultimately show ?thesis
      using V6 by (cases "to_ipv4_mapped a")
        (auto simp: is_local_direct_target_ip_def v6_loopback_def to_ipv4_mapped_Some
          simp del: mapped.simps)
  qed
  have "\<not> is_strictly_dangerous_ip (V4 (Ipv4 127 b c d))" for b c d
    by (simp add: v4_strictly_dangerous_def)
  moreover have "\<not> is_strictly_dangerous_ip (V6 (mapped (Ipv4 127 b c d)))" for b c d
    using v4_embedded_harmless [of "mapped (Ipv4 127 b c d)" "Ipv4 127 b c d"]
      to_ipv4_synthesized_Some [of "mapped (Ipv4 127 b c d)" "Ipv4 127 b c d"]
    by (simp add: v4_strictly_dangerous_def del: mapped.simps)
  moreover have "\<not> is_strictly_dangerous_ip (V6 (Ipv6 0 0 0 0 0 0 0 1))"
    by (simp add: to_ipv4_synthesized_def v6_unspecified_def v6_multicast_def
        v6_unicast_link_local_def)
  moreover have "\<not> is_local_direct_target_ip (V6 (nat64 v4))"
    by (cases v4) (simp add: is_local_direct_target_ip_def v6_loopback_def)
  ultimately show ?thesis using direct by blast
qed

end
