(* ===== verification/Ip_Text.thy ===== *)
theory Ip_Text
  imports Ip Rust_Str
begin

text \<open>
  The textual form of IP addresses: \<open>IpAddr::from_str\<close>, the recursive-descent parser of
  \<open>core::net\<close>, and \<open>Display\<close>. The sources turn peer addresses into strings and parse them again (the
  client address, rate-limit keys, allowlists), so the properties needed are that printing
  and parsing are inverse.
\<close>

section \<open>Parsing\<close>

text \<open>\<open>char::to_digit\<close> on a byte.\<close>

definition to_digit :: "nat \<Rightarrow> char \<Rightarrow> nat option" where
  "to_digit radix c =
     (let b = byte_of c;
          d = (if 48 \<le> b \<and> b \<le> 57 then b - 48
               else if 97 \<le> b \<and> b \<le> 122 then b - 87
               else if 65 \<le> b \<and> b \<le> 90 then b - 55 else 36)
      in if d < radix then Some d else None)"

text \<open>The digit loop of \<open>read_number\<close>: too many digits fail.\<close>

fun read_digits :: "nat \<Rightarrow> nat \<Rightarrow> nat \<Rightarrow> nat \<Rightarrow> string \<Rightarrow> (nat \<times> nat \<times> string) option" where
  "read_digits radix max_digits count acc [] = Some (count, acc, [])"
| "read_digits radix max_digits count acc (c # s) =
     (case to_digit radix c of
        None \<Rightarrow> Some (count, acc, c # s)
      | Some d \<Rightarrow> if max_digits < count + 1 then None
                  else read_digits radix max_digits (count + 1) (acc * radix + d) s)"

definition read_number :: "nat \<Rightarrow> nat \<Rightarrow> bool \<Rightarrow> nat \<Rightarrow> string \<Rightarrow> (nat \<times> string) option" where
  "read_number radix max_digits allow_zero_prefix bound s =
     (let has_leading_zero = (case s of c # _ \<Rightarrow> c = CHR ''0'' | [] \<Rightarrow> False)
      in case read_digits radix max_digits 0 0 s of
           None \<Rightarrow> None
         | Some (count, n, r) \<Rightarrow>
             if count = 0 then None
             else if \<not> allow_zero_prefix \<and> has_leading_zero \<and> 1 < count then None
             else if n < bound then Some (n, r) else None)"

definition read_given_char :: "char \<Rightarrow> string \<Rightarrow> string option" where
  "read_given_char c s = (case s of d # r \<Rightarrow> if d = c then Some r else None | [] \<Rightarrow> None)"

definition read_separator ::
  "char \<Rightarrow> nat \<Rightarrow> (string \<Rightarrow> ('a \<times> string) option) \<Rightarrow> string \<Rightarrow> ('a \<times> string) option" where
  "read_separator sep index inner s =
     (if 0 < index then Option.bind (read_given_char sep s) inner else inner s)"

definition read_octet :: "nat \<Rightarrow> string \<Rightarrow> (nat \<times> string) option" where
  "read_octet index = read_separator CHR ''.'' index (read_number 10 3 False 256)"

definition read_ipv4 :: "string \<Rightarrow> (ipv4 \<times> string) option" where
  "read_ipv4 s0 =
     Option.bind (read_octet 0 s0) (\<lambda>(a, s1).
     Option.bind (read_octet 1 s1) (\<lambda>(b, s2).
     Option.bind (read_octet 2 s2) (\<lambda>(c, s3).
     Option.bind (read_octet 3 s3) (\<lambda>(d, s4).
       Some (Ipv4 (of_nat a) (of_nat b) (of_nat c) (of_nat d), s4)))))"

text \<open>\<open>read_groups\<close>: \<open>n\<close> slots are left, the next one has index \<open>i\<close>. The flag tells that the last
  two groups came from an embedded IPv4 address.\<close>

fun read_groups :: "nat \<Rightarrow> nat \<Rightarrow> string \<Rightarrow> u16 list \<times> bool \<times> string" where
  "read_groups 0 i s = ([], False, s)"
| "read_groups (Suc n) i s =
     (case (if 0 < n then read_separator CHR '':'' i read_ipv4 s else None) of
        Some (Ipv4 a b c d, r) \<Rightarrow> ([of_be16 a b, of_be16 c d], True, r)
      | None \<Rightarrow>
          (case read_separator CHR '':'' i (read_number 16 4 True 65536) s of
             None \<Rightarrow> ([], False, s)
           | Some (g, r) \<Rightarrow>
               let (gs, v4, r') = read_groups n (i + 1) r in (of_nat g # gs, v4, r')))"

fun of_segments :: "u16 list \<Rightarrow> ipv6 option" where
  "of_segments [a, b, c, d, e, f, g, h] = Some (Ipv6 a b c d e f g h)"
| "of_segments _ = None"

definition read_ipv6 :: "string \<Rightarrow> (ipv6 \<times> string) option" where
  "read_ipv6 s =
     (let (front, head_ipv4, r) = read_groups 8 0 s
      in if length front = 8 then map_option (\<lambda>a. (a, r)) (of_segments front)
         else if head_ipv4 then None
         else Option.bind (read_given_char CHR '':'' r) (\<lambda>r1.
              Option.bind (read_given_char CHR '':'' r1) (\<lambda>r2.
              let (rear, _, r3) = read_groups (8 - (length front + 1)) 0 r2
              in map_option (\<lambda>a. (a, r3))
                   (of_segments (front @ replicate (8 - length front - length rear) 0 @ rear)))))"

definition parse_ip :: "string \<Rightarrow> ip_addr option" where
  "parse_ip s =
     (case (case read_ipv4 s of
              Some (a, r) \<Rightarrow> Some (V4 a, r)
            | None \<Rightarrow> map_option (\<lambda>(a, r). (V6 a, r)) (read_ipv6 s)) of
        Some (ip, []) \<Rightarrow> Some ip
      | _ \<Rightarrow> None)"

section \<open>Printing\<close>

fun show_ipv4 :: "ipv4 \<Rightarrow> string" where
  "show_ipv4 (Ipv4 a b c d) = show_nat (unat a) @ ''.'' @ show_nat (unat b) @ ''.''
     @ show_nat (unat c) @ ''.'' @ show_nat (unat d)"

fun join_groups :: "u16 list \<Rightarrow> string" where
  "join_groups [] = []"
| "join_groups [g] = show_hex (unat g)"
| "join_groups (g # gs) = show_hex (unat g) @ '':'' @ join_groups gs"

text \<open>The scan for the longest run of zero segments: the run being extended and the longest so
  far, each a start and a length.\<close>

fun zero_run :: "nat \<Rightarrow> nat \<times> nat \<Rightarrow> nat \<times> nat \<Rightarrow> u16 list \<Rightarrow> nat \<times> nat" where
  "zero_run i current longest [] = longest"
| "zero_run i (start, n) longest (g # gs) =
     (if g = 0 then
        let current = (if n = 0 then i else start, n + 1)
        in zero_run (i + 1) current (if snd longest < snd current then current else longest) gs
      else zero_run (i + 1) (0, 0) longest gs)"

definition show_ipv6 :: "ipv6 \<Rightarrow> string" where
  "show_ipv6 a = (case to_ipv4_mapped a of
       Some v4 \<Rightarrow> ''::ffff:'' @ show_ipv4 v4
     | None \<Rightarrow>
         let gs = segments a; (start, n) = zero_run 0 (0, 0) (0, 0) gs
         in if 1 < n then join_groups (take start gs) @ ''::'' @ join_groups (drop (start + n) gs)
            else join_groups gs)"

fun show_ip :: "ip_addr \<Rightarrow> string" where
  "show_ip (V4 a) = show_ipv4 a"
| "show_ip (V6 a) = show_ipv6 a"

section \<open>Numbers\<close>

lemma to_digit_digit_char: "d < radix \<Longrightarrow> radix \<le> 16 \<Longrightarrow> to_digit radix (digit_char d) = Some d"
  by (auto simp: to_digit_def digit_char_def Let_def)

lemma show_radix_small: "n < radix \<Longrightarrow> show_radix radix n = [digit_char n]"
  by (simp add: show_radix.simps)

lemma show_radix_step:
  "radix \<le> n \<Longrightarrow> 2 \<le> radix \<Longrightarrow> show_radix radix n = show_radix radix (n div radix) @ [digit_char (n mod radix)]"
  by (simp add: show_radix.simps [of radix n])

lemma show_radix_not_Nil [simp]: "show_radix radix n \<noteq> []"
  by (subst show_radix.simps) simp

lemma length_show_radix_le:
  "2 \<le> radix \<Longrightarrow> n < radix ^ Suc k \<Longrightarrow> length (show_radix radix n) \<le> Suc k"
proof (induction k arbitrary: n)
  case (Suc k)
  show ?case
  proof (cases "n < radix")
    case False
    have "n div radix < radix ^ Suc k" using Suc.prems by (simp add: less_mult_imp_div_less mult.commute)
    then have "length (show_radix radix (n div radix)) \<le> Suc k" using Suc by blast
    then show ?thesis using False Suc.prems(1) by (simp add: show_radix_step)
  qed (simp add: show_radix_small)
qed (simp add: show_radix_small)

lemma read_digits_show:
  assumes "2 \<le> radix" and "radix \<le> 16"
  shows "count + length (show_radix radix n) \<le> mx \<Longrightarrow>
    read_digits radix mx count acc (show_radix radix n @ r) =
    read_digits radix mx (count + length (show_radix radix n))
      (acc * radix ^ length (show_radix radix n) + n) r"
proof (induction n arbitrary: count acc r rule: less_induct)
  case (less n)
  show ?case
  proof (cases "n < radix")
    case True
    then show ?thesis using less.prems assms by (simp add: show_radix_small to_digit_digit_char)
  next
    case False
    let ?q = "n div radix" and ?d = "n mod radix"
    have q: "?q < n" and d: "?d < radix" using False assms(1) by (auto intro: div_less_dividend)
    have s: "show_radix radix n = show_radix radix ?q @ [digit_char ?d]"
      using False assms by (simp add: show_radix_step)
    have mx: "count + length (show_radix radix ?q) < mx" using less.prems s by simp
    have "(acc * radix ^ length (show_radix radix ?q) + ?q) * radix + ?d
        = acc * radix ^ length (show_radix radix n) + n"
      using s by (simp add: algebra_simps)
    then show ?thesis
      using less.IH [OF q, of count acc "digit_char ?d # r"] mx s d assms(2)
      by (simp add: to_digit_digit_char)
  qed
qed

lemma hd_show_radix: "2 \<le> radix \<Longrightarrow> radix \<le> 16 \<Longrightarrow> hd (show_radix radix n) = CHR ''0'' \<Longrightarrow> n = 0"
proof (induction n rule: less_induct)
  case (less n)
  show ?case
  proof (cases "n < radix")
    case True
    then have "to_digit radix (CHR ''0'') = Some n"
      using less.prems to_digit_digit_char [of n radix] by (simp add: show_radix_small)
    then show ?thesis using less.prems by (simp add: to_digit_def byte_of_def)
  next
    case False
    then have "n div radix = 0"
      using less by (simp add: show_radix_step hd_append2)
    then show ?thesis using False less.prems(1) by (simp add: div_eq_0_iff)
  qed
qed

definition stops :: "nat \<Rightarrow> string \<Rightarrow> bool" where
  "stops radix r \<longleftrightarrow> r = [] \<or> to_digit radix (hd r) = None"

lemma read_digits_stops: "stops radix r \<Longrightarrow> read_digits radix mx count acc r = Some (count, acc, r)"
  by (cases r) (simp_all add: stops_def)

lemma read_number_show:
  assumes "2 \<le> radix" and "radix \<le> 16" and "n < bound" and "bound \<le> radix ^ mx" and "0 < mx"
    and "stops radix r"
  shows "read_number radix mx zp bound (show_radix radix n @ r) = Some (n, r)"
proof -
  let ?s = "show_radix radix n"
  obtain k where mx: "mx = Suc k" using assms(5) by (cases mx) auto
  have len: "length ?s \<le> mx"
    using length_show_radix_le [OF assms(1), of n k] assms(3,4) mx by simp
  then have rd: "read_digits radix mx 0 0 (?s @ r) = Some (length ?s, n, r)"
    using assms(1,2,6) by (simp add: read_digits_show read_digits_stops)
  obtain c t where s: "?s = c # t" by (cases ?s) auto
  have "1 < length ?s \<Longrightarrow> c \<noteq> CHR ''0''"
    using hd_show_radix [OF assms(1,2), of n] s assms(1) by (cases "n = 0") (auto simp: show_radix_small)
  then show ?thesis using rd s assms(3) by (auto simp: read_number_def)
qed

lemma read_number_stops: "stops radix r \<Longrightarrow> read_number radix mx zp bound r = None"
  by (simp add: read_number_def read_digits_stops)

lemma read_digits_suffix: "read_digits radix mx count acc s = Some (c, n, r) \<Longrightarrow> set r \<subseteq> set s"
  by (induction radix mx count acc s rule: read_digits.induct) (auto split: option.splits if_splits)

lemma read_number_suffix: "read_number radix mx zp bound s = Some (n, r) \<Longrightarrow> set r \<subseteq> set s"
  by (auto simp: read_number_def Let_def split: option.splits if_splits prod.splits
      dest: read_digits_suffix)

section \<open>IPv4\<close>

lemma stops_dot [simp]: "stops 10 (CHR ''.'' # r)" "stops 16 (CHR '':'' # r)" "stops 10 (CHR '':'' # r)"
  "stops radix []"
  by (simp_all add: stops_def to_digit_def byte_of_def)

lemma read_octet_show:
  "stops 10 r \<Longrightarrow> read_octet 0 (show_nat (unat (a :: byte)) @ r) = Some (unat a, r)"
  "stops 10 r \<Longrightarrow> 0 < i \<Longrightarrow> read_octet i (CHR ''.'' # show_nat (unat (a :: byte)) @ r) = Some (unat a, r)"
  by (simp_all add: read_octet_def read_separator_def read_given_char_def read_number_show)

lemma read_ipv4_show: "stops 10 r \<Longrightarrow> read_ipv4 (show_ipv4 v4 @ r) = Some (v4, r)"
  by (cases v4) (simp add: read_ipv4_def read_octet_show)

lemma read_octet_dot: "0 < i \<Longrightarrow> read_octet i s = Some (n, r) \<Longrightarrow> CHR ''.'' \<in> set s"
  by (auto simp: read_octet_def read_separator_def read_given_char_def bind_eq_Some_conv
      split: list.splits if_splits)

lemma read_octet_0_suffix: "read_octet 0 s = Some (n, r) \<Longrightarrow> set r \<subseteq> set s"
  by (auto simp: read_octet_def read_separator_def dest: read_number_suffix)

lemma read_ipv4_no_dot: "CHR ''.'' \<notin> set s \<Longrightarrow> read_ipv4 s = None"
proof (cases "read_octet 0 s")
  case (Some p)
  moreover assume "CHR ''.'' \<notin> set s"
  ultimately have "read_octet 1 (snd p) = None"
    using read_octet_0_suffix [of s "fst p" "snd p"] read_octet_dot [of 1 "snd p"]
    by (cases "read_octet 1 (snd p)") fastforce+
  then show ?thesis using Some by (cases p) (simp add: read_ipv4_def)
qed (simp add: read_ipv4_def)

lemma digit_char_not_sep: "d < 16 \<Longrightarrow> digit_char d \<noteq> CHR ''.'' \<and> digit_char d \<noteq> CHR '':''"
  using to_digit_digit_char [of d 16] by (auto simp: to_digit_def byte_of_def)

lemma set_show_radix: "2 \<le> radix \<Longrightarrow> set (show_radix radix n) \<subseteq> digit_char ` {d. d < radix}"
proof (induction n rule: less_induct)
  case (less n)
  show ?case
  proof (cases "n < radix")
    case False
    have "n div radix < n" using False less.prems by (auto intro: div_less_dividend)
    then show ?thesis using less.IH less.prems False by (simp add: show_radix_step)
  qed (auto simp: show_radix_small)
qed

lemma show_hex_no_sep: "CHR ''.'' \<notin> set (show_hex n)" "CHR '':'' \<notin> set (show_hex n)"
  using set_show_radix [of 16 n] digit_char_not_sep by fastforce+

section \<open>IPv6 groups\<close>

definition tail_groups :: "u16 list \<Rightarrow> string" where
  "tail_groups gs = concat (map (\<lambda>g. CHR '':'' # show_hex (unat g)) gs)"

lemma join_groups_Cons: "join_groups (g # gs) = show_hex (unat g) @ tail_groups gs"
  by (induction gs arbitrary: g) (simp_all add: tail_groups_def)

lemma tail_groups_simps [simp]:
  "tail_groups [] = []" "tail_groups (g # gs) = CHR '':'' # show_hex (unat g) @ tail_groups gs"
  by (simp_all add: tail_groups_def)

lemma tail_groups_no_dot [simp]: "CHR ''.'' \<notin> set (tail_groups gs)"
  by (induction gs) (simp_all add: show_hex_no_sep)

lemma join_groups_no_dot [simp]: "CHR ''.'' \<notin> set (join_groups gs)"
  by (cases gs) (simp_all add: join_groups_Cons show_hex_no_sep)

lemma stops_tail_groups: "stops 16 r \<Longrightarrow> stops 16 (tail_groups gs @ r)"
  by (cases gs) simp_all

lemma unat_u16_less [simp]: "unat (g :: u16) < 65536"
  using unat_less [of g] by simp

lemma read_group_show:
  "stops 16 r \<Longrightarrow> read_number 16 4 True 65536 (show_hex (unat (g :: u16)) @ r) = Some (unat g, r)"
  by (rule read_number_show) simp_all

text \<open>No group can be read from \<open>r\<close> after at least one was.\<close>

definition no_group :: "string \<Rightarrow> bool" where
  "no_group r \<longleftrightarrow> r = [] \<or> hd r \<noteq> CHR '':'' \<or> stops 16 (List.tl r)"

lemma read_sep_no_dot:
  "CHR ''.'' \<notin> set s \<Longrightarrow> read_separator CHR '':'' i read_ipv4 s = None"
  by (auto simp: read_separator_def read_given_char_def read_ipv4_no_dot split: list.splits)

lemma read_groups_step:
  "CHR ''.'' \<notin> set s \<Longrightarrow> read_groups (Suc n) i s =
     (case read_separator CHR '':'' i (read_number 16 4 True 65536) s of
        None \<Rightarrow> ([], False, s)
      | Some (g, r) \<Rightarrow> let (gs, v4, r') = read_groups n (i + 1) r in (of_nat g # gs, v4, r'))"
  by (simp add: read_sep_no_dot)

lemma read_tail_groups:
  assumes "CHR ''.'' \<notin> set r" and "stops 16 r"
  shows "length gs \<le> n \<Longrightarrow> length gs < n \<longrightarrow> no_group r \<Longrightarrow> 0 < i \<Longrightarrow>
    read_groups n i (tail_groups gs @ r) = (gs, False, r)"
proof (induction gs arbitrary: n i)
  case Nil
  then show ?case
    using assms by (cases n; cases r)
      (auto simp: read_groups_step read_separator_def read_given_char_def no_group_def
        read_number_stops simp del: read_groups.simps(2))
next
  case (Cons g gs)
  then obtain m where n: "n = Suc m" by (cases n) auto
  then have "read_groups m (i + 1) (tail_groups gs @ r) = (gs, False, r)" using Cons by simp
  then show ?case
    using assms Cons.prems(3)
    by (simp add: n read_groups_step read_separator_def read_given_char_def read_group_show
        stops_tail_groups show_hex_no_sep del: read_groups.simps(2))
qed

lemma read_join_groups:
  assumes "CHR ''.'' \<notin> set r" and "stops 16 r" and "length gs \<le> n"
    and "length gs < n \<longrightarrow> no_group r"
  shows "read_groups n 0 (join_groups gs @ r) = (gs, False, r)"
proof (cases gs)
  case Nil
  then show ?thesis
    using assms by (cases n)
      (simp_all add: read_groups_step read_separator_def read_number_stops del: read_groups.simps(2))
next
  case (Cons g gs')
  then obtain m where n: "n = Suc m" using assms(3) by (cases n) auto
  have "read_groups m 1 (tail_groups gs' @ r) = (gs', False, r)"
    using assms Cons n by (intro read_tail_groups) simp_all
  then show ?thesis
    using assms Cons
    by (simp add: n join_groups_Cons read_groups_step read_separator_def read_group_show
        stops_tail_groups show_hex_no_sep del: read_groups.simps(2))
qed

section \<open>The zero run\<close>

definition zero_span :: "u16 list \<Rightarrow> nat \<times> nat \<Rightarrow> bool" where
  "zero_span gs = (\<lambda>(start, n). start + n \<le> length gs \<and> (\<forall>j. start \<le> j \<and> j < start + n \<longrightarrow> gs ! j = 0))"

lemma zero_run_span:
  assumes "i \<le> length gs" and "zero_span gs longest" and "zero_span gs (start, n)"
    and "n = 0 \<or> start + n = i"
  shows "zero_span gs (zero_run i (start, n) longest (drop i gs))"
  using assms
proof (induction "length gs - i" arbitrary: i start n longest)
  case (Suc d)
  then have i: "i < length gs" by simp
  have step: "zero_span gs (zero_run (Suc i) (st, m) l (drop (Suc i) gs))"
    if "zero_span gs l" "zero_span gs (st, m)" "m = 0 \<or> st + m = Suc i" for st m l
    using Suc.hyps i that by simp
  let ?cur = "(if n = 0 then i else start, n + 1)"
  let ?l = "if snd longest < n + 1 then ?cur else longest"
  have drop: "drop i gs = gs ! i # drop (Suc i) gs" using i by (simp add: Cons_nth_drop_Suc)
  show ?case
  proof (cases "gs ! i = 0")
    case True
    then have "zero_span gs ?cur"
      using Suc.prems(3,4) i by (auto simp: zero_span_def less_Suc_eq)
    then have "zero_span gs (zero_run (Suc i) ?cur ?l (drop (Suc i) gs))"
      using Suc.prems(2,4) by (intro step) auto
    then show ?thesis using True drop by (auto simp: Let_def split: if_splits)
  next
    case False
    then show ?thesis using drop Suc.prems(2) step [of longest 0 0] by (simp add: zero_span_def)
  qed
qed simp

lemma zero_span_split:
  assumes "zero_span gs (start, n)"
  shows "gs = take start gs @ replicate n 0 @ drop (start + n) gs"
proof -
  have "take n (drop start gs) = replicate n 0"
    using assms by (intro nth_equalityI) (auto simp: zero_span_def)
  then show ?thesis by (metis append_take_drop_id drop_drop add.commute)
qed

section \<open>IPv6\<close>

lemma of_segments_segments [simp]: "of_segments (segments a) = Some a"
  by (cases a) simp

lemma length_segments [simp]: "length (segments a) = 8"
  by (cases a) simp

lemma no_dot_colons [simp]: "CHR ''.'' \<notin> set ''::''"
  by simp

lemma read_ipv6_full: "read_ipv6 (join_groups (segments a)) = Some (a, [])"
  using read_join_groups [of "[]" "segments a" 8] by (simp add: read_ipv6_def)

lemma read_ipv6_compressed:
  assumes "segments a = front @ replicate n 0 @ rear" and "1 < n"
  shows "read_ipv6 (join_groups front @ ''::'' @ join_groups rear) = Some (a, [])"
proof -
  have len: "length front + n + length rear = 8"
    using arg_cong [OF assms(1), of length] by simp
  have "read_groups 8 0 (join_groups front @ ''::'' @ join_groups rear)
      = (front, False, ''::'' @ join_groups rear)"
    using len assms(2) by (intro read_join_groups) (auto simp: no_group_def)
  moreover have "read_groups (8 - (length front + 1)) 0 (join_groups rear) = (rear, False, [])"
    using read_join_groups [of "[]" rear "8 - (length front + 1)"] len assms(2)
    by (simp add: no_group_def)
  moreover have "8 - length front - length rear = n" using len by simp
  ultimately show ?thesis
    using len assms of_segments_segments [of a] by (simp add: read_ipv6_def read_given_char_def)
qed

lemma read_ipv6_mapped: "read_ipv6 (''::ffff:'' @ show_ipv4 v4) = Some (mapped v4, [])"
proof -
  obtain a b c d where v4: "v4 = Ipv4 a b c d" by (cases v4)
  let ?t = "CHR '':'' # show_ipv4 v4"
  have "read_ipv4 (CHR '':'' # r) = None" for r
    by (simp add: read_ipv4_def read_octet_def read_separator_def read_number_stops)
  then have r1: "read_groups 8 0 (''::ffff:'' @ show_ipv4 v4) = ([], False, ''::ffff:'' @ show_ipv4 v4)"
    using read_groups.simps(2) [of 7 0 "''::ffff:'' @ show_ipv4 v4"]
    by (simp add: read_separator_def read_number_stops del: read_groups.simps)
  have f: "to_digit 10 (CHR ''f'') = None" "to_digit 16 (CHR ''f'') = Some 15"
      "to_digit 16 (CHR '':'') = None"
    by (simp_all add: to_digit_def byte_of_def)
  have r2: "read_ipv4 (''ffff'' @ ?t) = None"
    by (simp add: read_ipv4_def read_octet_def read_separator_def read_number_stops stops_def f)
  have r3: "read_number 16 4 True 65536 (''ffff'' @ ?t) = Some (65535, ?t)"
    by (simp add: read_number_def f read_digits_stops)
  have r4: "read_groups 6 1 ?t = ([of_be16 a b, of_be16 c d], True, [])"
    using read_ipv4_show [of "[]" v4] v4 read_groups.simps(2) [of 5 1 ?t]
    by (simp add: read_separator_def read_given_char_def del: read_groups.simps)
  have r5: "read_groups 7 0 (''ffff'' @ ?t) = ([0xffff, of_be16 a b, of_be16 c d], True, [])"
    using r2 r3 r4 read_groups.simps(2) [of 6 0 "''ffff'' @ ?t"] by (simp add: read_separator_def del: read_groups.simps)
  show ?thesis
    using r1 r5 v4 by (simp add: read_ipv6_def read_given_char_def eval_nat_numeral(2,3))
qed

lemma read_ipv6_show: "read_ipv6 (show_ipv6 a) = Some (a, [])"
proof (cases "to_ipv4_mapped a")
  case None
  obtain start n where run: "zero_run 0 (0, 0) (0, 0) (segments a) = (start, n)" by fastforce
  have "zero_span (segments a) (start, n)"
    using zero_run_span [of 0 "segments a" "(0, 0)" 0 0] run by (simp add: zero_span_def)
  then have "segments a = take start (segments a) @ replicate n 0 @ drop (start + n) (segments a)"
    by (rule zero_span_split)
  then show ?thesis
    using None run read_ipv6_compressed read_ipv6_full by (simp add: show_ipv6_def Let_def)
next
  case (Some v4)
  then show ?thesis
    using read_ipv6_mapped [of v4] by (simp add: show_ipv6_def to_ipv4_mapped_Some)
qed

lemma read_ipv4_show_ipv6: "read_ipv4 (show_ipv6 a) = None"
proof (cases "to_ipv4_mapped a")
  case None
  then show ?thesis
    by (auto simp: show_ipv6_def Let_def split: prod.splits intro!: read_ipv4_no_dot)
next
  case (Some v4)
  then show ?thesis
    by (simp add: show_ipv6_def read_ipv4_def read_octet_def read_separator_def read_number_stops)
qed

text \<open>Printing an address and parsing the text gives the same address, so a decision taken on the
  text of a client address is a decision on the address.\<close>

lemma parse_show_ip [simp]: "parse_ip (show_ip ip) = Some ip"
  using read_ipv4_show [of "[]"] read_ipv6_show read_ipv4_show_ipv6
  by (cases ip) (simp_all add: parse_ip_def)

lemma show_ip_inj [simp]: "show_ip a = show_ip b \<longleftrightarrow> a = b"
  by (metis option.inject parse_show_ip)

lemma read_groups_Nil: "read_groups n 0 [] = ([], False, [])"
  by (cases n) (simp_all add: read_separator_def read_number_stops read_ipv4_no_dot)

lemma parse_ip_Nil [simp]: "parse_ip [] = None"
  by (simp add: parse_ip_def read_ipv4_no_dot read_ipv6_def read_groups_Nil read_given_char_def)

end
