(* ===== verification/Rate_Limit.thy ===== *)
theory Rate_Limit
  imports Tables Ip_Text
begin

text \<open>
  The per-client rate limits of \<open>crates/server/src/rate_limit.rs\<close>. The limiter of one key is
  the \<open>governor\<close> crate: the parameter \<open>gov\<close>, a fresh limiter for a quota and one check at a
  time, which answers and changes the limiter. Times are nanoseconds since the epoch; an
  operation reads the clock at one instant.
\<close>

unbundle bit_operations_syntax

section \<open>One tier\<close>

definition MAX_LIMITER_ENTRIES :: nat where
  "MAX_LIMITER_ENTRIES = 2000"

definition MAX_LIMITER_IDLE_SECS :: nat where
  "MAX_LIMITER_IDLE_SECS = 900"

definition epoch_secs :: "nat \<Rightarrow> nat" where
  "epoch_secs now = now div 1000000000"

record 'l entry =
  limiter :: 'l
  last_seen_epoch :: nat

record ('q, 'l) rate_tier =
  quota :: 'q
  clients :: "(string \<times> 'l entry) list"

record ('q, 'l) governor =
  direct :: "'q \<Rightarrow> 'l"
  gov_check :: "nat \<Rightarrow> 'l \<Rightarrow> bool \<times> 'l"
  mk_quota :: "nat \<Rightarrow> nat \<Rightarrow> 'q"

definition rate_tier_new :: "('q, 'l) governor \<Rightarrow> nat \<Rightarrow> nat \<Rightarrow> ('q, 'l) rate_tier" where
  "rate_tier_new gov per_minute burst =
     \<lparr>quota = mk_quota gov (max per_minute 1) (max burst 1), clients = []\<rparr>"

definition cleanup_stale :: "nat \<Rightarrow> ('q, 'l) rate_tier \<Rightarrow> ('q, 'l) rate_tier" where
  "cleanup_stale now t =
     t\<lparr>clients := filter (\<lambda>(_, e). epoch_secs now - last_seen_epoch e \<le> MAX_LIMITER_IDLE_SECS) (clients t)\<rparr>"

definition make_room :: "nat \<Rightarrow> ('q, 'l) rate_tier \<Rightarrow> ('q, 'l) rate_tier" where
  "make_room now t =
     (if length (clients t) < MAX_LIMITER_ENTRIES then t
      else let t1 = cleanup_stale now t
           in if length (clients t1) < MAX_LIMITER_ENTRIES then t1
              else case min_by_key (\<lambda>(_, e). last_seen_epoch e) (clients t1) of
                     Some (key, _) \<Rightarrow> t1\<lparr>clients := AList.delete key (clients t1)\<rparr>
                   | None \<Rightarrow> t1)"

text \<open>\<open>RateTier::check\<close>: the limiter state is shared through the map's \<open>Arc\<close>, so the check
  updates the entry in place.\<close>

definition rate_check :: "('q, 'l) governor \<Rightarrow> nat \<Rightarrow> string \<Rightarrow> ('q, 'l) rate_tier \<Rightarrow> bool \<times> ('q, 'l) rate_tier" where
  "rate_check gov now key t =
     (let (l, t1) = (case map_of (clients t) key of
            Some e \<Rightarrow> (limiter e, t)
          | None \<Rightarrow> (direct gov (quota t), make_room now t));
          (ok, l') = gov_check gov now l
      in (ok, t1\<lparr>clients := AList.update key \<lparr>limiter = l', last_seen_epoch = epoch_secs now\<rparr> (clients t1)\<rparr>))"

section \<open>The two tiers\<close>

record ('q, 'l) rate_limiter =
  general :: "('q, 'l) rate_tier"
  auth_tier :: "('q, 'l) rate_tier"

definition rate_limiter_default :: "('q, 'l) governor \<Rightarrow> ('q, 'l) rate_limiter" where
  "rate_limiter_default gov =
     \<lparr>general = rate_tier_new gov 500 220, auth_tier = rate_tier_new gov 40 15\<rparr>"

definition rate_limiter_cleanup :: "nat \<Rightarrow> ('q, 'l) rate_limiter \<Rightarrow> ('q, 'l) rate_limiter" where
  "rate_limiter_cleanup now r =
     r\<lparr>general := cleanup_stale now (general r), auth_tier := cleanup_stale now (auth_tier r)\<rparr>"

section \<open>Keys\<close>

text \<open>\<open>u128::from(v6)\<close> and \<open>Ipv6Addr::from(u128)\<close>.\<close>

fun v6_bits :: "ipv6 \<Rightarrow> u128" where
  "v6_bits (Ipv6 a b c d e f g h) =
     push_bit 112 (ucast a) OR push_bit 96 (ucast b) OR push_bit 80 (ucast c) OR push_bit 64 (ucast d)
     OR push_bit 48 (ucast e) OR push_bit 32 (ucast f) OR push_bit 16 (ucast g) OR ucast h"

definition v6_of_bits :: "u128 \<Rightarrow> ipv6" where
  "v6_of_bits w = Ipv6 (ucast (drop_bit 112 w)) (ucast (drop_bit 96 w)) (ucast (drop_bit 80 w))
     (ucast (drop_bit 64 w)) (ucast (drop_bit 48 w)) (ucast (drop_bit 32 w)) (ucast (drop_bit 16 w)) (ucast w)"

definition client_key :: "string \<Rightarrow> string" where
  "client_key client_ip = (case parse_ip client_ip of
       Some (V6 v6) \<Rightarrow>
         (case to_ipv4_mapped v6 of
            Some v4 \<Rightarrow> show_ipv4 v4
          | None \<Rightarrow> show_ipv6 (v6_of_bits (v6_bits v6 AND push_bit 64 (NOT 0))) @ ''/64'')
     | _ \<Rightarrow> client_ip)"

definition is_auth_sensitive_path :: "string \<Rightarrow> bool" where
  "is_auth_sensitive_path path \<longleftrightarrow> prefix ''/api/auth/'' path"

section \<open>Invariant of a tier\<close>

definition tier_ok :: "('q, 'l) rate_tier \<Rightarrow> bool" where
  "tier_ok t \<longleftrightarrow> distinct_keys (clients t) \<and> length (clients t) \<le> MAX_LIMITER_ENTRIES"

datatype tier_event = Check_key nat string | Cleanup nat

inductive tier_step :: "('q, 'l) governor \<Rightarrow> ('q, 'l) rate_tier \<Rightarrow> tier_event \<Rightarrow> ('q, 'l) rate_tier \<Rightarrow> bool"
  for gov where
  check: "rate_check gov now key t = (ok, t') \<Longrightarrow> tier_step gov t (Check_key now key) t'"
| cleanup: "tier_step gov t (Cleanup now) (cleanup_stale now t)"

lemma cleanup_stale_ok: "tier_ok t \<Longrightarrow> tier_ok (cleanup_stale now t)"
  by (auto simp: tier_ok_def cleanup_stale_def intro: order_trans [OF length_filter_le])

lemma make_room_ok:
  assumes "tier_ok t"
  shows "tier_ok (make_room now t) \<and> length (clients (make_room now t)) < MAX_LIMITER_ENTRIES"
proof -
  let ?t1 = "cleanup_stale now t"
  have t1: "tier_ok ?t1" using assms by (rule cleanup_stale_ok)
  show ?thesis
  proof (cases "length (clients t) < MAX_LIMITER_ENTRIES \<or> length (clients ?t1) < MAX_LIMITER_ENTRIES")
    case False
    then have "clients ?t1 \<noteq> []" by (auto simp: MAX_LIMITER_ENTRIES_def)
    then obtain key e where m: "min_by_key (\<lambda>(_, e). last_seen_epoch e) (clients ?t1) = Some (key, e)"
      by (cases "min_by_key (\<lambda>(_, e). last_seen_epoch e) (clients ?t1)") auto
    then have "key \<in> keys (clients ?t1)" using min_by_key_Some by force
    moreover have "make_room now t = ?t1\<lparr>clients := AList.delete key (clients ?t1)\<rparr>"
      using m False by (simp add: make_room_def Let_def)
    ultimately show ?thesis
      using t1 False by (simp add: tier_ok_def table_simps distinct_delete MAX_LIMITER_ENTRIES_def) linarith
  qed (use assms t1 in \<open>auto simp: make_room_def Let_def\<close>)
qed

lemma rate_check_eq:
  assumes "rate_check gov now key t = (ok, t')"
  obtains l l' t1 where "gov_check gov now l = (ok, l')"
    and "map_of (clients t) key = None \<longrightarrow> t1 = make_room now t \<and> l = direct gov (quota t)"
    and "\<forall>e. map_of (clients t) key = Some e \<longrightarrow> t1 = t \<and> l = limiter e"
    and "t' = t1\<lparr>clients := AList.update key \<lparr>limiter = l', last_seen_epoch = epoch_secs now\<rparr> (clients t1)\<rparr>"
  using assms by (cases "map_of (clients t) key") (auto simp: rate_check_def split: prod.splits)

lemma rate_check_ok:
  assumes "tier_ok t" and "rate_check gov now key t = (ok, t')"
  shows "tier_ok t'"
  using assms(2)
proof (rule rate_check_eq)
  fix l l' t1
  assume t1: "map_of (clients t) key = None \<longrightarrow> t1 = make_room now t \<and> l = direct gov (quota t)"
    "\<forall>e. map_of (clients t) key = Some e \<longrightarrow> t1 = t \<and> l = limiter e"
    and t': "t' = t1\<lparr>clients := AList.update key \<lparr>limiter = l', last_seen_epoch = epoch_secs now\<rparr> (clients t1)\<rparr>"
  have "tier_ok t1 \<and> (key \<in> keys (clients t1) \<or> length (clients t1) < MAX_LIMITER_ENTRIES)"
    using t1 make_room_ok [OF assms(1), of now] assms(1)
    by (cases "map_of (clients t) key") (auto simp: in_keys_iff)
  then show ?thesis
    unfolding t' tier_ok_def by (auto simp: length_update distinct_update)
qed

interpretation tier_runs: step_invariant "tier_step gov" tier_ok
  by unfold_locales (auto elim!: tier_step.cases intro: rate_check_ok cleanup_stale_ok)

section \<open>Eviction\<close>

lemma make_room_lookup:
  assumes "tier_ok t" and "map_of (clients t) k = Some e"
    and "map_of (clients (make_room now t)) k \<noteq> Some e"
  shows "length (clients t) = MAX_LIMITER_ENTRIES \<and>
    (MAX_LIMITER_IDLE_SECS < epoch_secs now - last_seen_epoch e \<or>
     (\<forall>(j, e') \<in> set (clients t). last_seen_epoch e \<le> last_seen_epoch e'
        \<or> MAX_LIMITER_IDLE_SECS < epoch_secs now - last_seen_epoch e'))"
proof -
  let ?t1 = "cleanup_stale now t"
  have full: "\<not> length (clients t) < MAX_LIMITER_ENTRIES"
    using assms by (auto simp: make_room_def)
  then have len: "length (clients t) = MAX_LIMITER_ENTRIES" using assms(1) by (simp add: tier_ok_def)
  show ?thesis
  proof (cases "MAX_LIMITER_IDLE_SECS < epoch_secs now - last_seen_epoch e")
    case False
    then have kept: "map_of (clients ?t1) k = Some e"
      using assms(1,2) by (auto simp: cleanup_stale_def tier_ok_def map_of_filter)
    then obtain key e1 where m: "min_by_key (\<lambda>(_, e). last_seen_epoch e) (clients ?t1) = Some (key, e1)"
      and room: "make_room now t = ?t1\<lparr>clients := AList.delete key (clients ?t1)\<rparr>"
      using assms(3) full
      by (auto simp: make_room_def Let_def split: if_splits option.splits)
    have "key = k" using room kept assms(3) by (auto simp: map_of_delete split: if_splits)
    moreover have "distinct_keys (clients ?t1)"
      using cleanup_stale_ok [OF assms(1)] by (simp add: tier_ok_def)
    ultimately have "e1 = e"
      using min_by_key_Some [OF m] kept map_of_is_SomeI [of "clients ?t1" k e1] by simp
    then have "\<forall>(j, e') \<in> set (clients ?t1). last_seen_epoch e \<le> last_seen_epoch e'"
      using min_by_key_Some [OF m] by auto
    then show ?thesis using len by (auto simp: cleanup_stale_def)
  qed (use len in simp)
qed

section \<open>Keys of clients\<close>

fun v6_prefix64 :: "ipv6 \<Rightarrow> ipv6" where
  "v6_prefix64 (Ipv6 a b c d _ _ _ _) = Ipv6 a b c d 0 0 0 0"

lemma mask_prefix64: "v6_of_bits (v6_bits v6 AND push_bit 64 (NOT 0)) = v6_prefix64 v6"
proof (cases v6)
  case (Ipv6 a b c d e f g h)
  show ?thesis
    unfolding Ipv6 v6_of_bits_def v6_bits.simps v6_prefix64.simps ipv6.inject
    by (intro conjI; rule bit_word_eqI; auto simp: bit_simps dest: bit_imp_le_length)
qed

lemma show_ipv4_no_slash: "CHR ''/'' \<notin> set (show_ipv4 v4)"
proof (cases v4)
  case (Ipv4 a b c d)
  have "digit_char n \<noteq> CHR ''/''" if "n < 10" for n
    using that to_digit_digit_char [of n 10] by (auto simp: to_digit_def byte_of_def)
  then have "CHR ''/'' \<notin> set (show_nat n)" for n
    using set_show_radix [of 10 n] by fastforce
  then show ?thesis using Ipv4 by simp
qed

text \<open>The budget an address draws on: its IPv4 form, or its /64.\<close>

datatype budget = Whole ipv4 | Net64 u16 u16 u16 u16

fun budget_of :: "ip_addr \<Rightarrow> budget" where
  "budget_of (V4 a) = Whole a"
| "budget_of (V6 (Ipv6 a b c d e f g h)) =
     (case to_ipv4_mapped (Ipv6 a b c d e f g h) of Some v4 \<Rightarrow> Whole v4 | None \<Rightarrow> Net64 a b c d)"

lemma client_key_show:
  "client_key (show_ip ip) = (case budget_of ip of
     Whole v4 \<Rightarrow> show_ipv4 v4 | Net64 a b c d \<Rightarrow> show_ipv6 (Ipv6 a b c d 0 0 0 0) @ ''/64'')"
proof (cases ip)
  case (V6 v6)
  have "client_key (show_ip (V6 v6)) = (case to_ipv4_mapped v6 of
      Some v4 \<Rightarrow> show_ipv4 v4 | None \<Rightarrow> show_ipv6 (v6_prefix64 v6) @ ''/64'')"
    unfolding client_key_def mask_prefix64 parse_show_ip by simp
  then show ?thesis
    unfolding V6 by (cases v6) (simp del: to_ipv4_mapped.simps show_ip.simps split: option.splits)
next
  case (V4 v4)
  then show ?thesis unfolding client_key_def parse_show_ip by simp
qed

text \<open>A limiter for the concrete runs: a counter of the burst, never refilled.\<close>

definition burst_counter :: "(nat, nat) governor" where
  "burst_counter = \<lparr>direct = (\<lambda>q. q), gov_check = (\<lambda>_ l. (0 < l, l - 1)), mk_quota = (\<lambda>_ burst. burst)\<rparr>"

section \<open>Properties\<close>

text \<open>However many clients call, a tier never holds more than 2000 limiters, one per key.\<close>

theorem rate_tier_capped:
  assumes "run (tier_step gov) (rate_tier_new gov per_minute burst) tr t"
  shows "length (clients t) \<le> 2000 \<and> distinct_keys (clients t)"
  using tier_runs.run_inv [OF assms]
  by (simp add: tier_ok_def rate_tier_new_def MAX_LIMITER_ENTRIES_def)

theorem rate_tier_capped_witness:
  "run (tier_step burst_counter) (rate_tier_new burst_counter 500 220) [Cleanup 7]
     (cleanup_stale 7 (rate_tier_new burst_counter 500 220))
   \<and> length (clients (cleanup_stale 7 (rate_tier_new burst_counter 500 220))) \<le> 2000"
proof -
  let ?t = "rate_tier_new burst_counter 500 220"
  have r: "run (tier_step burst_counter) ?t [Cleanup 7] (cleanup_stale 7 ?t)"
    by (rule run_single, rule tier_step.cleanup)
  then show ?thesis using rate_tier_capped [OF r] by blast
qed

text \<open>(C34) A check spends only the caller's own budget: the answer is that of the caller's own
  limiter (a fresh one for an unknown key), and any other key keeps its limiter untouched,
  unless the table was full and that key was idle for over 900 seconds or the longest unseen
  of those that were not.\<close>

theorem rate_check_isolated:
  assumes "tier_ok t" and "rate_check gov now key t = (ok, t')"
  shows "ok = fst (gov_check gov now (case map_of (clients t) key of
        Some e \<Rightarrow> limiter e | None \<Rightarrow> direct gov (quota t)))
    \<and> (\<forall>k e. k \<noteq> key \<longrightarrow> map_of (clients t) k = Some e \<longrightarrow>
        map_of (clients t') k = Some e \<or>
        length (clients t) = 2000 \<and> map_of (clients t) key = None \<and>
        (900 < epoch_secs now - last_seen_epoch e \<or>
         (\<forall>(j, e') \<in> set (clients t). last_seen_epoch e \<le> last_seen_epoch e'
            \<or> 900 < epoch_secs now - last_seen_epoch e')))"
  using assms(2)
proof (rule rate_check_eq)
  fix l l' t1
  assume g: "gov_check gov now l = (ok, l')"
    and t1: "map_of (clients t) key = None \<longrightarrow> t1 = make_room now t \<and> l = direct gov (quota t)"
    "\<forall>e. map_of (clients t) key = Some e \<longrightarrow> t1 = t \<and> l = limiter e"
    and t': "t' = t1\<lparr>clients := AList.update key \<lparr>limiter = l', last_seen_epoch = epoch_secs now\<rparr> (clients t1)\<rparr>"
  have "map_of (clients t') k = map_of (clients t1) k" if "k \<noteq> key" for k
    using that by (simp add: t' map_of_update)
  moreover note make_room_lookup [OF assms(1), unfolded MAX_LIMITER_ENTRIES_def MAX_LIMITER_IDLE_SECS_def]
  ultimately show ?thesis
    using g t1 by (cases "map_of (clients t) key") (simp, blast, simp)
qed

theorem rate_check_isolated_witness:
  "fst (rate_check burst_counter 0 ''203.0.113.9'' (rate_tier_new burst_counter 40 15))"
proof -
  have "tier_ok (rate_tier_new burst_counter 40 15)" by (simp add: tier_ok_def rate_tier_new_def)
  moreover obtain ok t' where "rate_check burst_counter 0 ''203.0.113.9'' (rate_tier_new burst_counter 40 15) = (ok, t')"
    by fastforce
  ultimately show ?thesis
    using rate_check_isolated [of "rate_tier_new burst_counter 40 15" burst_counter 0 "''203.0.113.9''" ok t']
    by (simp add: rate_tier_new_def burst_counter_def)
qed

text \<open>Two clients share a budget exactly when they have the same IPv4 address (also in mapped
  form) or the same IPv6 /64: no client gets a second budget by re-encoding its address or by
  moving inside its /64.\<close>

theorem client_key_budget:
  "client_key (show_ip a) = client_key (show_ip b) \<longleftrightarrow> budget_of a = budget_of b"
proof -
  have v4: "show_ipv4 v = show_ipv4 w \<longleftrightarrow> v = w" for v w
    using show_ip_inj [of "V4 v" "V4 w"] by simp
  have v6: "show_ipv6 v = show_ipv6 w \<longleftrightarrow> v = w" for v w
    using show_ip_inj [of "V6 v" "V6 w"] by simp
  have "show_ipv4 v \<noteq> s @ ''/64''" for v s
    using show_ipv4_no_slash [of v] by auto
  then show ?thesis
    by (auto simp: client_key_show v4 v6 split: budget.splits) metis+
qed

end
