(* ===== verification/Auth.thy ===== *)
theory Auth
  imports Prelude Tables "HOL-Library.Multiset"
begin

text \<open>
  The admin sessions of \<open>crates/server/src/auth.rs\<close>. Times are nanoseconds since the epoch and
  an operation reads the clock at one instant; the random session ids and tokens it draws are
  arguments. The constant-time comparison (\<open>subtle\<close>) and the password hash (\<open>argon2\<close>) are
  parameters.
\<close>

section \<open>Sessions\<close>

definition SESSION_IDLE_TTL_SECS :: nat where
  "SESSION_IDLE_TTL_SECS = 300"

definition SESSION_ABSOLUTE_TTL_SECS :: nat where
  "SESSION_ABSOLUTE_TTL_SECS = 28800"

definition MAX_ADMIN_SESSIONS :: nat where
  "MAX_ADMIN_SESSIONS = 1000"

definition ADMIN_PASSWORD_MIN_LEN :: nat where
  "ADMIN_PASSWORD_MIN_LEN = 12"

definition ADMIN_PASSWORD_MAX_LEN :: nat where
  "ADMIN_PASSWORD_MAX_LEN = 128"

record admin_session =
  csrf_token :: string
  created_at :: nat
  last_access :: nat

type_synonym auth_service = "(string \<times> admin_session) list"

text \<open>\<open>duration_since\<close> of a later time is an error, read as zero; \<open>as_secs\<close> rounds down.\<close>

definition elapsed_secs_since :: "nat \<Rightarrow> nat \<Rightarrow> nat" where
  "elapsed_secs_since now timestamp = (now - timestamp) div 1000000000"

definition admin_session_expired :: "nat \<Rightarrow> admin_session \<Rightarrow> bool" where
  "admin_session_expired now s \<longleftrightarrow>
     SESSION_IDLE_TTL_SECS < elapsed_secs_since now (last_access s)
     \<or> SESSION_ABSOLUTE_TTL_SECS < elapsed_secs_since now (created_at s)"

definition cleanup_expired :: "nat \<Rightarrow> auth_service \<Rightarrow> auth_service" where
  "cleanup_expired now svc = filter (\<lambda>(_, s). \<not> admin_session_expired now s) svc"

definition sessions_make_room :: "nat \<Rightarrow> auth_service \<Rightarrow> auth_service" where
  "sessions_make_room now svc =
     (if length svc < MAX_ADMIN_SESSIONS then svc
      else let svc1 = cleanup_expired now svc;
               excess = (length svc1 + 1) - MAX_ADMIN_SESSIONS;
               oldest = sort_key snd (map (\<lambda>(k, s). (k, last_access s)) svc1)
           in foldl (\<lambda>m (key, _). AList.delete key m) svc1 (take excess oldest))"

definition create_admin_session ::
  "nat \<Rightarrow> string \<Rightarrow> string \<Rightarrow> auth_service \<Rightarrow> (string \<times> string) \<times> auth_service" where
  "create_admin_session now session_id token svc =
     ((session_id, token), AList.update session_id
        \<lparr>csrf_token = token, created_at = now, last_access = now\<rparr> (sessions_make_room now svc))"

definition validate_admin_session :: "nat \<Rightarrow> string \<Rightarrow> auth_service \<Rightarrow> bool \<times> auth_service" where
  "validate_admin_session now session_id svc =
     (case map_of svc session_id of
        Some s \<Rightarrow>
          if admin_session_expired now s then (False, AList.delete session_id svc)
          else (True, AList.update session_id (s\<lparr>last_access := now\<rparr>) svc)
      | None \<Rightarrow> (False, svc))"

definition constant_time_eq :: "(byte list \<Rightarrow> byte list \<Rightarrow> bool) \<Rightarrow> byte list \<Rightarrow> byte list \<Rightarrow> bool" where
  "constant_time_eq ct_eq a b \<longleftrightarrow> length a = length b \<and> ct_eq a b"

definition validate_admin_csrf ::
  "(byte list \<Rightarrow> byte list \<Rightarrow> bool) \<Rightarrow> nat \<Rightarrow> string \<Rightarrow> string \<Rightarrow> auth_service \<Rightarrow> bool" where
  "validate_admin_csrf ct_eq now session_id token svc \<longleftrightarrow>
     (case map_of svc session_id of
        Some s \<Rightarrow> \<not> admin_session_expired now s
                  \<and> constant_time_eq ct_eq (as_bytes (csrf_token s)) (as_bytes token)
      | None \<Rightarrow> False)"

section \<open>Passwords\<close>

text \<open>Argon2id as the library has it: hashing may fail, verifying reads the parameters out of the
  stored string. A task that panics or is cancelled yields \<open>None\<close> of \<open>spawn_blocking\<close>.\<close>

record argon2 =
  argon2_hash :: "byte list \<Rightarrow> string + string"
  argon2_verify :: "byte list \<Rightarrow> string \<Rightarrow> bool"

definition hash_password :: "argon2 \<Rightarrow> string \<Rightarrow> string + string" where
  "hash_password a password =
     (case argon2_hash a (as_bytes password) of
        Inl e \<Rightarrow> Inl (''Password hashing failed: '' @ e)
      | Inr h \<Rightarrow> Inr h)"

definition hash_password_async :: "argon2 \<Rightarrow> string option \<Rightarrow> string \<Rightarrow> string + string" where
  "hash_password_async a join_error password =
     (case join_error of
        Some e \<Rightarrow> Inl (''Password hashing task failed: '' @ e)
      | None \<Rightarrow> hash_password a password)"

definition verify_password_hash :: "argon2 \<Rightarrow> string \<Rightarrow> string \<Rightarrow> bool" where
  "verify_password_hash a password hash = argon2_verify a (as_bytes password) hash"

definition verify_password_async :: "argon2 \<Rightarrow> bool \<Rightarrow> string option \<Rightarrow> string \<Rightarrow> string \<Rightarrow> bool" where
  "verify_password_async a permit join_error password hash =
     (permit \<and> join_error = None \<and> verify_password_hash a password hash)"

section \<open>Invariant\<close>

definition sessions_ok :: "auth_service \<Rightarrow> bool" where
  "sessions_ok svc \<longleftrightarrow> distinct_keys svc \<and> length svc \<le> MAX_ADMIN_SESSIONS"

lemma cleanup_expired_ok: "sessions_ok svc \<Longrightarrow> sessions_ok (cleanup_expired now svc)"
  by (auto simp: sessions_ok_def cleanup_expired_def intro: order_trans [OF length_filter_le])

lemma map_of_delete_all: "map_of (foldl (\<lambda>m (key, _). AList.delete key m) svc ks) k
    = (if k \<in> fst ` set ks then None else map_of svc k)"
  by (induction ks arbitrary: svc) (auto simp: map_of_delete)

lemma distinct_delete_all: "distinct_keys svc \<Longrightarrow>
    distinct_keys (foldl (\<lambda>m (key, _). AList.delete key m) svc ks)"
  by (induction ks arbitrary: svc) (auto simp: distinct_delete)

lemma length_delete_all: "distinct_keys svc \<Longrightarrow> distinct (map fst ks) \<Longrightarrow> fst ` set ks \<subseteq> keys svc \<Longrightarrow>
    length (foldl (\<lambda>m (key, _). AList.delete key m) svc ks) + length ks = length svc"
proof (induction ks arbitrary: svc)
  case (Cons p ks)
  then have mem: "fst p \<in> keys svc" and pos: "0 < length svc" by (auto simp: length_greater_0_conv)
  have "fst ` set ks \<subseteq> keys (AList.delete (fst p) svc)"
    using Cons.prems(2,3) by (simp add: subset_Diff_insert)
  then have "length (foldl (\<lambda>m (key, _). AList.delete key m) (AList.delete (fst p) svc) ks) + length ks
      = length (AList.delete (fst p) svc)"
    using Cons.IH [of "AList.delete (fst p) svc"] Cons.prems by (simp add: distinct_delete)
  then show ?case using mem pos Cons.prems(1) by (simp add: split_def length_delete)
qed simp

text \<open>The table after room was made: below the cap, and a session that went away was expired or,
  of the sessions that were not, used no later than every one that stayed.\<close>

lemma sessions_make_room_ok:
  assumes "sessions_ok svc"
  shows "sessions_ok (sessions_make_room now svc) \<and> length (sessions_make_room now svc) < MAX_ADMIN_SESSIONS"
proof (cases "length svc < MAX_ADMIN_SESSIONS")
  case False
  let ?svc = "cleanup_expired now svc"
  let ?old = "sort_key snd (map (\<lambda>(k, s). (k, last_access s)) ?svc)"
  let ?x = "(length ?svc + 1) - MAX_ADMIN_SESSIONS"
  have ok: "distinct_keys ?svc" "length ?svc \<le> MAX_ADMIN_SESSIONS"
    using cleanup_expired_ok [OF assms] by (auto simp: sessions_ok_def)
  have fsts: "map fst (map (\<lambda>(k, s). (k, last_access s)) ?svc) = map fst ?svc" by auto
  have "distinct (map fst ?old)"
  proof -
    have "mset (map fst ?old) = mset (map fst ?svc)"
      unfolding fsts [symmetric] by (simp only: mset_map mset_sort)
    then show ?thesis using ok(1) by (metis mset_eq_imp_distinct_iff)
  qed
  then have d: "distinct (map fst (take ?x ?old))" by (metis distinct_take take_map)
  have sub: "fst ` set (take ?x ?old) \<subseteq> keys ?svc" using set_take_subset [of ?x ?old] by force
  have "length (take ?x ?old) = ?x" using MAX_ADMIN_SESSIONS_def ok(2) by simp
  then have "length (foldl (\<lambda>m (key, _). AList.delete key m) ?svc (take ?x ?old)) + ?x = length ?svc"
    using length_delete_all [OF ok(1) d sub] by simp
  then show ?thesis
    using False ok distinct_delete_all [OF ok(1)]
    by (auto simp: sessions_ok_def sessions_make_room_def Let_def)
qed (use assms in \<open>simp add: sessions_make_room_def\<close>)

lemma sorted_key_take_le:
  "x \<in> set (take n (sort_key f xs)) \<Longrightarrow> y \<in> set (drop n (sort_key f xs)) \<Longrightarrow> f x \<le> f y"
proof -
  assume x: "x \<in> set (take n (sort_key f xs))" and y: "y \<in> set (drop n (sort_key f xs))"
  have "sorted (map f (take n (sort_key f xs)) @ map f (drop n (sort_key f xs)))"
    by (metis append_take_drop_id map_append sorted_sort_key)
  then show "f x \<le> f y" using x y by (auto simp: sorted_append)
qed

lemma set_take_or_drop: "x \<in> set xs \<Longrightarrow> x \<in> set (take n xs) \<or> x \<in> set (drop n xs)"
  by (metis Un_iff append_take_drop_id set_append)

lemma sessions_make_room_lookup:
  assumes "sessions_ok svc" and "map_of svc k = Some s"
    and "map_of (sessions_make_room now svc) k \<noteq> Some s"
  shows "length svc = MAX_ADMIN_SESSIONS \<and> map_of (sessions_make_room now svc) k = None \<and>
    (admin_session_expired now s \<or>
     (\<forall>j s'. map_of (sessions_make_room now svc) j = Some s' \<longrightarrow> last_access s \<le> last_access s'))"
proof -
  let ?svc = "cleanup_expired now svc"
  let ?old = "sort_key snd (map (\<lambda>(k, s). (k, last_access s)) ?svc)"
  let ?x = "(length ?svc + 1) - MAX_ADMIN_SESSIONS"
  have full: "\<not> length svc < MAX_ADMIN_SESSIONS" using assms(2,3) by (auto simp: sessions_make_room_def)
  then have len: "length svc = MAX_ADMIN_SESSIONS" using assms(1) by (simp add: sessions_ok_def)
  have d: "distinct_keys ?svc" using cleanup_expired_ok [OF assms(1)] by (simp add: sessions_ok_def)
  have room: "map_of (sessions_make_room now svc) j
      = (if j \<in> fst ` set (take ?x ?old) then None else map_of ?svc j)" for j
    using full by (simp add: sessions_make_room_def Let_def map_of_delete_all)
  have clean: "map_of ?svc j = (case map_of svc j of Some v \<Rightarrow>
      if admin_session_expired now v then None else Some v | None \<Rightarrow> None)" for j
    using assms(1) by (simp add: cleanup_expired_def map_of_filter sessions_ok_def split: option.splits)
  show ?thesis
  proof (cases "admin_session_expired now s")
    case True
    then show ?thesis using len room [of k] clean [of k] assms(2) by simp
  next
    case False
    then have kept: "map_of ?svc k = Some s" using clean [of k] assms(2) by simp
    then have gone: "k \<in> fst ` set (take ?x ?old)" using room [of k] assms(3) by (auto split: if_splits)
    then obtain l where l: "(k, l) \<in> set (take ?x ?old)" by auto
    then have "(k, l) \<in> set ?old" using set_take_subset by fastforce
    then obtain s1 where "(k, s1) \<in> set ?svc" "l = last_access s1" by auto
    then have ls: "l = last_access s" using kept map_of_is_SomeI [OF d, of k s1] by simp
    have "last_access s \<le> last_access s'" if "map_of (sessions_make_room now svc) j = Some s'" for j s'
    proof -
      have j: "j \<notin> fst ` set (take ?x ?old)" "map_of ?svc j = Some s'"
        using that room [of j] by (auto split: if_splits)
      then have "(j, s') \<in> set ?svc" by (simp add: map_of_SomeD)
      then have "(j, last_access s') \<in> set ?old" by force
      then have "(j, last_access s') \<in> set (drop ?x ?old)"
        using j(1) set_take_or_drop [of "(j, last_access s')" ?old ?x] by force
      then show ?thesis using sorted_key_take_le [OF l] ls by fastforce
    qed
    then show ?thesis using len gone room [of k] by simp
  qed
qed

section \<open>Histories\<close>

datatype auth_event =
    Create nat string string      \<comment> \<open>a login at a time, with the drawn id and token\<close>
  | Validate nat string
  | Expire nat                    \<comment> \<open>the maintenance tick\<close>

fun auth_next :: "auth_event \<Rightarrow> auth_service \<Rightarrow> auth_service" where
  "auth_next (Create now sid token) svc = snd (create_admin_session now sid token svc)"
| "auth_next (Validate now sid) svc = snd (validate_admin_session now sid svc)"
| "auth_next (Expire now) svc = cleanup_expired now svc"

definition auth_step :: "auth_service \<Rightarrow> auth_event \<Rightarrow> auth_service \<Rightarrow> bool" where
  "auth_step svc e svc' \<longleftrightarrow> svc' = auth_next e svc"

lemma auth_next_ok: "sessions_ok svc \<Longrightarrow> sessions_ok (auth_next e svc)"
proof (cases e)
  case (Create now sid token)
  assume "sessions_ok svc"
  then show ?thesis
    using Create sessions_make_room_ok [of svc now]
    by (auto simp: create_admin_session_def sessions_ok_def length_update distinct_update)
next
  case (Validate now sid)
  assume ok: "sessions_ok svc"
  show ?thesis
  proof (cases "map_of svc sid")
    case (Some s)
    then have "sid \<in> keys svc" by (simp add: in_keys_iff)
    then show ?thesis
      using Validate ok Some order_trans [OF length_delete_le [of sid svc], of MAX_ADMIN_SESSIONS]
      by (simp add: validate_admin_session_def sessions_ok_def length_update distinct_update
          distinct_delete)
  qed (use Validate ok in \<open>simp add: validate_admin_session_def\<close>)
qed (simp add: cleanup_expired_ok)

interpretation auth_runs: step_invariant auth_step sessions_ok
  by unfold_locales (simp add: auth_step_def auth_next_ok)

text \<open>What a history without another \<open>Create\<close> of the id keeps: the session of that id, as long as
  it is there, has the creation time and the token it was created with.\<close>

definition issued :: "string \<Rightarrow> nat \<Rightarrow> string \<Rightarrow> auth_service \<Rightarrow> bool" where
  "issued sid t token svc \<longleftrightarrow>
     (\<forall>s. map_of svc sid = Some s \<longrightarrow> created_at s = t \<and> csrf_token s = token)"

fun not_created :: "string \<Rightarrow> auth_event \<Rightarrow> bool" where
  "not_created sid (Create _ sid' _) \<longleftrightarrow> sid' \<noteq> sid"
| "not_created sid _ \<longleftrightarrow> True"

lemma sessions_make_room_sub:
  "sessions_ok svc \<Longrightarrow> map_of (sessions_make_room now svc) k = Some s \<Longrightarrow> map_of svc k = Some s"
  by (auto simp: sessions_make_room_def Let_def map_of_delete_all cleanup_expired_def map_of_filter
      sessions_ok_def split: if_splits option.splits)

lemma validate_lookup:
  assumes "map_of (snd (validate_admin_session now sid' svc)) sid = Some s"
  shows "\<exists>s0. map_of svc sid = Some s0 \<and> created_at s = created_at s0 \<and> csrf_token s = csrf_token s0"
proof (cases "map_of svc sid'")
  case (Some s1)
  then show ?thesis
    using assms by (cases "admin_session_expired now s1"; cases "sid' = sid")
      (auto simp add: validate_admin_session_def map_of_update map_of_delete)
qed (use assms in \<open>simp add: validate_admin_session_def\<close>)

lemma cleanup_lookup:
  assumes "sessions_ok svc" and "map_of (cleanup_expired now svc) sid = Some s"
  shows "map_of svc sid = Some s"
  using assms by (cases "map_of svc sid")
    (auto simp add: cleanup_expired_def map_of_filter sessions_ok_def split: if_splits)

lemma issued_step:
  assumes "sessions_ok svc \<and> issued sid t token svc" and "not_created sid e"
  shows "sessions_ok (auth_next e svc) \<and> issued sid t token (auth_next e svc)"
proof -
  have i: "map_of svc sid = Some s \<Longrightarrow> created_at s = t \<and> csrf_token s = token" for s
    using assms(1) by (simp add: issued_def)
  have "issued sid t token (auth_next e svc)"
  proof (cases e)
    case (Create now sid' token')
    then have "map_of (auth_next e svc) sid = map_of (sessions_make_room now svc) sid"
      using assms(2) by (simp add: create_admin_session_def map_of_update)
    then show ?thesis
      unfolding issued_def using sessions_make_room_sub [OF conjunct1 [OF assms(1)]] i by metis
  next
    case (Validate now sid')
    show ?thesis unfolding Validate issued_def auth_next.simps using validate_lookup i by metis
  next
    case (Expire now)
    show ?thesis
      unfolding Expire issued_def auth_next.simps using cleanup_lookup [OF conjunct1 [OF assms(1)]] i by metis
  qed
  then show ?thesis using assms auth_next_ok by blast
qed

interpretation issued_runs: step_invariant "\<lambda>svc e svc'. not_created sid e \<and> svc' = auth_next e svc"
    "\<lambda>svc. sessions_ok svc \<and> issued sid t token svc"
  by unfold_locales (use issued_step in blast)

section \<open>Properties\<close>

text \<open>The session table never holds more than 1000 sessions, one per id, whatever the logins,
  validations and maintenance ticks. A login evicts another session only when the table is
  full, and then an expired one, or one used no later than every session that stays.\<close>

theorem admin_sessions_capped:
  assumes "run auth_step [] tr svc"
  shows "length svc \<le> 1000 \<and> distinct_keys svc \<and>
    (\<forall>now sid token k s. k \<noteq> sid \<longrightarrow> map_of svc k = Some s \<longrightarrow>
       map_of (snd (create_admin_session now sid token svc)) k = Some s \<or>
       length svc = 1000 \<and> (admin_session_expired now s \<or>
         (\<forall>j s'. j \<noteq> sid \<longrightarrow> map_of (snd (create_admin_session now sid token svc)) j = Some s' \<longrightarrow>
            last_access s \<le> last_access s')))"
proof -
  have ok: "sessions_ok svc"
    using auth_runs.run_inv [OF assms] by (simp add: sessions_ok_def)
  have look: "j \<noteq> sid \<Longrightarrow> map_of (snd (create_admin_session now sid token svc)) j
      = map_of (sessions_make_room now svc) j" for j sid now token
    by (simp add: create_admin_session_def map_of_update)
  have "length svc \<le> 1000 \<and> distinct_keys svc" using ok by (simp add: sessions_ok_def MAX_ADMIN_SESSIONS_def)
  moreover have "map_of (snd (create_admin_session now sid token svc)) k = Some s \<or>
       length svc = 1000 \<and> (admin_session_expired now s \<or>
         (\<forall>j s'. j \<noteq> sid \<longrightarrow> map_of (snd (create_admin_session now sid token svc)) j = Some s' \<longrightarrow>
            last_access s \<le> last_access s'))" if "k \<noteq> sid" "map_of svc k = Some s" for now sid token k s
    using sessions_make_room_lookup [OF ok that(2), of now] that(1)
    by (auto simp: look MAX_ADMIN_SESSIONS_def)
  ultimately show ?thesis by blast
qed

theorem admin_sessions_capped_witness:
  "run auth_step [] [Create 0 ''s1'' ''t1''] (auth_next (Create 0 ''s1'' ''t1'') [])
   \<and> length (auth_next (Create 0 ''s1'' ''t1'') []) \<le> 1000"
proof -
  have r: "run auth_step [] [Create 0 ''s1'' ''t1''] (auth_next (Create 0 ''s1'' ''t1'') [])"
    by (rule run_single) (simp add: auth_step_def)
  then show ?thesis using admin_sessions_capped [OF r] by blast
qed

text \<open>(C35) A session never outlives its absolute limit, however it is used: once more than 28800 whole
  seconds have passed since it was created, neither the id nor its token is accepted, unless
  the id is issued again.\<close>

theorem session_absolute_limit:
  assumes "sessions_ok svc"
    and "run (\<lambda>svc e svc'. not_created sid e \<and> svc' = auth_next e svc)
      (snd (create_admin_session t0 sid token svc)) tr svc'"
    and "28800 < (now - t0) div 1000000000"
  shows "\<not> fst (validate_admin_session now sid svc') \<and> \<not> validate_admin_csrf ct_eq now sid tok svc'"
proof -
  have "sessions_ok (snd (create_admin_session t0 sid token svc)) \<and>
      issued sid t0 token (snd (create_admin_session t0 sid token svc))"
    using auth_next_ok [OF assms(1), of "Create t0 sid token"]
    by (simp add: issued_def create_admin_session_def map_of_update)
  then have "issued sid t0 token svc'" using issued_runs.run_inv [OF assms(2)] by blast
  then show ?thesis
    using assms(3)
    by (auto simp: issued_def validate_admin_session_def validate_admin_csrf_def admin_session_expired_def
        elapsed_secs_since_def SESSION_ABSOLUTE_TTL_SECS_def split: option.splits)
qed

theorem session_absolute_limit_witness:
  "\<not> fst (validate_admin_session 28802000000000 ''s1''
      (snd (create_admin_session 1000000000 ''s1'' ''t1'' [])))"
  using session_absolute_limit [OF _ run_Nil, of "[]" 28802000000000 1000000000 "''s1''" "''t1''"]
  by (simp add: sessions_ok_def) 

text \<open>A request passes the CSRF check only with the token issued to that very session: after a
  login, and any history in which the id is not issued again, the only token accepted for the
  id is the one returned by the login, and it is accepted at once.\<close>

theorem csrf_token_bound:
  assumes "sessions_ok svc" and "\<forall>a b. length a = length b \<longrightarrow> ct_eq a b = (a = b)"
    and "create_admin_session t0 sid token svc = (issued_pair, svc0)"
    and "run (\<lambda>svc e svc'. not_created sid e \<and> svc' = auth_next e svc) svc0 tr svc'"
  shows "issued_pair = (sid, token) \<and> validate_admin_csrf ct_eq t0 sid token svc0 \<and>
    (validate_admin_csrf ct_eq now sid tok svc' \<longrightarrow> tok = token)"
proof -
  have svc0: "svc0 = snd (create_admin_session t0 sid token svc)" using assms(3) by simp
  then have "sessions_ok svc0 \<and> issued sid t0 token svc0"
    using auth_next_ok [OF assms(1), of "Create t0 sid token"]
    by (simp add: issued_def create_admin_session_def map_of_update)
  then have "issued sid t0 token svc'" using issued_runs.run_inv [OF assms(4)] by blast
  then show ?thesis
    using assms(2,3)
    by (auto simp: issued_def validate_admin_csrf_def constant_time_eq_def create_admin_session_def
        map_of_update admin_session_expired_def elapsed_secs_since_def split: option.splits)
qed

theorem csrf_token_bound_witness:
  "validate_admin_csrf (=) 5 ''s1'' ''t1'' (snd (create_admin_session 5 ''s1'' ''t1'' []))"
  using csrf_token_bound [OF _ _ prod.collapse [symmetric] run_Nil, of "[]" "(=)" 5 "''s1''" "''t1''"]
  by (simp add: sessions_ok_def)

end
