(* ===== verification/Allowlist.thy ===== *)
theory Allowlist
  imports Ip_Text
begin

text \<open>
  The client allowlists of \<open>crates/server/src/allowlist.rs\<close>. Address blocks are the \<open>ipnet\<close>
  crate: the parameter \<open>net\<close>, with its parser, the block of one address, and membership.
\<close>

record 'n ipnet =
  net_parse :: "string \<Rightarrow> 'n option"
  net_of_ip :: "ip_addr \<Rightarrow> 'n"
  net_contains :: "'n \<Rightarrow> ip_addr \<Rightarrow> bool"

definition parse_entry :: "'n ipnet \<Rightarrow> string \<Rightarrow> string + 'n" where
  "parse_entry net entry =
     ok_or (case net_parse net entry of Some n \<Rightarrow> Some n | None \<Rightarrow> map_option (net_of_ip net) (parse_ip entry))
       (''invalid client allowlist entry: '' @ entry)"

text \<open>\<open>collect\<close> into a \<open>Result\<close>: the first error, or all the values.\<close>

fun collect_results :: "('e + 'a) list \<Rightarrow> 'e + 'a list" where
  "collect_results [] = Inr []"
| "collect_results (r # rs) = and_then r (\<lambda>x. and_then (collect_results rs) (\<lambda>xs. Inr (x # xs)))"

definition parse_allowlist :: "'n ipnet \<Rightarrow> string list \<Rightarrow> string + 'n list" where
  "parse_allowlist net entries =
     collect_results (map (parse_entry net) (filter (\<lambda>entry. entry \<noteq> []) (map trim entries)))"

definition admits :: "'n ipnet \<Rightarrow> 'n list \<Rightarrow> ip_addr \<Rightarrow> bool" where
  "admits net allowlist client \<longleftrightarrow>
     allowlist = [] \<or> (\<exists>n \<in> set allowlist. net_contains net n (to_canonical client))"

section \<open>Lemmas\<close>

lemma collect_results_Inr: "collect_results rs = Inr xs \<longleftrightarrow> rs = map Inr xs"
  by (induction rs arbitrary: xs) (auto simp: and_then_eq_Inr)

lemma parse_entry_Inl: "parse_entry net e = Inl m \<longleftrightarrow>
    net_parse net e = None \<and> parse_ip e = None \<and> m = ''invalid client allowlist entry: '' @ e"
  by (auto simp: parse_entry_def ok_or_eq_Inl split: option.splits)

lemma collect_entries_Inl:
  "collect_results (map (parse_entry net) (filter (\<lambda>e. e \<noteq> []) es)) = Inl m \<longleftrightarrow>
     (\<exists>bad. find (\<lambda>e. e \<noteq> [] \<and> net_parse net e = None \<and> parse_ip e = None) es = Some bad
        \<and> m = ''invalid client allowlist entry: '' @ bad)"
proof (induction es)
  case (Cons e es)
  consider "e = []" | m' where "e \<noteq> []" "parse_entry net e = Inl m'"
    | n where "e \<noteq> []" "parse_entry net e = Inr n"
    by (cases "parse_entry net e") auto
  then show ?case
  proof cases
    case (2 m')
    from 2(2) have "net_parse net e = None" "parse_ip e = None"
      and m': "m' = ''invalid client allowlist entry: '' @ e" by (simp_all only: parse_entry_Inl)
    then show ?thesis using 2 by (simp only: list.map filter.simps find.simps collect_results.simps
        and_then_simps m') auto
  next
    case (3 n)
    then have "\<not> (net_parse net e = None \<and> parse_ip e = None)"
      by (auto simp: parse_entry_def ok_or_eq_Inr split: option.splits)
    then show ?thesis using 3 Cons by (auto simp: and_then_eq_Inl)
  qed (simp add: Cons)
qed simp

text \<open>The documented behaviour of \<open>ipnet\<close>: the block of one address contains that address only.\<close>

definition host_blocks :: "'n ipnet \<Rightarrow> bool" where
  "host_blocks net \<longleftrightarrow> (\<forall>a b. net_contains net (net_of_ip net a) b \<longleftrightarrow> a = b)"

text \<open>Blocks for the concrete runs: single addresses.\<close>

definition single_ips :: "ip_addr ipnet" where
  "single_ips = \<lparr>net_parse = (\<lambda>_. None), net_of_ip = (\<lambda>a. a), net_contains = (=)\<rparr>"

section \<open>Properties\<close>



text \<open>The verdict of an allowlist does not depend on how a dual-stack listener reports an IPv4
  peer, and an allowlist text is refused with the first entry that is neither blank, a block
  nor an address.\<close>

theorem allowlist_mapped_and_errors:
  "admits net nets (V6 (mapped v4)) = admits net nets (V4 v4)
   \<and> (parse_allowlist net entries = Inl msg \<longleftrightarrow>
       (\<exists>bad. find (\<lambda>e. e \<noteq> [] \<and> net_parse net e = None \<and> parse_ip e = None) (map trim entries) = Some bad
          \<and> msg = ''invalid client allowlist entry: '' @ bad))"
  unfolding parse_allowlist_def collect_entries_Inl by (simp add: admits_def del: mapped.simps)

end
