(* ===== verification/Connector_Manager.thy ===== *)
theory Connector_Manager
  imports Wire Send_Credit Tables
begin

text \<open>
  One connector session on the server, \<open>ConnectorManager\<close> of
  \<open>crates/server/src/connector_manager.rs\<close>. A tunnel task is a record \<open>tunnel\<close>; the map
  \<open>streams\<close> holds the tunnel a stream id belongs to, so that what the Rust code shares through
  an \<open>Arc\<close> or a channel (the send credit, the outstanding count, the download queue) outlives
  the entry of the map, as there. \<open>manager_step\<close> interleaves the read loop
  (\<open>handle_message\<close>), the tunnel tasks and the shutdown.
\<close>

declare map_of_eq_Some_iff [simp del] and Some_eq_map_of_iff [simp del]

section \<open>State\<close>

datatype link = Quic | Wss

datatype phase = Reserved | Connecting | Waiting | Open | Finished

record tunnel =
  t_sid :: u32
  t_target :: string
  t_phase :: phase
  t_response :: "(string + unit) option"   \<comment> \<open>the oneshot the connect waits on\<close>
  t_queue :: "byte list list"              \<comment> \<open>\<open>to_socket\<close>, oldest first\<close>
  t_writing :: "byte list option"          \<comment> \<open>taken from the queue, not yet written\<close>
  t_outstanding :: nat                     \<comment> \<open>\<open>recv_outstanding\<close>\<close>
  t_drained :: nat                         \<comment> \<open>\<open>drained_since_grant\<close>\<close>
  t_grant :: "nat option"                  \<comment> \<open>a grant being sent\<close>
  t_credit :: int                          \<comment> \<open>\<open>send_credit\<close>\<close>
  t_credit_closed :: bool
  t_uploading :: bool
  t_sending :: "byte list option"          \<comment> \<open>credit taken, being sent\<close>

record manager =
  connector_id :: string
  mgr_link :: link
  active_streams :: nat
  shutdown_notified :: bool
  next_stream_id :: u32
  pending :: "(u32 \<times> nat) list"
  streams :: "(u32 \<times> nat) list"
  tunnels :: "nat \<Rightarrow> tunnel option"
  resets :: "u32 list"                     \<comment> \<open>streams whose \<open>Reset\<close> waits to be sent\<close>
  outbox :: "message list"                 \<comment> \<open>sent to the connector, oldest first\<close>

definition manager_new :: "string \<Rightarrow> link \<Rightarrow> manager" where
  "manager_new cid l = \<lparr>connector_id = cid, mgr_link = l, active_streams = 0, shutdown_notified = False,
     next_stream_id = 1, pending = [], streams = [], tunnels = (\<lambda>_. None), resets = [], outbox = []\<rparr>"

definition transport_label :: "manager \<Rightarrow> string" where
  "transport_label m = (case mgr_link m of Quic \<Rightarrow> ''QUIC'' | Wss \<Rightarrow> ''WSS'')"

definition upd_tunnel :: "nat \<Rightarrow> (tunnel \<Rightarrow> tunnel) \<Rightarrow> manager \<Rightarrow> manager" where
  "upd_tunnel t f m = (case tunnels m t of
     Some x \<Rightarrow> m\<lparr>tunnels := (tunnels m)(t \<mapsto> f x)\<rparr> | None \<Rightarrow> m)"

definition say :: "message \<Rightarrow> manager \<Rightarrow> manager" where
  "say msg m = m\<lparr>outbox := outbox m @ [msg]\<rparr>"

definition await_reset :: "u32 \<Rightarrow> manager \<Rightarrow> manager" where
  "await_reset sid m = m\<lparr>resets := resets m @ [sid]\<rparr>"

section \<open>Operations\<close>

text \<open>A oneshot takes one value; later ones are dropped.\<close>

definition respond :: "nat \<Rightarrow> string + unit \<Rightarrow> manager \<Rightarrow> manager" where
  "respond t r = upd_tunnel t (\<lambda>x. x\<lparr>t_response := (case t_response x of None \<Rightarrow> Some r | Some r' \<Rightarrow> Some r')\<rparr>)"

definition close_credit :: "nat \<Rightarrow> manager \<Rightarrow> manager" where
  "close_credit t = upd_tunnel t (\<lambda>x. x\<lparr>t_credit_closed := True\<rparr>)"

definition shutdown :: "manager \<Rightarrow> manager" where
  "shutdown m0 =
     (let m1 = m0\<lparr>shutdown_notified := True\<rparr>;
          m2 = (foldl (\<lambda>m (_, t). respond t (Inl ''connector disconnected'') m) m1 (pending m1))\<lparr>pending := []\<rparr>;
          m3 = (foldl (\<lambda>m (_, t). close_credit t m) m2 (streams m2))\<lparr>streams := []\<rparr>
      in m3\<lparr>active_streams := 0\<rparr>)"

definition try_reserve_stream_slot :: "manager \<Rightarrow> bool \<times> manager" where
  "try_reserve_stream_slot m =
     (if active_streams m < MAX_ACTIVE_STREAMS then (True, m\<lparr>active_streams := active_streams m + 1\<rparr>)
      else (False, m))"

text \<open>\<open>checked_sub\<close>: nothing below zero, as subtraction on \<open>nat\<close>.\<close>

definition release_stream_slot :: "manager \<Rightarrow> manager" where
  "release_stream_slot m = m\<lparr>active_streams := active_streams m - 1\<rparr>"

definition remove_stream :: "u32 \<Rightarrow> manager \<Rightarrow> manager" where
  "remove_stream sid m =
     (case map_of (streams m) sid of
        None \<Rightarrow> m
      | Some t \<Rightarrow>
          let m1 = release_stream_slot (close_credit t (m\<lparr>streams := AList.delete sid (streams m)\<rparr>))
          in case map_of (pending m1) sid of
               None \<Rightarrow> m1
             | Some p \<Rightarrow> respond p (Inl ''stream closed'') (m1\<lparr>pending := AList.delete sid (pending m1)\<rparr>))"

text \<open>\<open>bridge\<close>: the task \<open>t\<close> it spawns starts in \<open>Reserved\<close>.\<close>

definition bridge :: "nat \<Rightarrow> string \<Rightarrow> manager \<Rightarrow> (string + unit) \<times> manager" where
  "bridge t target m =
     (case try_reserve_stream_slot m of
        (False, m1) \<Rightarrow> (Inl (''connector overloaded: active stream cap ('' @ show_nat MAX_ACTIVE_STREAMS
                            @ '') reached''), m1)
      | (True, m1) \<Rightarrow>
          (Inr (), m1\<lparr>tunnels := (tunnels m1)(t \<mapsto> \<lparr>t_sid = 0, t_target = target, t_phase = Reserved,
             t_response = None, t_queue = [], t_writing = None, t_outstanding = 0, t_drained = 0,
             t_grant = None, t_credit = int STREAM_RECV_WINDOW, t_credit_closed = False, t_uploading = True,
             t_sending = None\<rparr>)\<rparr>))"

text \<open>The id loop of \<open>wss_tunnel\<close>: \<open>fetch_add\<close> wraps; \<open>fuel\<close> bounds the turns.\<close>

fun alloc_stream_id :: "nat \<Rightarrow> (u32 \<times> nat) list \<Rightarrow> u32 \<Rightarrow> (u32 \<times> u32) option" where
  "alloc_stream_id 0 used next = None"
| "alloc_stream_id (Suc fuel) used next =
     (if next \<in> fst ` set used then alloc_stream_id fuel used (next + 1) else Some (next, next + 1))"

text \<open>Register the stream before \<open>Connect\<close> goes out, since \<open>Data\<close> can race ahead of
  \<open>ConnectOk\<close>.\<close>

definition start_tunnel :: "nat \<Rightarrow> manager \<Rightarrow> manager option" where
  "start_tunnel t m =
     (case alloc_stream_id (Suc (length (streams m))) (streams m) (next_stream_id m) of
        None \<Rightarrow> None
      | Some (sid, next) \<Rightarrow>
          Some (upd_tunnel t (\<lambda>x. x\<lparr>t_sid := sid, t_phase := Connecting\<rparr>)
            (m\<lparr>next_stream_id := next, pending := AList.update sid t (pending m),
               streams := AList.update sid t (streams m)\<rparr>)))"

text \<open>The read loop. The channel of a stream refuses a payload once its tunnel task has ended. The
  \<open>Reset\<close> of a violation is left to a task of its own.\<close>

definition receiver_gone :: "nat \<Rightarrow> manager \<Rightarrow> bool" where
  "receiver_gone t m \<longleftrightarrow> (case tunnels m t of Some x \<Rightarrow> t_phase x = Finished | None \<Rightarrow> True)"

definition handle_message :: "message \<Rightarrow> manager \<Rightarrow> manager" where
  "handle_message msg m = (case msg of
       ConnectOk sid \<Rightarrow>
         (case map_of (pending m) sid of
            Some t \<Rightarrow> respond t (Inr ()) (m\<lparr>pending := AList.delete sid (pending m)\<rparr>)
          | None \<Rightarrow> m)
     | ConnectErr sid error \<Rightarrow>
         (case map_of (pending m) sid of
            Some t \<Rightarrow> respond t (Inl error) (m\<lparr>pending := AList.delete sid (pending m)\<rparr>)
          | None \<Rightarrow> m)
     | Data sid payload \<Rightarrow>
         (case map_of (streams m) sid of
            None \<Rightarrow> m
          | Some t \<Rightarrow>
              let m1 = upd_tunnel t (\<lambda>x. x\<lparr>t_outstanding := t_outstanding x + length payload\<rparr>) m;
                  after = (case tunnels m1 t of Some x \<Rightarrow> t_outstanding x | None \<Rightarrow> 0)
              in if STREAM_RECV_WINDOW < after then
                   let m2 = remove_stream sid m1
                   in if mgr_link m = Wss then await_reset sid m2 else m2
                 else if receiver_gone t m1 then remove_stream sid m1
                 else upd_tunnel t (\<lambda>x. x\<lparr>t_queue := t_queue x @ [payload]\<rparr>) m1)
     | WindowUpdate sid bytes \<Rightarrow>
         (case map_of (streams m) sid of
            Some t \<Rightarrow> upd_tunnel t (\<lambda>x. x\<lparr>t_credit :=
               (case credit_added (int STREAM_RECV_WINDOW) (as_i64 (unat bytes)) (t_credit x) of
                  Some c \<Rightarrow> c | None \<Rightarrow> t_credit x)\<rparr>) m
          | None \<Rightarrow> m)
     | Close sid \<Rightarrow> remove_stream sid m
     | Reset sid \<Rightarrow> remove_stream sid m
     | _ \<Rightarrow> m)"

section \<open>Tunnel tasks\<close>

text \<open>The parts of \<open>wss_tunnel\<close>, one step per await point; \<open>None\<close> where the task is not there. A
  chunk, no longer than an allocation can be, takes its credit when the credit covers it, and is sent when
  the channel has room; the upload ends when the credit is closed or the channel is, the download when its
  queue is empty and its sender is dropped, when the client stops reading, or when a grant cannot be sent.
  \<open>Reset_sent i\<close> is the send that a refused tunnel ends with, or that the read loop left to a task of its own.\<close>

datatype manager_event =
    Bridge nat string
  | Start nat
  | Connect_sent nat
  | Connect_unsent nat
  | Connect_answered nat
  | Connect_timeout nat
  | Upload nat "byte list"
  | Upload_sent nat
  | Upload_stop nat
  | Upload_eof nat
  | Upload_error nat
  | Take_chunk nat
  | Chunk_written nat
  | Window_sent nat
  | Write_failed nat
  | Download_end nat
  | Channel_closed nat
  | Quic_end nat
  | Reset_sent nat
  | Receive message
  | Shutdown

definition finish :: "nat \<Rightarrow> manager \<Rightarrow> manager" where
  "finish t = upd_tunnel t (\<lambda>x. x\<lparr>t_phase := Finished\<rparr>)"

definition chunk_written :: "byte list \<Rightarrow> tunnel \<Rightarrow> tunnel" where
  "chunk_written data x =
     (let drained = t_drained x + length data;
          y = x\<lparr>t_writing := None, t_outstanding := t_outstanding x - length data\<rparr>
      in if WINDOW_UPDATE_THRESHOLD \<le> drained then y\<lparr>t_drained := 0, t_grant := Some drained\<rparr>
         else y\<lparr>t_drained := drained\<rparr>)"

definition tunnel_next :: "manager_event \<Rightarrow> nat \<Rightarrow> tunnel \<Rightarrow> manager \<Rightarrow> manager option" where
  "tunnel_next e t x m = (case e of
       Start _ \<Rightarrow> if t_phase x = Reserved \<and> mgr_link m = Wss then start_tunnel t m else None
     | Connect_sent _ \<Rightarrow> if t_phase x = Connecting
         then Some (upd_tunnel t (\<lambda>x. x\<lparr>t_phase := Waiting\<rparr>) (say (Connect (t_sid x) (t_target x)) m)) else None
     | Connect_unsent _ \<Rightarrow> if t_phase x = Connecting
         then Some (finish t (remove_stream (t_sid x) m)) else None
     | Connect_answered _ \<Rightarrow> if t_phase x = Waiting then (case t_response x of
           Some (Inr _) \<Rightarrow> Some (upd_tunnel t (\<lambda>x. x\<lparr>t_phase := Open\<rparr>) m)
         | Some (Inl _) \<Rightarrow> Some (finish t (await_reset (t_sid x) (remove_stream (t_sid x) m)))
         | None \<Rightarrow> None) else None
     | Connect_timeout _ \<Rightarrow> if t_phase x = Waiting \<and> t_response x = None
         then Some (finish t (await_reset (t_sid x) (remove_stream (t_sid x) m))) else None
     | Upload _ payload \<Rightarrow> if t_phase x = Open \<and> t_uploading x \<and> t_sending x = None \<and> payload \<noteq> []
           \<and> \<not> t_credit_closed x \<and> length payload < 2 ^ 63
         then (case credit_taken (as_i64 (length payload)) (t_credit x) of
             Some c \<Rightarrow> Some (upd_tunnel t (\<lambda>x. x\<lparr>t_credit := c, t_sending := Some payload\<rparr>) m)
           | None \<Rightarrow> None) else None
     | Upload_sent _ \<Rightarrow> if t_phase x = Open \<and> t_uploading x then (case t_sending x of
           Some payload \<Rightarrow> Some (say (Data (t_sid x) payload) (upd_tunnel t (\<lambda>x. x\<lparr>t_sending := None\<rparr>) m))
         | None \<Rightarrow> None) else None
     | Upload_stop _ \<Rightarrow> if t_phase x = Open \<and> t_uploading x
         then Some (upd_tunnel t (\<lambda>x. x\<lparr>t_uploading := False\<rparr>) m) else None
     | Upload_eof _ \<Rightarrow> if t_phase x = Open \<and> t_uploading x \<and> t_sending x = None
         then Some (upd_tunnel t (\<lambda>x. x\<lparr>t_uploading := False\<rparr>) (say (Close (t_sid x)) m)) else None
     | Upload_error _ \<Rightarrow> if t_phase x = Open \<and> t_uploading x \<and> t_sending x = None
         then Some (upd_tunnel t (\<lambda>x. x\<lparr>t_uploading := False\<rparr>)
                (remove_stream (t_sid x) (say (Reset (t_sid x)) m))) else None
     | Take_chunk _ \<Rightarrow> if t_phase x = Open \<and> t_writing x = None \<and> t_grant x = None then (case t_queue x of
           data # rest \<Rightarrow> Some (upd_tunnel t (\<lambda>x. x\<lparr>t_queue := rest, t_writing := Some data\<rparr>) m)
         | [] \<Rightarrow> None) else None
     | Chunk_written _ \<Rightarrow> if t_phase x = Open then (case t_writing x of
           Some data \<Rightarrow> Some (upd_tunnel t (chunk_written data) m) | None \<Rightarrow> None) else None
     | Window_sent _ \<Rightarrow> if t_phase x = Open then (case t_grant x of
           Some n \<Rightarrow> Some (say (WindowUpdate (t_sid x) (of_nat n)) (upd_tunnel t (\<lambda>x. x\<lparr>t_grant := None\<rparr>) m))
         | None \<Rightarrow> None) else None
     | Write_failed _ \<Rightarrow> if t_phase x = Open \<and> t_writing x \<noteq> None
         then Some (finish t (remove_stream (t_sid x) (say (Reset (t_sid x)) m))) else None
     | Download_end _ \<Rightarrow> if t_phase x = Open \<and> t_writing x = None \<and> t_grant x = None \<and> t_queue x = []
           \<and> map_of (streams m) (t_sid x) \<noteq> Some t
         then Some (finish t (remove_stream (t_sid x) m)) else None
     | Channel_closed _ \<Rightarrow> if t_phase x = Open \<and> t_grant x \<noteq> None
         then Some (finish t (remove_stream (t_sid x) m)) else None
     | Quic_end _ \<Rightarrow> if t_phase x = Reserved \<and> mgr_link m = Quic
         then Some (finish t (release_stream_slot m)) else None
     | _ \<Rightarrow> None)"

fun event_task :: "manager_event \<Rightarrow> nat option" where
  "event_task (Bridge t _) = None"
| "event_task (Receive _) = None"
| "event_task Shutdown = None"
| "event_task (Reset_sent i) = None"
| "event_task (Start t) = Some t"
| "event_task (Connect_sent t) = Some t"
| "event_task (Connect_unsent t) = Some t"
| "event_task (Connect_answered t) = Some t"
| "event_task (Connect_timeout t) = Some t"
| "event_task (Upload t _) = Some t"
| "event_task (Upload_sent t) = Some t"
| "event_task (Upload_stop t) = Some t"
| "event_task (Upload_eof t) = Some t"
| "event_task (Upload_error t) = Some t"
| "event_task (Take_chunk t) = Some t"
| "event_task (Chunk_written t) = Some t"
| "event_task (Window_sent t) = Some t"
| "event_task (Write_failed t) = Some t"
| "event_task (Download_end t) = Some t"
| "event_task (Channel_closed t) = Some t"
| "event_task (Quic_end t) = Some t"

inductive manager_step :: "manager \<Rightarrow> manager_event \<Rightarrow> manager \<Rightarrow> bool" where
  bridge: "tunnels m t = None \<Longrightarrow> bridge t target m = (r, m') \<Longrightarrow> manager_step m (Bridge t target) m'"
| task: "event_task e = Some t \<Longrightarrow> tunnels m t = Some x \<Longrightarrow> tunnel_next e t x m = Some m' \<Longrightarrow>
    manager_step m e m'"
| reset: "i < length (resets m) \<Longrightarrow>
    manager_step m (Reset_sent i) (say (Reset (resets m ! i)) (m\<lparr>resets := take i (resets m) @ drop (Suc i) (resets m)\<rparr>))"
| receive: "manager_step m (Receive msg) (handle_message msg m)"
| shut: "manager_step m Shutdown (shutdown m)"

section \<open>Invariant\<close>

definition queued :: "tunnel \<Rightarrow> nat" where
  "queued x = sum_list (map length (t_queue x)) + (case t_writing x of Some d \<Rightarrow> length d | None \<Rightarrow> 0)"

definition tunnel_ok :: "tunnel \<Rightarrow> bool" where
  "tunnel_ok x \<longleftrightarrow> queued x \<le> t_outstanding x \<and> queued x \<le> STREAM_RECV_WINDOW
     \<and> (t_phase x = Reserved \<longrightarrow> t_outstanding x = queued x) \<and> 0 \<le> t_credit x \<and> t_credit x \<le> int STREAM_RECV_WINDOW
     \<and> (t_writing x = None \<or> t_grant x = None) \<and> t_drained x < WINDOW_UPDATE_THRESHOLD"

definition live :: "u32 \<Rightarrow> tunnel \<Rightarrow> bool" where
  "live sid x \<longleftrightarrow> t_sid x = sid \<and> t_phase x \<in> {Connecting, Waiting, Open} \<and> t_outstanding x = queued x"

definition reserved_tasks :: "manager \<Rightarrow> nat set" where
  "reserved_tasks m = {t. \<exists>x. tunnels m t = Some x \<and> t_phase x = Reserved}"

definition tables_ok :: "manager \<Rightarrow> bool" where
  "tables_ok m \<longleftrightarrow> distinct_keys (streams m) \<and> distinct_keys (pending m) \<and> finite (dom (tunnels m))
     \<and> (\<forall>sid t. map_of (pending m) sid = Some t \<longrightarrow> map_of (streams m) sid = Some t)
     \<and> (\<forall>sid t. map_of (streams m) sid = Some t \<longrightarrow> (\<exists>x. tunnels m t = Some x \<and> live sid x))"

definition slots_ok :: "manager \<Rightarrow> bool" where
  "slots_ok m \<longleftrightarrow> active_streams m \<le> MAX_ACTIVE_STREAMS
     \<and> (shutdown_notified m \<or> active_streams m = card (reserved_tasks m) + length (streams m))"

definition manager_inv :: "manager \<Rightarrow> bool" where
  "manager_inv m \<longleftrightarrow> tables_ok m \<and> slots_ok m \<and> (\<forall>t x. tunnels m t = Some x \<longrightarrow> tunnel_ok x)"

lemma upd_tunnel_sel [simp]:
  "tunnels (upd_tunnel t f m) = (tunnels m)(t := map_option f (tunnels m t))"
  "streams (upd_tunnel t f m) = streams m"
  "pending (upd_tunnel t f m) = pending m"
  "active_streams (upd_tunnel t f m) = active_streams m"
  "shutdown_notified (upd_tunnel t f m) = shutdown_notified m"
  "mgr_link (upd_tunnel t f m) = mgr_link m"
  "next_stream_id (upd_tunnel t f m) = next_stream_id m"
  "outbox (upd_tunnel t f m) = outbox m"
  "resets (upd_tunnel t f m) = resets m"
  "connector_id (upd_tunnel t f m) = connector_id m"
  by (cases "tunnels m t"; auto simp: upd_tunnel_def)+

lemma say_sel [simp]:
  "tunnels (say msg m) = tunnels m" "streams (say msg m) = streams m" "pending (say msg m) = pending m"
  "active_streams (say msg m) = active_streams m" "shutdown_notified (say msg m) = shutdown_notified m"
  "mgr_link (say msg m) = mgr_link m" "next_stream_id (say msg m) = next_stream_id m"
  "outbox (say msg m) = outbox m @ [msg]" "connector_id (say msg m) = connector_id m"
  "resets (say msg m) = resets m"
  by (simp_all add: say_def)

lemma await_reset_sel [simp]:
  "tunnels (await_reset sid m) = tunnels m" "streams (await_reset sid m) = streams m" "pending (await_reset sid m) = pending m"
  "active_streams (await_reset sid m) = active_streams m" "shutdown_notified (await_reset sid m) = shutdown_notified m"
  "mgr_link (await_reset sid m) = mgr_link m" "next_stream_id (await_reset sid m) = next_stream_id m"
  "outbox (await_reset sid m) = outbox m" "connector_id (await_reset sid m) = connector_id m"
  "resets (await_reset sid m) = resets m @ [sid]"
  by (simp_all add: await_reset_def)

lemma resets_inv [simp]: "manager_inv (m\<lparr>resets := r\<rparr>) = manager_inv m"
  by (simp add: manager_inv_def tables_ok_def slots_ok_def reserved_tasks_def)

lemma await_reset_inv [simp]: "manager_inv (await_reset sid m) = manager_inv m"
  by (simp add: await_reset_def)

lemma say_inv [simp]: "manager_inv (say msg m) = manager_inv m"
  by (simp add: manager_inv_def tables_ok_def slots_ok_def reserved_tasks_def)

text \<open>A change of one tunnel that keeps its kind of phase, and its stream's bookkeeping while the
  stream is registered.\<close>

lemma upd_tunnel_inv:
  assumes "manager_inv m" and "tunnels m t = Some x" and "tunnel_ok (f x)"
    and "t_phase (f x) = Reserved \<longleftrightarrow> t_phase x = Reserved"
    and "map_of (streams m) (t_sid x) = Some t \<Longrightarrow> live (t_sid x) (f x)"
  shows "manager_inv (upd_tunnel t f m)"
proof -
  have "reserved_tasks (upd_tunnel t f m) = reserved_tasks m"
    using assms(2,4) by (auto simp: reserved_tasks_def)
  moreover have "\<exists>y. tunnels (upd_tunnel t f m) u = Some y \<and> live sid y"
    if reg: "map_of (streams m) sid = Some u" for sid u
  proof -
    obtain y where y: "tunnels m u = Some y" "live sid y"
      using assms(1) reg unfolding manager_inv_def tables_ok_def by blast
    then show ?thesis
      using assms(2,5) reg by (cases "u = t") (auto simp: live_def)
  qed
  ultimately show ?thesis
    using assms by (auto simp: manager_inv_def tables_ok_def slots_ok_def)
qed

text \<open>Changes that touch neither the phase, nor the queue, nor the credit.\<close>

lemma upd_tunnel_inv_same:
  assumes "manager_inv m"
    and "\<And>x. t_sid (f x) = t_sid x \<and> t_phase (f x) = t_phase x \<and> t_queue (f x) = t_queue x
      \<and> t_writing (f x) = t_writing x \<and> t_outstanding (f x) = t_outstanding x \<and> t_credit (f x) = t_credit x
      \<and> t_grant (f x) \<in> {t_grant x, None} \<and> t_drained (f x) = t_drained x"
  shows "manager_inv (upd_tunnel t f m)"
proof (cases "tunnels m t")
  case None
  then show ?thesis using assms(1) by (simp add: upd_tunnel_def)
next
  case (Some x)
  have "tunnel_ok x" using assms(1) Some by (simp add: manager_inv_def)
  moreover have "map_of (streams m) (t_sid x) = Some t \<Longrightarrow> live (t_sid x) x"
    using assms(1) Some by (fastforce simp: manager_inv_def tables_ok_def)
  ultimately show ?thesis
    using assms(2) [of x]
    by (intro upd_tunnel_inv [OF assms(1) Some]) (auto simp: tunnel_ok_def live_def queued_def)
qed

lemma respond_inv: "manager_inv m \<Longrightarrow> manager_inv (respond t r m)"
  unfolding respond_def by (rule upd_tunnel_inv_same) simp_all

lemma close_credit_inv: "manager_inv m \<Longrightarrow> manager_inv (close_credit t m)"
  unfolding close_credit_def by (rule upd_tunnel_inv_same) simp_all

lemma manager_inv_slots:
  assumes "manager_inv m" and "map_of (streams m) sid = Some t"
  shows "shutdown_notified m \<or> 0 < active_streams m"
proof -
  have "0 < length (streams m)" using assms(2) by (cases "streams m") auto
  then show ?thesis using assms(1) by (auto simp: manager_inv_def slots_ok_def)
qed

lemma reserved_tasks_cong: "tunnels m = tunnels m' \<Longrightarrow> reserved_tasks m = reserved_tasks m'"
  by (simp add: reserved_tasks_def)

text \<open>Dropping a stream and its pending connect from the tables, with its slot.\<close>

lemma drop_stream_inv:
  assumes "manager_inv m" and "map_of (streams m) sid = Some t"
  shows "manager_inv (m\<lparr>streams := AList.delete sid (streams m), pending := AList.delete sid (pending m),
    active_streams := active_streams m - 1\<rparr>)"
    (is "manager_inv ?m")
proof -
  obtain k where k: "length (streams m) = Suc k" using assms(2) by (cases "streams m") auto
  have len: "length (AList.delete sid (streams m)) = k"
    using assms k by (simp add: manager_inv_def tables_ok_def length_delete in_keys_iff)
  have res: "reserved_tasks ?m = reserved_tasks m" by (simp add: reserved_tasks_def)
  have "active_streams m \<le> MAX_ACTIVE_STREAMS"
    and "shutdown_notified m \<or> active_streams m = card (reserved_tasks m) + Suc k"
    using assms(1) k by (simp_all add: manager_inv_def slots_ok_def)
  then have "slots_ok ?m" unfolding slots_ok_def res by (auto simp: len)
  moreover have "tables_ok ?m"
    using assms(1) by (auto simp: manager_inv_def tables_ok_def distinct_delete map_of_delete
        split: if_splits)
  ultimately show ?thesis using assms(1) by (simp add: manager_inv_def)
qed

lemma remove_stream_eq:
  assumes "map_of (streams m) sid = Some t"
  shows "remove_stream sid m =
    (let m1 = m\<lparr>streams := AList.delete sid (streams m), pending := AList.delete sid (pending m),
                active_streams := active_streams m - 1\<rparr>
     in case map_of (pending m) sid of
          None \<Rightarrow> close_credit t m1
        | Some p \<Rightarrow> respond p (Inl ''stream closed'') (close_credit t m1))"
proof (cases "map_of (pending m) sid")
  case None
  then have "AList.delete sid (pending m) = pending m"
    by (intro delete_id) (simp add: map_of_eq_None_iff)
  then show ?thesis
    using assms None by (cases "tunnels m t")
      (simp_all add: remove_stream_def release_stream_slot_def close_credit_def upd_tunnel_def Let_def)
next
  case (Some p)
  then show ?thesis
    using assms by (cases "tunnels m t"; cases "tunnels m p")
      (simp_all add: remove_stream_def release_stream_slot_def close_credit_def respond_def
        upd_tunnel_def Let_def)
qed

lemma remove_stream_inv:
  assumes "manager_inv m"
  shows "manager_inv (remove_stream sid m)"
proof (cases "map_of (streams m) sid")
  case (Some t)
  then show ?thesis
    using drop_stream_inv [OF assms Some] close_credit_inv respond_inv
    by (simp add: remove_stream_eq Let_def split: option.splits)
qed (simp add: remove_stream_def assms)

lemma remove_stream_streams: "distinct_keys (streams m) \<Longrightarrow> streams (remove_stream sid m) = AList.delete sid (streams m)"
proof (cases "map_of (streams m) sid")
  case None
  then have "AList.delete sid (streams m) = streams m"
    by (intro delete_id) (simp add: map_of_eq_None_iff)
  then show ?thesis using None by (simp add: remove_stream_def)
next
  case (Some t)
  then show ?thesis
    by (simp add: remove_stream_eq Let_def close_credit_def respond_def split: option.splits)
qed

text \<open>What a tunnel keeps when a stream is removed: everything but its credit's closed flag, which
  may be set, and its response, which may arrive.\<close>

definition same_tunnel :: "tunnel \<Rightarrow> tunnel \<Rightarrow> bool" where
  "same_tunnel x y \<longleftrightarrow> y = x\<lparr>t_response := t_response y, t_credit_closed := t_credit_closed y\<rparr>
     \<and> (t_response x \<noteq> None \<longrightarrow> t_response y = t_response x) \<and> (t_credit_closed x \<longrightarrow> t_credit_closed y)"

lemma same_tunnel_sel: "same_tunnel x y \<Longrightarrow> t_sid y = t_sid x \<and> t_phase y = t_phase x
    \<and> t_queue y = t_queue x \<and> t_writing y = t_writing x \<and> t_outstanding y = t_outstanding x
    \<and> t_credit y = t_credit x \<and> t_target y = t_target x \<and> t_drained y = t_drained x"
  by (cases x; cases y) (simp add: same_tunnel_def)

lemma same_tunnel_trans: "same_tunnel x y \<Longrightarrow> same_tunnel y z \<Longrightarrow> same_tunnel x z"
  by (cases x; cases y; cases z) (auto simp: same_tunnel_def)

lemma close_credit_tunnel: "tunnels m u = Some x \<Longrightarrow> \<exists>y. tunnels (close_credit t m) u = Some y \<and> same_tunnel x y"
  by (cases "u = t") (simp_all add: close_credit_def same_tunnel_def)

lemma respond_tunnel: "tunnels m u = Some x \<Longrightarrow> \<exists>y. tunnels (respond t r m) u = Some y \<and> same_tunnel x y"
  by (cases "u = t") (auto simp: respond_def same_tunnel_def split: option.splits)

lemma remove_stream_tunnel:
  assumes "tunnels m u = Some x"
  shows "\<exists>y. tunnels (remove_stream sid m) u = Some y \<and> same_tunnel x y"
proof (cases "map_of (streams m) sid")
  case None
  then show ?thesis using assms by (simp add: remove_stream_def same_tunnel_def)
next
  case (Some t)
  let ?m1 = "m\<lparr>streams := AList.delete sid (streams m), pending := AList.delete sid (pending m),
    active_streams := active_streams m - 1\<rparr>"
  obtain y where y: "tunnels (close_credit t ?m1) u = Some y" "same_tunnel x y"
    using close_credit_tunnel [of ?m1 u x t] assms by auto
  show ?thesis
  proof (cases "map_of (pending m) sid")
    case None
    then show ?thesis using Some y by (simp add: remove_stream_eq Let_def)
  next
    case p: (Some p)
    obtain z where "tunnels (respond p (Inl ''stream closed'') (close_credit t ?m1)) u = Some z"
      "same_tunnel y z"
      using respond_tunnel [OF y(1)] by blast
    then show ?thesis using Some p same_tunnel_trans [OF y(2)] by (simp add: remove_stream_eq Let_def)
  qed
qed

section \<open>Allocation of stream ids\<close>

text \<open>Enough turns: the ids tried are distinct until the counter has gone all the way round.\<close>

lemma alloc_fresh: "alloc_stream_id fuel used next = Some (sid, next') \<Longrightarrow> sid \<notin> fst ` set used"
  by (induction fuel used "next" rule: alloc_stream_id.induct) (auto split: if_splits)

lemma alloc_None_used:
  "alloc_stream_id fuel used next = None \<Longrightarrow> i < fuel \<Longrightarrow> next + of_nat i \<in> fst ` set used"
proof (induction fuel used "next" arbitrary: i rule: alloc_stream_id.induct)
  case (2 fuel used "next")
  then have used: "next \<in> fst ` set used" "alloc_stream_id fuel used (next + 1) = None"
    by (auto split: if_splits)
  show ?case
  proof (cases i)
    case (Suc j)
    then have "next + 1 + of_nat j \<in> fst ` set used" using 2 used by simp
    then show ?thesis using Suc by (simp add: algebra_simps)
  qed (use used in simp)
qed simp

lemma alloc_succeeds:
  assumes "length used < 2 ^ 32"
  shows "alloc_stream_id (Suc (length used)) used next \<noteq> None"
proof
  assume "alloc_stream_id (Suc (length used)) used next = None"
  then have "(\<lambda>i. next + of_nat i) ` {..length used} \<subseteq> fst ` set used"
    using alloc_None_used [of "Suc (length used)" used "next"] by (auto simp: less_Suc_eq_le)
  then have "card ((\<lambda>i. next + of_nat i) ` {..length used}) \<le> card (fst ` set used)"
    by (intro card_mono) auto
  also have "\<dots> \<le> length used" by (metis card_length length_map set_map)
  finally have "card ((\<lambda>i. next + of_nat i :: u32) ` {..length used}) \<le> length used" .
  moreover have "inj_on (\<lambda>i. next + of_nat i :: u32) {..length used}"
  proof (rule inj_onI)
    fix i j
    assume ij: "i \<in> {..length used}" "j \<in> {..length used}"
      and eq: "next + of_nat i = next + (of_nat j :: u32)"
    from eq have "unat (of_nat i :: u32) = unat (of_nat j :: u32)" by simp
    moreover have "i < 4294967296" "j < 4294967296" using ij assms by simp_all
    ultimately show "i = j" by (simp only: unat_of_nat_u32)
  qed
  ultimately show False by (simp add: card_image)
qed

section \<open>Every step keeps the invariant\<close>

lemma live_registered: "manager_inv m \<Longrightarrow> map_of (streams m) sid = Some t \<Longrightarrow> \<exists>x. tunnels m t = Some x \<and> live sid x"
  unfolding manager_inv_def tables_ok_def by blast

lemma inv_tunnel: "manager_inv m \<Longrightarrow> tunnels m t = Some x \<Longrightarrow> tunnel_ok x"
  by (simp add: manager_inv_def)

lemma inv_distinct: "manager_inv m \<Longrightarrow> distinct_keys (streams m)"
  by (simp add: manager_inv_def tables_ok_def)

lemma live_of: "manager_inv m \<Longrightarrow> tunnels m t = Some x \<Longrightarrow> map_of (streams m) (t_sid x) = Some t \<Longrightarrow> live (t_sid x) x"
  using live_registered by fastforce

lemma pending_delete_inv: "manager_inv m \<Longrightarrow> manager_inv (m\<lparr>pending := AList.delete sid (pending m)\<rparr>)"
proof -
  assume inv: "manager_inv m"
  have "tables_ok (m\<lparr>pending := AList.delete sid (pending m)\<rparr>)"
    using inv by (auto simp: manager_inv_def tables_ok_def distinct_delete map_of_delete split: if_splits)
  then show ?thesis using inv by (simp add: manager_inv_def slots_ok_def reserved_tasks_def)
qed

text \<open>Ending a tunnel whose stream is gone, and changing one that keeps its bookkeeping.\<close>

lemma finish_inv:
  assumes "manager_inv m" and "tunnels m t = Some x" and "t_phase x \<noteq> Reserved"
    and "map_of (streams m) (t_sid x) \<noteq> Some t"
  shows "manager_inv (finish t m)"
  unfolding finish_def
  using assms inv_tunnel [OF assms(1,2)]
  by (intro upd_tunnel_inv [OF assms(1,2)]) (auto simp: tunnel_ok_def queued_def)

lemma remove_finish_inv:
  assumes "manager_inv m" and "tunnels m t = Some x" and "t_phase x \<noteq> Reserved"
  shows "manager_inv (finish t (remove_stream (t_sid x) m))"
proof -
  obtain y where y: "tunnels (remove_stream (t_sid x) m) t = Some y" "same_tunnel x y"
    using remove_stream_tunnel [OF assms(2)] by blast
  have "t_sid y = t_sid x" "t_phase y = t_phase x" using y(2) by (simp_all add: same_tunnel_sel)
  then show ?thesis
    using assms(3) inv_distinct [OF assms(1)]
    by (intro finish_inv [OF remove_stream_inv [OF assms(1)] y(1)])
      (simp_all add: remove_stream_streams map_of_delete)
qed

lemma keep_inv:
  assumes "manager_inv m" and "tunnels m t = Some x" and "tunnel_ok (f x)" and "t_sid (f x) = t_sid x"
    and "t_phase x \<noteq> Reserved"
    and "live (t_sid x) x \<Longrightarrow> t_phase (f x) \<in> {Connecting, Waiting, Open} \<and> t_outstanding (f x) = queued (f x)"
    and "t_phase (f x) \<noteq> Reserved"
  shows "manager_inv (upd_tunnel t f m)"
  using assms live_of [OF assms(1,2)]
  by (intro upd_tunnel_inv [OF assms(1,2)]) (auto simp: live_def)

lemma start_tunnel_inv:
  assumes inv: "manager_inv m" and x: "tunnels m t = Some x" and res: "t_phase x = Reserved"
    and start: "start_tunnel t m = Some m'"
  shows "manager_inv m'"
proof -
  obtain sid nxt where alloc: "alloc_stream_id (Suc (length (streams m))) (streams m) (next_stream_id m) = Some (sid, nxt)"
    and m': "m' = upd_tunnel t (\<lambda>x. x\<lparr>t_sid := sid, t_phase := Connecting\<rparr>)
            (m\<lparr>next_stream_id := nxt, pending := AList.update sid t (pending m),
               streams := AList.update sid t (streams m)\<rparr>)"
    using start by (auto simp: start_tunnel_def split: option.splits)
  have fresh: "map_of (streams m) sid = None" using alloc_fresh [OF alloc] by (simp add: map_of_eq_None_iff)
  have not_reg: "map_of (streams m) j \<noteq> Some t" for j
    using live_registered [OF inv, of j t] x res by (auto simp: live_def)
  have tun: "tunnels m' = (tunnels m)(t \<mapsto> x\<lparr>t_sid := sid, t_phase := Connecting\<rparr>)"
    using x by (simp add: m')
  have st: "streams m' = AList.update sid t (streams m)" "pending m' = AList.update sid t (pending m)"
    by (simp_all add: m')
  have rt: "reserved_tasks m' = reserved_tasks m - {t}" by (auto simp: reserved_tasks_def tun)
  have fin: "finite (reserved_tasks m)"
    using inv by (auto simp: manager_inv_def tables_ok_def reserved_tasks_def dom_def
        intro: finite_subset [of _ "dom (tunnels m)"])
  have "t \<in> reserved_tasks m" using x res by (simp add: reserved_tasks_def)
  then have "card (reserved_tasks m) = Suc (card (reserved_tasks m'))"
    using card_Suc_Diff1 [OF fin] by (simp add: rt)
  moreover have "length (streams m') = Suc (length (streams m))"
    using fresh by (simp add: m' length_update in_keys_iff)
  ultimately have "slots_ok m'"
    using inv by (simp add: m' manager_inv_def slots_ok_def)
  moreover have "tables_ok m'"
  proof -
    have "live sid (x\<lparr>t_sid := sid, t_phase := Connecting\<rparr>)"
      using inv_tunnel [OF inv x] res by (simp add: live_def tunnel_ok_def queued_def)
    then have "\<exists>y. tunnels m' u = Some y \<and> live j y" if "map_of (streams m') j = Some u" for j u
      using that live_registered [OF inv, of j u] not_reg [of j]
      by (auto simp: tun st map_of_update split: if_splits)
    moreover have "map_of (pending m') j = Some u \<Longrightarrow> map_of (streams m') j = Some u" for j u
      using inv by (auto simp: st map_of_update manager_inv_def tables_ok_def split: if_splits)
    ultimately show ?thesis
      using inv unfolding tables_ok_def manager_inv_def by (simp add: st tun distinct_update)
  qed
  moreover have "tunnel_ok y" if "tunnels m' u = Some y" for u y
    using that inv_tunnel [OF inv x] inv_tunnel [OF inv, of u y]
    by (auto simp: tun tunnel_ok_def queued_def split: if_splits)
  ultimately show ?thesis by (simp add: manager_inv_def)
qed

lemma bridge_inv:
  assumes inv: "manager_inv m" and fresh: "tunnels m t = None" and b: "bridge t target m = (r, m')"
  shows "manager_inv m'"
proof (cases "active_streams m < MAX_ACTIVE_STREAMS")
  case True
  let ?x = "\<lparr>t_sid = 0, t_target = target, t_phase = Reserved, t_response = None, t_queue = [],
     t_writing = None, t_outstanding = 0, t_drained = 0, t_grant = None, t_credit = int STREAM_RECV_WINDOW,
     t_credit_closed = False, t_uploading = True, t_sending = None\<rparr>"
  have m': "m' = m\<lparr>active_streams := active_streams m + 1, tunnels := (tunnels m)(t \<mapsto> ?x)\<rparr>"
    using b True by (simp add: bridge_def try_reserve_stream_slot_def)
  have rt: "reserved_tasks m' = insert t (reserved_tasks m)" by (auto simp: reserved_tasks_def m')
  have "finite (reserved_tasks m)"
    using inv by (auto simp: manager_inv_def tables_ok_def reserved_tasks_def dom_def
        intro: finite_subset [of _ "dom (tunnels m)"])
  moreover have "t \<notin> reserved_tasks m" using fresh by (simp add: reserved_tasks_def)
  ultimately have "slots_ok m'"
    using inv True by (auto simp: slots_ok_def manager_inv_def rt) (simp_all add: m')
  moreover have "tables_ok m'"
  proof -
    have "u \<noteq> t" if "map_of (streams m) j = Some u" for j u
      using live_registered [OF inv that] fresh by auto
    then show ?thesis
      using inv live_registered [OF inv] by (auto simp: tables_ok_def manager_inv_def m')
  qed
  moreover have "tunnel_ok ?x" by (simp add: tunnel_ok_def queued_def WINDOW_UPDATE_THRESHOLD_def STREAM_RECV_WINDOW_def)
  ultimately show ?thesis using inv by (auto simp: manager_inv_def m')
qed (use inv b in \<open>simp add: bridge_def try_reserve_stream_slot_def\<close>)

lemma foldl_inv: "(\<And>m p. P m \<Longrightarrow> P (f m p)) \<Longrightarrow> P m \<Longrightarrow> P (foldl f m ps)"
  by (induction ps arbitrary: m) auto

lemma shutdown_inv:
  assumes inv: "manager_inv m"
  shows "manager_inv (shutdown m)"
proof -
  let ?P = "\<lambda>m. manager_inv m \<and> shutdown_notified m"
  let ?r = "\<lambda>m (_, t). respond t (Inl ''connector disconnected'') m"
  let ?c = "\<lambda>m (_, t). close_credit t m"
  define m1 where "m1 = m\<lparr>shutdown_notified := True\<rparr>"
  define m2 where "m2 = (foldl ?r m1 (pending m1))\<lparr>pending := []\<rparr>"
  define m3 where "m3 = foldl ?c m2 (streams m2)"
  have "?P m1" using inv by (simp add: m1_def manager_inv_def slots_ok_def tables_ok_def)
  then have "?P (foldl ?r m1 (pending m1))"
    by (rule foldl_inv [where P = ?P, rotated]) (auto simp: respond_inv, simp add: respond_def)
  then have "?P m2 \<and> pending m2 = []"
    by (simp add: m2_def manager_inv_def slots_ok_def tables_ok_def reserved_tasks_def)
  then have "?P m3 \<and> pending m3 = []" unfolding m3_def
    by (rule foldl_inv [where P = "\<lambda>m. ?P m \<and> pending m = []", rotated])
      (auto simp: close_credit_inv, simp_all add: close_credit_def)
  then have "manager_inv (m3\<lparr>streams := [], active_streams := 0\<rparr>)"
    by (simp add: manager_inv_def slots_ok_def tables_ok_def)
  then show ?thesis by (simp add: shutdown_def Let_def m1_def m2_def m3_def)
qed

lemma credit_added_ok:
  assumes "0 \<le> c" and "c \<le> int STREAM_RECV_WINDOW"
  shows "0 \<le> (case credit_added (int STREAM_RECV_WINDOW) b c of Some c' \<Rightarrow> c' | None \<Rightarrow> c)
    \<and> (case credit_added (int STREAM_RECV_WINDOW) b c of Some c' \<Rightarrow> c' | None \<Rightarrow> c) \<le> int STREAM_RECV_WINDOW"
  using assms by (auto simp: credit_added_def Let_def split: option.splits if_splits)

lemma data_inv:
  assumes inv: "manager_inv m" and reg: "map_of (streams m) sid = Some t" and x: "tunnels m t = Some x"
  shows "manager_inv (handle_message (Data sid payload) m)"
proof -
  have lv: "live sid x" using live_registered [OF inv reg] x by simp
  let ?m1 = "upd_tunnel t (\<lambda>x. x\<lparr>t_outstanding := t_outstanding x + length payload\<rparr>) m"
  have gone: "\<not> receiver_gone t ?m1" using lv x by (auto simp: receiver_gone_def live_def)
  show ?thesis
  proof (cases "STREAM_RECV_WINDOW < t_outstanding x + length payload")
    case True
    have "manager_inv (remove_stream sid ?m1)"
    proof -
      let ?d = "m\<lparr>streams := AList.delete sid (streams m), pending := AList.delete sid (pending m),
        active_streams := active_streams m - 1\<rparr>"
      have d: "manager_inv ?d" by (rule drop_stream_inv [OF inv reg])
      have "manager_inv (upd_tunnel t (\<lambda>x. x\<lparr>t_outstanding := t_outstanding x + length payload\<rparr>) ?d)"
        using x lv inv_tunnel [OF inv x] inv_distinct [OF inv]
        by (intro upd_tunnel_inv [OF d, of t x]) (auto simp: tunnel_ok_def live_def queued_def map_of_delete)
      moreover have "upd_tunnel t (\<lambda>x. x\<lparr>t_outstanding := t_outstanding x + length payload\<rparr>) ?d =
          ?m1\<lparr>streams := AList.delete sid (streams ?m1), pending := AList.delete sid (pending ?m1),
          active_streams := active_streams ?m1 - 1\<rparr>"
        using x by (simp add: upd_tunnel_def)
      ultimately have "manager_inv (?m1\<lparr>streams := AList.delete sid (streams ?m1),
          pending := AList.delete sid (pending ?m1), active_streams := active_streams ?m1 - 1\<rparr>)"
        by argo
      then show ?thesis
        using reg by (subst remove_stream_eq [of _ _ t])
          (auto simp: Let_def close_credit_inv respond_inv split: option.splits)
    qed
    then show ?thesis using reg x True by (simp add: handle_message_def Let_def)
  next
    case False
    have "handle_message (Data sid payload) m = upd_tunnel t (\<lambda>x. x\<lparr>t_queue := t_queue x @ [payload]\<rparr>) ?m1"
      using reg x False gone by (simp add: handle_message_def Let_def)
    also have "\<dots> = upd_tunnel t (\<lambda>x. x\<lparr>t_outstanding := t_outstanding x + length payload,
        t_queue := t_queue x @ [payload]\<rparr>) m"
      using x by (simp add: upd_tunnel_def)
    finally show ?thesis
      using lv x False inv_tunnel [OF inv x]
      by (simp only:, intro keep_inv [OF inv x]) (auto simp: live_def tunnel_ok_def queued_def)
  qed
qed

lemma handle_message_inv:
  assumes inv: "manager_inv m"
  shows "manager_inv (handle_message msg m)"
proof (cases msg)
  case (Data sid payload)
  then show ?thesis
    using inv data_inv [OF inv] live_registered [OF inv, of sid]
    by (cases "map_of (streams m) sid") (auto, simp add: handle_message_def)
next
  case (WindowUpdate sid bytes)
  show ?thesis
  proof (cases "map_of (streams m) sid")
    case (Some t)
    obtain x where x: "tunnels m t = Some x" "live sid x" using live_registered [OF inv Some] by blast
    then show ?thesis
      using Some WindowUpdate inv_tunnel [OF inv x(1)] credit_added_ok
      by (simp add: handle_message_def, intro keep_inv [OF inv x(1)])
        (auto simp: live_def tunnel_ok_def queued_def)
  qed (use inv WindowUpdate in \<open>simp add: handle_message_def\<close>)
qed (use inv in \<open>auto simp: handle_message_def remove_stream_inv respond_inv pending_delete_inv
    split: option.splits\<close>)

lemma quic_end_inv:
  assumes inv: "manager_inv m" and x: "tunnels m t = Some x" and res: "t_phase x = Reserved"
  shows "manager_inv (finish t (release_stream_slot m))" (is "manager_inv ?m")
proof -
  have not_reg: "map_of (streams m) j \<noteq> Some t" for j
    using live_registered [OF inv, of j t] x res by (auto simp: live_def)
  have tun: "tunnels ?m = (tunnels m)(t \<mapsto> x\<lparr>t_phase := Finished\<rparr>)"
    using x by (simp add: finish_def release_stream_slot_def)
  have rt: "reserved_tasks ?m = reserved_tasks m - {t}" by (auto simp: reserved_tasks_def tun)
  have fin: "finite (reserved_tasks m)"
    using inv by (auto simp: manager_inv_def tables_ok_def reserved_tasks_def dom_def
        intro: finite_subset [of _ "dom (tunnels m)"])
  have "t \<in> reserved_tasks m" using x res by (simp add: reserved_tasks_def)
  then have "card (reserved_tasks m) = Suc (card (reserved_tasks ?m))"
    using card_Suc_Diff1 [OF fin] by (simp add: rt)
  then have "slots_ok ?m"
    using inv by (auto simp: finish_def release_stream_slot_def manager_inv_def slots_ok_def)
  moreover have "tables_ok ?m"
    using inv not_reg by (auto simp: tables_ok_def manager_inv_def tun)
      (simp_all add: finish_def release_stream_slot_def)
  moreover have "tunnel_ok (x\<lparr>t_phase := Finished\<rparr>)"
    using inv_tunnel [OF inv x] by (simp add: tunnel_ok_def queued_def)
  ultimately show ?thesis using inv by (simp add: manager_inv_def tun)
qed

lemma chunk_written_inv:
  assumes inv: "manager_inv m" and x: "tunnels m t = Some x" and ph: "t_phase x = Open"
    and w: "t_writing x = Some data"
  shows "manager_inv (upd_tunnel t (chunk_written data) m)"
  using inv_tunnel [OF inv x] ph w
  by (intro keep_inv [OF inv x])
    (auto simp: chunk_written_def Let_def tunnel_ok_def queued_def live_def WINDOW_UPDATE_THRESHOLD_def STREAM_RECV_WINDOW_def)

lemma upload_taken_inv:
  assumes inv: "manager_inv m" and x: "tunnels m t = Some x" and ph: "t_phase x = Open"
    and c: "credit_taken b (t_credit x) = Some c" and b: "0 \<le> b"
  shows "manager_inv (upd_tunnel t (\<lambda>x. x\<lparr>t_credit := c, t_sending := p\<rparr>) m)"
proof -
  have "t_credit x \<le> i64_max"
    using inv_tunnel [OF inv x] by (simp add: tunnel_ok_def i64_max_def STREAM_RECV_WINDOW_def)
  then have "0 \<le> c \<and> c \<le> t_credit x" using credit_taken_bounds [OF c b] b by simp
  then show ?thesis
    using inv_tunnel [OF inv x] ph
    by (intro keep_inv [OF inv x]) (auto simp: tunnel_ok_def queued_def live_def)
qed

lemma stop_upload_inv: "manager_inv m \<Longrightarrow> manager_inv (upd_tunnel t (\<lambda>x. x\<lparr>t_uploading := False\<rparr>) m)"
    "manager_inv m \<Longrightarrow> manager_inv (upd_tunnel t (\<lambda>x. x\<lparr>t_sending := None\<rparr>) m)"
    "manager_inv m \<Longrightarrow> manager_inv (upd_tunnel t (\<lambda>x. x\<lparr>t_grant := None\<rparr>) m)"
  by (rule upd_tunnel_inv_same; simp)+

lemma phase_inv:
  assumes inv: "manager_inv m" and x: "tunnels m t = Some x" and "t_phase x \<in> {Connecting, Waiting}"
    and "p \<in> {Waiting, Open}"
  shows "manager_inv (upd_tunnel t (\<lambda>x. x\<lparr>t_phase := p\<rparr>) m)"
  using assms(3,4) inv_tunnel [OF inv x]
  by (intro keep_inv [OF inv x]) (auto simp: tunnel_ok_def queued_def live_def)

lemma take_chunk_inv:
  assumes inv: "manager_inv m" and x: "tunnels m t = Some x" and "t_phase x = Open" "t_writing x = None"
    "t_grant x = None" and "t_queue x = data # rest"
  shows "manager_inv (upd_tunnel t (\<lambda>x. x\<lparr>t_queue := rest, t_writing := Some data\<rparr>) m)"
  using assms(3-) inv_tunnel [OF inv x]
  by (intro keep_inv [OF inv x]) (auto simp: tunnel_ok_def queued_def live_def)

lemma say_finish [simp]: "finish t (say msg m) = say msg (finish t m)"
  by (cases "tunnels m t") (simp_all add: finish_def say_def upd_tunnel_def)

lemma await_reset_finish [simp]: "finish t (await_reset sid m) = await_reset sid (finish t m)"
  by (cases "tunnels m t") (simp_all add: finish_def await_reset_def upd_tunnel_def)

lemma remove_stream_say [simp]: "remove_stream sid (say msg m) = say msg (remove_stream sid m)"
  by (auto simp: remove_stream_def Let_def release_stream_slot_def close_credit_def respond_def
      upd_tunnel_def say_def split: option.splits)

lemma upd_tunnel_say [simp]: "upd_tunnel t f (say msg m) = say msg (upd_tunnel t f m)"
  by (auto simp: upd_tunnel_def say_def split: option.splits)

lemma tunnel_next_inv:
  assumes inv: "manager_inv m" and x: "tunnels m t = Some x" and nx: "tunnel_next e t x m = Some m'"
  shows "manager_inv m'"
proof (cases e)
  case (Upload u payload)
  then obtain c where "t_phase x = Open" "credit_taken (as_i64 (length payload)) (t_credit x) = Some c"
    and "length payload < 2 ^ 63" "m' = upd_tunnel t (\<lambda>x. x\<lparr>t_credit := c, t_sending := Some payload\<rparr>) m"
    using nx by (auto simp: tunnel_next_def split: if_splits option.splits)
  then show ?thesis using upload_taken_inv [OF inv x, of "as_i64 (length payload)" c] by simp
next
  case (Take_chunk u)
  then show ?thesis using nx take_chunk_inv [OF inv x]
    by (auto simp: tunnel_next_def split: if_splits list.splits)
qed (use nx start_tunnel_inv [OF inv x] quic_end_inv [OF inv x] phase_inv [OF inv x, of Waiting]
    phase_inv [OF inv x, of Open] chunk_written_inv [OF inv x] remove_finish_inv [OF inv x]
    stop_upload_inv [OF inv] stop_upload_inv(1) [OF remove_stream_inv [OF inv]] in
  \<open>auto simp: tunnel_next_def split: if_splits option.splits sum.splits\<close>)

lemma manager_step_inv: "manager_inv m \<Longrightarrow> manager_step m e m' \<Longrightarrow> manager_inv m'"
  by (erule manager_step.cases) (auto intro: bridge_inv tunnel_next_inv handle_message_inv shutdown_inv)

interpretation manager_runs: step_invariant manager_step manager_inv
  by unfold_locales (rule manager_step_inv)

lemma manager_inv_new: "manager_inv (manager_new cid l)"
  by (simp add: manager_inv_def manager_new_def tables_ok_def slots_ok_def reserved_tasks_def)

end
