(* ===== verification/Connector_Sessions.thy ===== *)
theory Connector_Sessions
  imports Connector_Manager
begin

text \<open>
  What the sessions of \<open>Connector_Manager\<close> guarantee over whole runs, and the registry of the
  connected sessions (\<open>ConnectorRegistry\<close>, the end of
  \<open>crates/server/src/connector_manager.rs\<close>). \<open>manager_replay\<close> runs a list of events.
\<close>

declare map_of_eq_Some_iff [simp del] and Some_eq_map_of_iff [simp del]

section \<open>Executable runs\<close>

definition manager_exec :: "manager_event \<Rightarrow> manager \<Rightarrow> manager option" where
  "manager_exec e m = (case e of
       Bridge t target \<Rightarrow> if tunnels m t = None then Some (snd (bridge t target m)) else None
     | Receive msg \<Rightarrow> Some (handle_message msg m)
     | Shutdown \<Rightarrow> Some (shutdown m)
     | Reset_sent i \<Rightarrow> if i < length (resets m)
         then Some (say (Reset (resets m ! i)) (m\<lparr>resets := take i (resets m) @ drop (Suc i) (resets m)\<rparr>)) else None
     | _ \<Rightarrow> (case event_task e of
         None \<Rightarrow> None
       | Some t \<Rightarrow> (case tunnels m t of None \<Rightarrow> None | Some x \<Rightarrow> tunnel_next e t x m)))"

primrec manager_replay :: "manager_event list \<Rightarrow> manager \<Rightarrow> manager option" where
  "manager_replay [] m = Some m"
| "manager_replay (e # es) m = (case manager_exec e m of None \<Rightarrow> None | Some m' \<Rightarrow> manager_replay es m')"

lemma event_task_exec:
  assumes "event_task e = Some t"
  shows "manager_exec e m = (case tunnels m t of None \<Rightarrow> None | Some x \<Rightarrow> tunnel_next e t x m)"
  using assms by (cases e) (auto simp: manager_exec_def)

lemma manager_exec_step: "manager_exec e m = Some m' \<longleftrightarrow> manager_step m e m'"
proof
  assume "manager_step m e m'"
  then show "manager_exec e m = Some m'"
  proof (cases rule: manager_step.cases)
    case (bridge t target r)
    then show ?thesis by (simp add: manager_exec_def)
  next
    case (task t x)
    then show ?thesis by (simp add: event_task_exec)
  qed (simp_all add: manager_exec_def)
next
  assume ex: "manager_exec e m = Some m'"
  show "manager_step m e m'"
  proof (cases "event_task e")
    case None
    then show ?thesis
      using ex manager_step.bridge [OF _ prod.collapse [symmetric]]
      by (cases e) (auto simp: manager_exec_def intro: manager_step.intros split: if_splits)
  next
    case (Some t)
    then show ?thesis
      using ex manager_step.task [OF Some] by (auto simp: event_task_exec split: option.splits)
  qed
qed

lemma manager_replay_run: "manager_replay es m = Some m' \<Longrightarrow> run manager_step m es m'"
proof (induction es arbitrary: m)
  case (Cons e es)
  then obtain m1 where m1: "manager_exec e m = Some m1" "manager_replay es m1 = Some m'"
    by (auto split: option.splits)
  show ?case
    by (rule run_Cons [OF m1(1) [unfolded manager_exec_step] Cons.IH [OF m1(2)]])
qed auto

section \<open>One tunnel in a run\<close>

lemma close_credit_other [simp]: "t \<noteq> u \<Longrightarrow> tunnels (close_credit u m) t = tunnels m t"
  by (simp add: close_credit_def)

lemma respond_other [simp]: "t \<noteq> u \<Longrightarrow> tunnels (respond u r m) t = tunnels m t"
  by (simp add: respond_def)

lemma pending_registered: "manager_inv m \<Longrightarrow> map_of (pending m) sid = Some t \<Longrightarrow> map_of (streams m) sid = Some t"
  unfolding manager_inv_def tables_ok_def by blast

lemma remove_stream_other:
  assumes inv: "manager_inv m" and "map_of (streams m) sid \<noteq> Some t"
  shows "tunnels (remove_stream sid m) t = tunnels m t"
proof (cases "map_of (streams m) sid")
  case (Some u)
  then have "u \<noteq> t" "p = u" if "map_of (pending m) sid = Some p" for p
    using assms(2) pending_registered [OF inv that] by auto
  then show ?thesis
    using Some assms(2) by (auto simp: remove_stream_eq Let_def split: option.splits)
qed (simp add: remove_stream_def)

lemma upd_tunnel_other [simp]: "t \<noteq> u \<Longrightarrow> tunnels (upd_tunnel u f m) t = tunnels m t"
  by simp

definition msg_sid :: "message \<Rightarrow> u32 option" where
  "msg_sid msg = (case msg of ConnectOk sid \<Rightarrow> Some sid | ConnectErr sid _ \<Rightarrow> Some sid
     | Data sid _ \<Rightarrow> Some sid | WindowUpdate sid _ \<Rightarrow> Some sid | Close sid \<Rightarrow> Some sid
     | Reset sid \<Rightarrow> Some sid | _ \<Rightarrow> None)"

lemma same_tunnel_refl [simp]: "same_tunnel x x"
  by (simp add: same_tunnel_def)

lemma foldl_tunnel:
  assumes "\<And>m p x. tunnels m t = Some x \<Longrightarrow> \<exists>y. tunnels (f m p) t = Some y \<and> same_tunnel x y"
  shows "tunnels m t = Some x \<Longrightarrow> \<exists>y. tunnels (foldl f m ps) t = Some y \<and> same_tunnel x y"
proof (induction ps arbitrary: m x)
  case (Cons p ps)
  obtain y where y: "tunnels (f m p) t = Some y" "same_tunnel x y" using assms [OF Cons.prems] by blast
  then show ?case using Cons.IH [OF y(1)] same_tunnel_trans [OF y(2)] by auto
qed simp

lemma shutdown_tunnel:
  assumes "tunnels m t = Some x"
  shows "\<exists>y. tunnels (shutdown m) t = Some y \<and> same_tunnel x y"
proof -
  let ?r = "\<lambda>m (_, t). respond t (Inl ''connector disconnected'') m"
  let ?c = "\<lambda>m (_, t). close_credit t m"
  define m1 where "m1 = m\<lparr>shutdown_notified := True\<rparr>"
  define m2 where "m2 = (foldl ?r m1 (pending m1))\<lparr>pending := []\<rparr>"
  obtain y where y: "tunnels (foldl ?r m1 (pending m1)) t = Some y" "same_tunnel x y"
    using foldl_tunnel [of t ?r m1 x "pending m1"] respond_tunnel assms by (force simp: m1_def)
  obtain z where "tunnels (foldl ?c m2 (streams m2)) t = Some z" "same_tunnel y z"
    using foldl_tunnel [of t ?c m2 y "streams m2"] close_credit_tunnel y(1) by (force simp: m2_def)
  then show ?thesis
    using same_tunnel_trans [OF y(2)] by (auto simp: shutdown_def Let_def m1_def m2_def)
qed

text \<open>Closing every credit and answering every connect of a list.\<close>

lemma foldl_sel:
  "streams (foldl (\<lambda>m (_, t). respond t r m) m ps) = streams m"
  "streams (foldl (\<lambda>m (_, t). close_credit t m) m ps) = streams m"
  "pending (foldl (\<lambda>m (_, t). close_credit t m) m ps) = pending m"
  by (induction ps arbitrary: m) (auto simp: respond_def close_credit_def)

lemma shutdown_sel: "pending (shutdown m) = [] \<and> streams (shutdown m) = [] \<and> active_streams (shutdown m) = 0"
  by (simp add: shutdown_def Let_def foldl_sel)

lemma foldl_close:
  assumes "tunnels m t = Some x" and "(sid, t) \<in> set ps"
  shows "\<exists>y. tunnels (foldl (\<lambda>m (_ :: 'a, t). close_credit t m) m ps) t = Some y \<and> t_credit_closed y \<and> same_tunnel x y"
  using assms
proof (induction ps arbitrary: m x)
  case (Cons p ps)
  let ?c = "\<lambda>m (_ :: 'a, t). close_credit t m"
  obtain y where y: "tunnels (?c m p) t = Some y" "same_tunnel x y"
    using close_credit_tunnel [OF Cons.prems(1)] by (cases p) auto
  show ?case
  proof (cases "(sid, t) \<in> set ps")
    case True
    then show ?thesis using Cons.IH [OF y(1)] same_tunnel_trans [OF y(2)] by auto
  next
    case False
    then have "t_credit_closed y" using Cons.prems y(1) by (auto simp: close_credit_def)
    moreover obtain z where "tunnels (foldl ?c (?c m p) ps) t = Some z" "same_tunnel y z"
      using foldl_tunnel [of t ?c _ y ps, OF _ y(1)] close_credit_tunnel by fastforce
    ultimately show ?thesis using same_tunnel_trans [OF y(2)] by (auto simp: same_tunnel_def)
  qed
qed simp

lemma foldl_respond:
  assumes "tunnels m t = Some x" and "(sid, t) \<in> set ps"
  shows "\<exists>y. tunnels (foldl (\<lambda>m (_ :: 'a, t). respond t r m) m ps) t = Some y \<and> t_response y \<noteq> None \<and> same_tunnel x y"
  using assms
proof (induction ps arbitrary: m x)
  case (Cons p ps)
  let ?r = "\<lambda>m (_ :: 'a, t). respond t r m"
  obtain y where y: "tunnels (?r m p) t = Some y" "same_tunnel x y"
    using respond_tunnel [OF Cons.prems(1)] by (cases p) auto
  show ?case
  proof (cases "(sid, t) \<in> set ps")
    case True
    then show ?thesis using Cons.IH [OF y(1)] same_tunnel_trans [OF y(2)] by auto
  next
    case False
    then have "t_response y \<noteq> None" using Cons.prems y(1) by (auto simp: respond_def split: option.splits)
    moreover obtain z where "tunnels (foldl ?r (?r m p) ps) t = Some z" "same_tunnel y z"
      using foldl_tunnel [of t ?r _ y ps, OF _ y(1)] respond_tunnel by fastforce
    ultimately show ?thesis using same_tunnel_trans [OF y(2)] by (auto simp: same_tunnel_def)
  qed
qed simp

lemma shutdown_closes:
  assumes x: "tunnels m t = Some x" and reg: "map_of (streams m) sid = Some t"
  shows "\<exists>y. tunnels (shutdown m) t = Some y \<and> t_credit_closed y \<and>
    (map_of (pending m) sid = Some t \<longrightarrow> t_response y \<noteq> None)"
proof -
  let ?r = "\<lambda>m (_, t). respond t (Inl ''connector disconnected'') m"
  let ?c = "\<lambda>m (_, t). close_credit t m"
  define m1 where "m1 = m\<lparr>shutdown_notified := True\<rparr>"
  define m2 where "m2 = (foldl ?r m1 (pending m1))\<lparr>pending := []\<rparr>"
  have "\<exists>y. tunnels m2 t = Some y \<and> (map_of (pending m) sid = Some t \<longrightarrow> t_response y \<noteq> None)"
  proof (cases "map_of (pending m) sid = Some t")
    case True
    then show ?thesis
      using foldl_respond [of m1 t x sid "pending m1"] x map_of_SomeD [OF True]
      by (fastforce simp: m1_def m2_def)
  next
    case False
    then show ?thesis
      using foldl_tunnel [of t ?r m1 x "pending m1"] respond_tunnel x by (force simp: m1_def m2_def)
  qed
  then obtain y where y: "tunnels m2 t = Some y" "map_of (pending m) sid = Some t \<longrightarrow> t_response y \<noteq> None"
    by blast
  have "(sid, t) \<in> set (streams m2)" using map_of_SomeD [OF reg] by (simp add: m2_def m1_def foldl_sel)
  then show ?thesis
    using foldl_close [OF y(1)] y(2) by (fastforce simp: shutdown_def Let_def m1_def m2_def same_tunnel_def)
qed

text \<open>A step of another task, and of the read loop, on a tunnel.\<close>

lemma remove_finish_tunnel:
  assumes "tunnels m t = Some x" and "t \<noteq> u"
  shows "\<exists>y. tunnels (finish u (remove_stream sid m)) t = Some y \<and> same_tunnel x y"
  using remove_stream_tunnel [OF assms(1)] assms(2) by (simp add: finish_def)

lemma tunnel_next_other:
  assumes x: "tunnels m t = Some x" and "t \<noteq> u" and "tunnel_next e u z m = Some m'"
  shows "\<exists>y. tunnels m' t = Some y \<and> same_tunnel x y"
  using assms remove_finish_tunnel [OF x] remove_stream_tunnel [OF x]
  by (auto simp: tunnel_next_def start_tunnel_def finish_def release_stream_slot_def chunk_written_def Let_def
      split: manager_event.splits if_splits option.splits sum.splits list.splits)

lemma handle_message_other:
  assumes inv: "manager_inv m" and "\<And>sid. msg_sid msg = Some sid \<Longrightarrow> map_of (streams m) sid \<noteq> Some t"
  shows "tunnels (handle_message msg m) t = tunnels m t"
proof (cases msg)
  case (Data sid payload)
  show ?thesis
  proof (cases "map_of (streams m) sid")
    case (Some u)
    let ?f = "\<lambda>x. x\<lparr>t_outstanding := t_outstanding x + length payload\<rparr>"
    have u: "u \<noteq> t" using assms(2) Data Some by (auto simp: msg_sid_def)
    have rm: "tunnels (remove_stream sid (upd_tunnel u ?f m)) t = tunnels m t"
      using Some u pending_registered [OF inv, of sid]
      by (auto simp: remove_stream_eq Let_def split: option.splits)
    show ?thesis using Data Some u rm by (simp add: handle_message_def Let_def)
  qed (simp add: Data handle_message_def)
next
  case (WindowUpdate sid bytes)
  then show ?thesis using assms(2) by (auto simp: handle_message_def msg_sid_def split: option.splits)
next
  case (ConnectOk sid)
  then show ?thesis using assms(2) pending_registered [OF inv, of sid]
    by (auto simp: handle_message_def msg_sid_def split: option.splits)
next
  case (ConnectErr sid e)
  then show ?thesis using assms(2) pending_registered [OF inv, of sid]
    by (auto simp: handle_message_def msg_sid_def split: option.splits)
qed (use assms remove_stream_other [OF inv] in \<open>simp_all add: handle_message_def msg_sid_def\<close>)

text \<open>A tunnel that has its stream id keeps it, with its target, never goes back to an earlier phase, keeps
  its first answer, opens only when it was accepted, and not once it was refused.\<close>

definition tunnel_kept :: "tunnel \<Rightarrow> tunnel \<Rightarrow> bool" where
  "tunnel_kept x y \<longleftrightarrow> t_sid y = t_sid x \<and> t_target y = t_target x \<and> t_phase y \<noteq> Reserved
     \<and> (t_phase y = Connecting \<longrightarrow> t_phase x = Connecting)
     \<and> (t_phase y = Open \<longrightarrow> t_phase x = Open \<or> t_response x = Some (Inr ()))
     \<and> (t_response x \<noteq> None \<longrightarrow> t_response y = t_response x)
     \<and> (t_phase x \<noteq> Open \<and> (\<exists>e. t_response x = Some (Inl e)) \<longrightarrow> t_phase y \<noteq> Open)"

lemma same_tunnel_kept: "same_tunnel x y \<Longrightarrow> t_phase x \<noteq> Reserved \<Longrightarrow> tunnel_kept x y \<and> t_credit y = t_credit x"
  using same_tunnel_sel [of x y] by (auto simp: tunnel_kept_def same_tunnel_def)

lemma tunnel_kept_refl [simp]: "t_phase x \<noteq> Reserved \<Longrightarrow> tunnel_kept x x"
  by (simp add: tunnel_kept_def)

text \<open>The bytes a tunnel takes credit for and the bytes granted to a stream.\<close>

fun uploaded :: "nat \<Rightarrow> manager_event \<Rightarrow> nat" where
  "uploaded t (Upload u payload) = (if u = t then length payload else 0)"
| "uploaded t _ = 0"

fun granted :: "u32 \<Rightarrow> manager_event \<Rightarrow> nat" where
  "granted sid (Receive (WindowUpdate s bytes)) = (if s = sid then unat bytes else 0)"
| "granted sid _ = 0"

lemma window_update_kept:
  assumes inv: "manager_inv m" and x: "tunnels m t = Some x" and ph: "t_phase x \<noteq> Reserved"
    and reg: "map_of (streams m) (t_sid x) = Some t"
  shows "\<exists>y. tunnels (handle_message (WindowUpdate (t_sid x) bytes) m) t = Some y \<and> tunnel_kept x y
    \<and> t_credit y \<le> t_credit x + int (unat bytes)"
proof -
  have "(case credit_added (int STREAM_RECV_WINDOW) (as_i64 (unat bytes)) (t_credit x) of
      Some c \<Rightarrow> c | None \<Rightarrow> t_credit x) \<le> t_credit x + int (unat bytes)"
    using inv_tunnel [OF inv x] credit_added_bounds [of "int STREAM_RECV_WINDOW" "as_i64 (unat bytes)" "t_credit x"]
      as_i64_le [of "unat bytes"]
    by (force simp: tunnel_ok_def STREAM_RECV_WINDOW_def i64_max_def split: option.splits)
  then show ?thesis using reg x ph by (auto simp: handle_message_def tunnel_kept_def)
qed

lemma data_kept:
  assumes x: "tunnels m t = Some x" and ph: "t_phase x \<noteq> Reserved" and reg: "map_of (streams m) sid = Some t"
  shows "\<exists>y. tunnels (handle_message (Data sid payload) m) t = Some y \<and> tunnel_kept x y \<and> t_credit y \<le> t_credit x"
proof -
  let ?f = "\<lambda>x. x\<lparr>t_outstanding := t_outstanding x + length payload\<rparr>"
  obtain y where y: "tunnels (remove_stream sid (upd_tunnel t ?f m)) t = Some y" "same_tunnel (?f x) y"
    using remove_stream_tunnel [of "upd_tunnel t ?f m" t "?f x" sid] x by auto
  have "tunnel_kept x y \<and> t_credit y = t_credit x"
    using same_tunnel_kept [OF y(2)] ph by (simp add: tunnel_kept_def)
  then show ?thesis using reg x ph y(1)
    by (auto simp: handle_message_def Let_def tunnel_kept_def)
qed

lemma handle_message_kept:
  assumes inv: "manager_inv m" and x: "tunnels m t = Some x" and ph: "t_phase x \<noteq> Reserved"
  shows "\<exists>y. tunnels (handle_message msg m) t = Some y \<and> tunnel_kept x y
    \<and> t_credit y \<le> t_credit x + int (granted (t_sid x) (Receive msg))"
proof (cases "\<exists>sid. msg_sid msg = Some sid \<and> map_of (streams m) sid = Some t")
  case False
  then show ?thesis using handle_message_other [OF inv, of msg t] x ph by (auto simp: tunnel_kept_def)
next
  case True
  then obtain sid where sid: "msg_sid msg = Some sid" and reg: "map_of (streams m) sid = Some t" by blast
  have eq: "t_sid x = sid" using live_registered [OF inv reg] x by (auto simp: live_def)
  have same: "\<exists>y. tunnels m' t = Some y \<and> tunnel_kept x y \<and> t_credit y \<le> t_credit x"
    if "\<exists>y. tunnels m' t = Some y \<and> same_tunnel x y" for m'
    using that same_tunnel_kept ph by fastforce
  show ?thesis
  proof (cases msg)
    case (WindowUpdate s bytes)
    then show ?thesis using window_update_kept [OF inv x ph] sid reg eq by (simp add: msg_sid_def)
  next
    case (Data s payload)
    then show ?thesis using data_kept [OF x ph] sid reg by (simp add: msg_sid_def)
  qed (use sid x ph remove_stream_tunnel [OF x, THEN same] same [OF respond_tunnel] in
      \<open>auto simp: handle_message_def msg_sid_def split: option.splits\<close>)
qed

lemma removed_kept:
  assumes x: "tunnels m t = Some x" and ph: "t_phase x \<noteq> Reserved"
  shows "\<exists>y. tunnels (finish t (remove_stream sid m)) t = Some y \<and> tunnel_kept x y \<and> t_credit y \<le> t_credit x"
    and "\<exists>y. tunnels (upd_tunnel t (\<lambda>x. x\<lparr>t_uploading := False\<rparr>) (remove_stream sid m)) t = Some y
      \<and> tunnel_kept x y \<and> t_credit y \<le> t_credit x"
proof -
  obtain y where y: "tunnels (remove_stream sid m) t = Some y" "same_tunnel x y"
    using remove_stream_tunnel [OF x] by blast
  note k = same_tunnel_kept [OF y(2) ph]
  show "\<exists>y. tunnels (finish t (remove_stream sid m)) t = Some y \<and> tunnel_kept x y \<and> t_credit y \<le> t_credit x"
    using y(1) k by (simp add: finish_def tunnel_kept_def)
  show "\<exists>y. tunnels (upd_tunnel t (\<lambda>x. x\<lparr>t_uploading := False\<rparr>) (remove_stream sid m)) t = Some y
      \<and> tunnel_kept x y \<and> t_credit y \<le> t_credit x"
    using y(1) k by (simp add: tunnel_kept_def)
qed

lemma own_step_kept:
  assumes inv: "manager_inv m" and x: "tunnels m t = Some x" and ph: "t_phase x \<noteq> Reserved"
    and nx: "tunnel_next e t x m = Some m'" and e: "event_task e = Some t"
  shows "\<exists>y. tunnels m' t = Some y \<and> tunnel_kept x y \<and> t_credit y + int (uploaded t e) \<le> t_credit x"
proof (cases e)
  case (Upload u payload)
  then obtain c where c: "credit_taken (as_i64 (length payload)) (t_credit x) = Some c" "t_phase x = Open"
    and len: "length payload < 2 ^ 63"
    and m': "m' = upd_tunnel t (\<lambda>x. x\<lparr>t_credit := c, t_sending := Some payload\<rparr>) m"
    using nx by (auto simp: tunnel_next_def split: if_splits option.splits)
  have "t_credit x \<le> i64_max"
    using inv_tunnel [OF inv x] by (simp add: tunnel_ok_def i64_max_def STREAM_RECV_WINDOW_def)
  then have "c = t_credit x - int (length payload)"
    using credit_taken_bounds [OF c(1)] len by simp
  then show ?thesis using x c m' Upload by (simp add: tunnel_kept_def)
next
  case (Start u)
  then show ?thesis using nx ph by (simp add: tunnel_next_def split: if_splits)
next
  case (Quic_end u)
  then show ?thesis using nx ph by (simp add: tunnel_next_def split: if_splits)
qed (use nx x e removed_kept [OF x ph] in
  \<open>auto simp: tunnel_next_def chunk_written_def Let_def tunnel_kept_def
    split: if_splits option.splits sum.splits list.splits\<close>)

lemma manager_step_kept:
  assumes inv: "manager_inv m" and x: "tunnels m t = Some x" and ph: "t_phase x \<noteq> Reserved"
    and step: "manager_step m e m'"
  shows "\<exists>y. tunnels m' t = Some y \<and> tunnel_kept x y
    \<and> t_credit y + int (uploaded t e) \<le> t_credit x + int (granted (t_sid x) e)"
  using step
proof (cases rule: manager_step.cases)
  case (bridge u target r)
  then show ?thesis using x ph
    by (auto simp: bridge_def try_reserve_stream_slot_def split: if_splits)
next
  case (task u z)
  show ?thesis
  proof (cases "u = t")
    case True
    then show ?thesis using own_step_kept [OF inv x ph] task x by fastforce
  next
    case False
    then have "uploaded t e = 0" using task(1) by (cases e) auto
    then show ?thesis using tunnel_next_other [OF x _ task(3)] False same_tunnel_kept ph by fastforce
  qed
next
  case (receive msg)
  then show ?thesis using handle_message_kept [OF inv x ph, of msg] by simp
next
  case (reset i)
  then show ?thesis using x ph by simp
next
  case shut
  then show ?thesis using shutdown_tunnel [OF x] same_tunnel_kept ph by fastforce
qed

definition registered_as :: "nat \<Rightarrow> u32 \<Rightarrow> manager \<Rightarrow> bool" where
  "registered_as t sid m \<longleftrightarrow> manager_inv m \<and>
     (\<exists>x. tunnels m t = Some x \<and> t_sid x = sid \<and> t_phase x \<noteq> Reserved)"

definition refused :: "nat \<Rightarrow> manager \<Rightarrow> bool" where
  "refused t m \<longleftrightarrow> manager_inv m \<and> (\<exists>x e. tunnels m t = Some x \<and> t_phase x \<notin> {Reserved, Open}
     \<and> t_response x = Some (Inl e))"

interpretation upload_runs: step_budget manager_step "registered_as t sid"
  "\<lambda>m. t_credit (the (tunnels m t))" "\<lambda>e. int (granted sid e) - int (uploaded t e)"
proof unfold_locales
  fix m e m'
  assume r: "registered_as t sid m" and step: "manager_step m e m'"
  then obtain x where x: "manager_inv m" "tunnels m t = Some x" "t_sid x = sid" "t_phase x \<noteq> Reserved"
    by (auto simp: registered_as_def)
  obtain y where y: "tunnels m' t = Some y" "tunnel_kept x y"
    and c: "t_credit y + int (uploaded t e) \<le> t_credit x + int (granted sid e)"
    using manager_step_kept [OF x(1,2,4) step] x(3) by auto
  show "registered_as t sid m'"
    using y x(3) manager_step_inv [OF x(1) step] by (auto simp: registered_as_def tunnel_kept_def)
  show "t_credit (the (tunnels m' t)) \<le> t_credit (the (tunnels m t)) + (int (granted sid e) - int (uploaded t e))"
    using x(2) y(1) c by simp
qed

interpretation refused_runs: step_invariant manager_step "refused t"
proof unfold_locales
  fix m e m'
  assume r: "refused t m" and step: "manager_step m e m'"
  then obtain x r where x: "manager_inv m" "tunnels m t = Some x" "t_phase x \<notin> {Reserved, Open}"
    "t_response x = Some (Inl r)"
    by (auto simp: refused_def)
  then show "refused t m'"
    using manager_step_kept [OF x(1,2) _ step] manager_step_inv [OF x(1) step]
    by (auto simp: refused_def tunnel_kept_def)
qed

lemma sum_list_diff_int: "sum_list (map (\<lambda>e. int (f e) - int (g e)) tr) = int (sum_list (map f tr)) - int (sum_list (map g tr))"
  by (induction tr) auto

lemma reachable_inv: "run manager_step (manager_new cid l) tr m \<Longrightarrow> manager_inv m"
  using manager_runs.run_inv manager_inv_new by blast

lemma chunk_written_sel [simp]:
  "t_queue (chunk_written d x) = t_queue x" "t_phase (chunk_written d x) = t_phase x"
  "t_writing (chunk_written d x) = None" "t_sid (chunk_written d x) = t_sid x"
  "t_target (chunk_written d x) = t_target x" "t_response (chunk_written d x) = t_response x"
  "t_credit (chunk_written d x) = t_credit x"
  by (simp_all add: chunk_written_def Let_def)

lemma upload_bound:
  assumes "run manager_step (manager_new cid l) tr0 m" and "tunnels m t = Some x" and "t_phase x \<noteq> Reserved"
    and "run manager_step m tr m'"
  shows "sum_list (map (uploaded t) tr) \<le> STREAM_RECV_WINDOW + sum_list (map (granted (t_sid x)) tr)"
proof -
  have inv: "manager_inv m" by (rule reachable_inv [OF assms(1)])
  then have start: "registered_as t (t_sid x) m" using assms(2,3) by (simp add: registered_as_def)
  obtain y where y: "tunnels m' t = Some y" "manager_inv m'"
    using upload_runs.run_inv [OF assms(4) start] by (auto simp: registered_as_def)
  have "t_credit y \<le> t_credit x + sum_list (map (\<lambda>e. int (granted (t_sid x) e) - int (uploaded t e)) tr)"
    using upload_runs.run_level [OF assms(4) start] assms(2) y(1) by simp
  then show ?thesis
    using inv_tunnel [OF y(2,1)] inv_tunnel [OF inv assms(2)]
    by (simp add: tunnel_ok_def sum_list_diff_int)
qed

text \<open>A queued payload is written, and granted when the threshold is reached.\<close>

lemma chunk_drained:
  assumes x: "tunnels m t = Some x" "t_phase x = Open" "t_writing x = None" "t_grant x = None"
    and gone: "map_of (streams m) (t_sid x) \<noteq> Some t" and q: "d # q = t_queue x"
  shows "\<exists>tr m' y. run manager_step m tr m' \<and> length tr \<le> 3 \<and> set tr \<subseteq> {Take_chunk t, Chunk_written t, Window_sent t}
    \<and> tunnels m' t = Some y \<and> t_queue y = q \<and> t_phase y = Open \<and> t_writing y = None \<and> t_grant y = None
    \<and> map_of (streams m') (t_sid y) \<noteq> Some t"
proof -
  let ?x1 = "x\<lparr>t_queue := q, t_writing := Some d\<rparr>"
  let ?m1 = "upd_tunnel t (\<lambda>x. x\<lparr>t_queue := q, t_writing := Some d\<rparr>) m"
  let ?m2 = "upd_tunnel t (chunk_written d) ?m1"
  have "manager_step m (Take_chunk t) ?m1"
    using x q by (intro manager_step.task [of _ t _ x]) (auto simp: tunnel_next_def split: list.splits)
  moreover have "manager_step ?m1 (Chunk_written t) ?m2"
    using x by (intro manager_step.task [of _ t _ ?x1]) (auto simp: tunnel_next_def)
  ultimately have run2: "run manager_step m [Take_chunk t, Chunk_written t] ?m2"
    using run_Cons [of manager_step] run_single [of manager_step] by blast
  have x2: "tunnels ?m2 t = Some (chunk_written d ?x1)" using x(1) by simp
  show ?thesis
  proof (cases "t_grant (chunk_written d ?x1)")
    case None
    then show ?thesis using run2 x2 x(2) gone
      by (intro exI [of _ "[Take_chunk t, Chunk_written t]"] exI [of _ ?m2] exI [of _ "chunk_written d ?x1"]) simp
  next
    case (Some n)
    let ?m3 = "say (WindowUpdate (t_sid x) (of_nat n)) (upd_tunnel t (\<lambda>x. x\<lparr>t_grant := None\<rparr>) ?m2)"
    have "manager_step ?m2 (Window_sent t) ?m3"
      using x2 x(2) Some by (intro manager_step.task [of _ t _ "chunk_written d ?x1"]) (simp_all add: tunnel_next_def)
    then have "run manager_step m [Take_chunk t, Chunk_written t, Window_sent t] ?m3"
      using run_snoc [OF run2] by fastforce
    then show ?thesis using x(1,2) gone
      by (intro exI [of _ "[Take_chunk t, Chunk_written t, Window_sent t]"] exI [of _ ?m3]
          exI [of _ "(chunk_written d ?x1)\<lparr>t_grant := None\<rparr>"]) simp
  qed
qed

section \<open>A concrete session\<close>

lemmas manager_eval = manager_exec_def manager_new_def bridge_def try_reserve_stream_slot_def
  MAX_ACTIVE_STREAMS_def tunnel_next_def start_tunnel_def upd_tunnel_def say_def respond_def
  handle_message_def

definition demo_tunnel :: tunnel where
  "demo_tunnel = \<lparr>t_sid = 1, t_target = ''a:1'', t_phase = Waiting, t_response = None, t_queue = [],
     t_writing = None, t_outstanding = 0, t_drained = 0, t_grant = None, t_credit = int STREAM_RECV_WINDOW,
     t_credit_closed = False, t_uploading = True, t_sending = None\<rparr>"

definition demo_waiting :: manager where
  "demo_waiting = \<lparr>connector_id = ''c'', mgr_link = Wss, active_streams = 1, shutdown_notified = False,
     next_stream_id = 2, pending = [(1, 1)], streams = [(1, 1)], tunnels = [1 \<mapsto> demo_tunnel],
     resets = [], outbox = [Connect 1 ''a:1'']\<rparr>"

definition demo_open :: manager where
  "demo_open = demo_waiting\<lparr>pending := [],
     tunnels := [1 \<mapsto> demo_tunnel\<lparr>t_phase := Open, t_response := Some (Inr ())\<rparr>]\<rparr>"

lemmas demo_defs = demo_tunnel_def demo_waiting_def demo_open_def

lemma demo_bridge_run: "run manager_step (manager_new ''c'' Wss) [Bridge 1 ''a:1'']
    (snd (bridge 1 ''a:1'' (manager_new ''c'' Wss)))"
  by (rule manager_replay_run) (simp add: manager_eval)

lemma demo_waiting_run: "run manager_step (manager_new ''c'' Wss)
    [Bridge 1 ''a:1'', Start 1, Connect_sent 1] demo_waiting"
  by (rule manager_replay_run) (simp add: demo_defs manager_eval)

lemma demo_open_run: "run manager_step (manager_new ''c'' Wss)
    [Bridge 1 ''a:1'', Start 1, Connect_sent 1, Receive (ConnectOk 1), Connect_answered 1] demo_open"
  by (rule manager_replay_run) (simp add: demo_defs manager_eval)

section \<open>Properties of a session\<close>

text \<open>(C13) The session never has more than \<open>MAX_ACTIVE_STREAMS\<close> slots taken, and until it is shut
  down the counter is exact: one slot for each bridge that has not registered its stream yet and
  one for each registered stream. No run of connector messages, task steps and failures leaks a
  slot.\<close>

theorem stream_slots_exact:
  assumes "run manager_step (manager_new cid l) tr m"
  shows "active_streams m \<le> MAX_ACTIVE_STREAMS \<and>
    (shutdown_notified m \<or> active_streams m = card (reserved_tasks m) + length (streams m))"
  using reachable_inv [OF assms] by (simp add: manager_inv_def slots_ok_def)

theorem stream_slots_exact_witness: "active_streams demo_open = card (reserved_tasks demo_open) + 1"
  using stream_slots_exact [OF demo_open_run] by (simp add: demo_defs)

text \<open>(C5) Whatever the connector sends, a tunnel never holds more than one window of download bytes
  that are not written to its client.\<close>

theorem download_buffer_bounded:
  assumes "run manager_step (manager_new cid l) tr m" and "tunnels m t = Some x"
  shows "queued x \<le> STREAM_RECV_WINDOW"
  using inv_tunnel [OF reachable_inv [OF assms(1)] assms(2)] by (simp add: tunnel_ok_def)

theorem download_buffer_bounded_witness:
  "\<exists>m x. manager_replay [Receive (Data 1 [1, 2, 3])] demo_open = Some m \<and> tunnels m 1 = Some x
    \<and> t_queue x = [[1, 2, 3]] \<and> queued x \<le> STREAM_RECV_WINDOW"
proof -
  let ?x = "demo_tunnel\<lparr>t_phase := Open, t_response := Some (Inr ()), t_queue := [[1, 2, 3]],
    t_outstanding := 3\<rparr>"
  let ?m = "demo_open\<lparr>tunnels := [1 \<mapsto> ?x]\<rparr>"
  have ex: "manager_replay [Receive (Data 1 [1, 2, 3])] demo_open = Some ?m"
    by (simp add: demo_defs manager_eval receiver_gone_def STREAM_RECV_WINDOW_def numeral_3_eq_3)
  have "queued ?x \<le> STREAM_RECV_WINDOW"
    by (rule download_buffer_bounded [OF run_append [OF manager_replay_run [OF ex] demo_open_run], of 1]) simp
  then show ?thesis by (simp only: ex) simp
qed

text \<open>The upload of a tunnel never runs ahead of the connector by more than the window: the
  bytes it sends are at most its credit plus what the connector granted to its stream.\<close>

theorem upload_within_credit:
  assumes "run manager_step (manager_new cid l) tr0 m" and "tunnels m t = Some x" and "t_phase x \<noteq> Reserved"
    and "run manager_step m tr m'"
  shows "sum_list (map (uploaded t) tr) \<le> STREAM_RECV_WINDOW + sum_list (map (granted (t_sid x)) tr)"
  by (rule upload_bound [OF assms])

theorem upload_within_credit_witness:
  "\<exists>m. manager_replay [Upload 1 [7, 8], Upload_sent 1, Receive (WindowUpdate 1 2), Upload 1 [9]] demo_open = Some m \<and>
    sum_list (map (uploaded 1) [Upload 1 [7, 8], Upload_sent 1, Receive (WindowUpdate 1 2), Upload 1 [9]]) \<le> STREAM_RECV_WINDOW + 2"
proof -
  let ?tr = "[Upload 1 [7, 8], Upload_sent 1, Receive (WindowUpdate 1 2), Upload 1 [9]]"
  obtain m where m: "manager_replay ?tr demo_open = Some m"
    by (simp add: demo_defs manager_eval credit_taken_def credit_added_def i64_saturating_add_def i64_sub_id
        i64_max_def i64_min_def STREAM_RECV_WINDOW_def)
  show ?thesis
    using m upload_within_credit [OF demo_open_run _ _ manager_replay_run [OF m], of 1
        "demo_tunnel\<lparr>t_phase := Open, t_response := Some (Inr ())\<rparr>"]
    by (simp add: demo_defs)
qed

text \<open>A connect that is still unanswered when its stream is removed is refused for good: however
  the session goes on, a late \<open>ConnectOk\<close> included, the tunnel never opens.\<close>

theorem removed_never_opens:
  assumes "run manager_step (manager_new cid l) tr0 m" and "map_of (pending m) sid = Some t"
    and "tunnels m t = Some x" and "t_response x = None" and "t_phase x \<noteq> Open"
    and "run manager_step (remove_stream sid m) tr m'"
  shows "\<exists>y. tunnels m' t = Some y \<and> t_phase y \<noteq> Open"
proof -
  have inv: "manager_inv m" by (rule reachable_inv [OF assms(1)])
  have reg: "map_of (streams m) sid = Some t" by (rule pending_registered [OF inv assms(2)])
  have "t_phase x \<noteq> Reserved" using live_registered [OF inv reg] assms(3) by (auto simp: live_def)
  then have "refused t (remove_stream sid m)"
    using assms(2-5) reg remove_stream_inv [OF inv, of sid]
    by (simp add: refused_def remove_stream_eq Let_def respond_def close_credit_def)
  then show ?thesis using refused_runs.run_inv [OF assms(6)] by (auto simp: refused_def)
qed

theorem removed_never_opens_witness:
  "\<exists>m y. manager_replay [Receive (ConnectOk 1), Connect_answered 1] (remove_stream 1 demo_waiting) = Some m
    \<and> tunnels m 1 = Some y \<and> t_phase y \<noteq> Open"
proof -
  obtain m where m: "manager_replay [Receive (ConnectOk 1), Connect_answered 1] (remove_stream 1 demo_waiting) = Some m"
    by (simp add: demo_defs manager_eval remove_stream_def close_credit_def release_stream_slot_def)
  show ?thesis
    using m removed_never_opens [OF demo_waiting_run _ _ _ _ manager_replay_run [OF m], of 1 demo_tunnel]
    by (simp add: demo_defs)
qed

text \<open>What the read loop does with \<open>Data\<close> for a registered stream: within the window the payload
  goes to the end of the tunnel's queue and nothing else changes; past it the stream is removed,
  its slot is freed, its upload is woken, what was queued is kept, and a \<open>Reset\<close> is left for a WSS connector.\<close>

theorem data_delivered_or_reset:
  assumes "run manager_step (manager_new cid l) tr m" and "map_of (streams m) sid = Some t"
    and "tunnels m t = Some x"
  shows "let m' = handle_message (Data sid payload) m; n = queued x + length payload in
    if n \<le> STREAM_RECV_WINDOW
    then m' = m\<lparr>tunnels := (tunnels m)(t \<mapsto> x\<lparr>t_outstanding := n, t_queue := t_queue x @ [payload]\<rparr>)\<rparr>
    else map_of (streams m') sid = None \<and> map_of (pending m') sid = None
      \<and> active_streams m' = active_streams m - 1
      \<and> resets m' = resets m @ (if mgr_link m = Wss then [sid] else [])
      \<and> (\<exists>y. tunnels m' t = Some y \<and> t_credit_closed y \<and> t_queue y = t_queue x)"
proof -
  have inv: "manager_inv m" by (rule reachable_inv [OF assms(1)])
  have lv: "live sid x" using live_registered [OF inv assms(2)] assms(3) by simp
  let ?f = "\<lambda>x. x\<lparr>t_outstanding := t_outstanding x + length payload\<rparr>"
  have gone: "\<not> receiver_gone t (upd_tunnel t ?f m)" and out: "t_outstanding x = queued x"
    using lv assms(3) by (auto simp: receiver_gone_def live_def)
  have dist: "distinct_keys (streams m)" "distinct_keys (pending m)"
    using inv by (auto simp: manager_inv_def tables_ok_def)
  have p: "map_of (pending m) sid = Some p \<Longrightarrow> p = t" for p
    using pending_registered [OF inv] assms(2) by fastforce
  show ?thesis
    using assms(2,3) gone out dist p
    by (cases "map_of (pending m) sid")
      (simp_all add: handle_message_def Let_def remove_stream_eq close_credit_def respond_def map_of_delete upd_tunnel_def)
qed

theorem data_delivered_or_reset_witness:
  "map_of (streams (handle_message (Data 1 (replicate (STREAM_RECV_WINDOW + 1) 0)) demo_open)) 1 = None \<and>
   resets (handle_message (Data 1 (replicate (STREAM_RECV_WINDOW + 1) 0)) demo_open) = [1]"
  using data_delivered_or_reset [OF demo_open_run, of 1 1
      "demo_tunnel\<lparr>t_phase := Open, t_response := Some (Inr ())\<rparr>" "replicate (STREAM_RECV_WINDOW + 1) 0"]
  by (simp add: demo_defs queued_def Let_def)

text \<open>A message about one stream touches no other tunnel, and a message about a stream that is
  not registered changes nothing at all.\<close>

theorem message_isolated:
  assumes "run manager_step (manager_new cid l) tr m" and "msg_sid msg = Some sid"
  shows "(map_of (streams m) sid = None \<longrightarrow> handle_message msg m = m) \<and>
    (\<forall>t. map_of (streams m) sid \<noteq> Some t \<longrightarrow> tunnels (handle_message msg m) t = tunnels m t)"
proof -
  have inv: "manager_inv m" by (rule reachable_inv [OF assms(1)])
  have "map_of (pending m) sid = None" if "map_of (streams m) sid = None"
    using pending_registered [OF inv, of sid] that by (cases "map_of (pending m) sid") auto
  then have "map_of (streams m) sid = None \<longrightarrow> handle_message msg m = m"
    using assms(2) by (cases msg) (auto simp: handle_message_def msg_sid_def remove_stream_def)
  then show ?thesis using handle_message_other [OF inv, of msg] assms(2) by auto
qed

theorem message_isolated_witness: "handle_message (Data 9 [1]) demo_open = demo_open"
  using message_isolated [OF demo_open_run, of "Data 9 [1]" 9] by (simp add: demo_defs msg_sid_def)

text \<open>A new tunnel gets its stream at once while the session is up: the search for an id ends
  within as many turns as there are streams plus one, although the counter wraps, and the id it
  returns is not in use.\<close>

theorem start_tunnel_fresh:
  assumes "run manager_step (manager_new cid l) tr m" and "\<not> shutdown_notified m"
    and "tunnels m t = Some x" and "t_phase x = Reserved"
  shows "\<exists>m' sid. start_tunnel t m = Some m' \<and> map_of (streams m) sid = None
    \<and> map_of (streams m') sid = Some t \<and> map_of (pending m') sid = Some t"
proof -
  have "length (streams m) \<le> MAX_ACTIVE_STREAMS"
    using reachable_inv [OF assms(1)] assms(2) by (simp add: manager_inv_def slots_ok_def)
  then obtain sid n where al: "alloc_stream_id (Suc (length (streams m))) (streams m) (next_stream_id m) = Some (sid, n)"
    using alloc_succeeds [of "streams m" "next_stream_id m"] by (fastforce simp: MAX_ACTIVE_STREAMS_def)
  then show ?thesis
    using alloc_fresh [OF al] by (auto simp: start_tunnel_def map_of_eq_None_iff map_of_update)
qed

theorem start_tunnel_fresh_witness:
  "\<exists>m' sid. start_tunnel 1 (snd (bridge 1 ''a:1'' (manager_new ''c'' Wss))) = Some m'
    \<and> map_of (streams m') sid = Some 1"
  using start_tunnel_fresh [OF demo_bridge_run, of 1] by (fastforce simp: manager_eval)

text \<open>Shutting a session down leaves nothing waiting: no stream, no pending connect and no slot
  remain, every registered upload finds its credit closed and every pending connect its answer.\<close>

theorem shutdown_releases_all:
  assumes "run manager_step (manager_new cid l) tr m"
  shows "pending (shutdown m) = [] \<and> streams (shutdown m) = [] \<and> active_streams (shutdown m) = 0 \<and>
    (\<forall>sid t. map_of (streams m) sid = Some t \<longrightarrow>
      (\<exists>y. tunnels (shutdown m) t = Some y \<and> t_credit_closed y \<and>
        (map_of (pending m) sid = Some t \<longrightarrow> t_response y \<noteq> None)))"
  using reachable_inv [OF assms] shutdown_sel shutdown_closes live_registered by blast

theorem shutdown_releases_all_witness:
  "streams (shutdown demo_waiting) = [] \<and> (\<exists>y. tunnels (shutdown demo_waiting) 1 = Some y \<and>
     t_credit_closed y \<and> t_response y \<noteq> None)"
  using shutdown_releases_all [OF demo_waiting_run] by (auto simp: demo_defs)



end
