(* ===== verification/Connector_Registry.thy ===== *)
theory Connector_Registry
  imports Connector_Manager
begin

text \<open>
  The registry of connected sessions (\<open>ConnectorRegistry\<close>, the end of
  \<open>crates/server/src/connector_manager.rs\<close>) over a heap of sessions, whose addresses stand for
  the \<open>Arc\<close> pointers the code compares with \<open>ptr_eq\<close>.
\<close>

declare map_of_eq_Some_iff [simp del] and Some_eq_map_of_iff [simp del]

record registry =
  managers :: "(string \<times> nat) list"
  sessions :: "nat \<Rightarrow> manager option"

definition registry_default :: registry where
  "registry_default = \<lparr>managers = [], sessions = (\<lambda>_. None)\<rparr>"

definition shutdown_at :: "nat \<Rightarrow> registry \<Rightarrow> registry" where
  "shutdown_at p r = r\<lparr>sessions := (sessions r)(p := map_option shutdown (sessions r p))\<rparr>"

definition register :: "nat \<Rightarrow> manager \<Rightarrow> registry \<Rightarrow> registry" where
  "register p m r =
     (let replaced = map_of (managers r) (connector_id m);
          r1 = r\<lparr>managers := AList.update (connector_id m) p (managers r)\<rparr>
      in case replaced of
           Some previous \<Rightarrow> if previous \<noteq> p then shutdown_at previous r1 else r1
         | None \<Rightarrow> r1)"

definition unregister_manager :: "nat \<Rightarrow> manager \<Rightarrow> registry \<Rightarrow> registry" where
  "unregister_manager p m r =
     (if map_of (managers r) (connector_id m) = Some p
      then shutdown_at p (r\<lparr>managers := AList.delete (connector_id m) (managers r)\<rparr>)
      else r)"

definition unregister :: "string \<Rightarrow> registry \<Rightarrow> registry" where
  "unregister cid r = (case map_of (managers r) cid of
     Some p \<Rightarrow> shutdown_at p (r\<lparr>managers := AList.delete cid (managers r)\<rparr>) | None \<Rightarrow> r)"

definition registry_get :: "string \<Rightarrow> registry \<Rightarrow> nat option" where
  "registry_get cid r = map_of (managers r) cid"

definition registry_transport_label :: "string \<Rightarrow> registry \<Rightarrow> string option" where
  "registry_transport_label cid r = (case registry_get cid r of
     None \<Rightarrow> None | Some p \<Rightarrow> map_option transport_label (sessions r p))"

section \<open>Runs of the registry\<close>

text \<open>A session is created and registered by its transport, unregistered by it when it ends, and
  kicked by the API; between these its own steps run.\<close>

datatype registry_event = Session_up nat string link | Session_down nat | Kick string
  | Session_step nat manager_event

definition session_up :: "nat \<Rightarrow> string \<Rightarrow> link \<Rightarrow> registry \<Rightarrow> registry" where
  "session_up p cid l r =
     register p (manager_new cid l) (r\<lparr>sessions := (sessions r)(p \<mapsto> manager_new cid l)\<rparr>)"

inductive registry_step :: "registry \<Rightarrow> registry_event \<Rightarrow> registry \<Rightarrow> bool" where
  up: "sessions r p = None \<Longrightarrow> registry_step r (Session_up p cid l) (session_up p cid l r)"
| down: "sessions r p = Some m \<Longrightarrow> registry_step r (Session_down p) (unregister_manager p m r)"
| kick: "registry_step r (Kick cid) (unregister cid r)"
| session: "sessions r p = Some m \<Longrightarrow> manager_step m e m' \<Longrightarrow>
    registry_step r (Session_step p e) (r\<lparr>sessions := (sessions r)(p \<mapsto> m')\<rparr>)"

text \<open>An entry points to a session of its connector, and every session that is not shut down is the
  registered one.\<close>

definition registry_inv :: "registry \<Rightarrow> bool" where
  "registry_inv r \<longleftrightarrow> distinct_keys (managers r)
     \<and> (\<forall>cid p. map_of (managers r) cid = Some p \<longrightarrow> (\<exists>m. sessions r p = Some m \<and> connector_id m = cid))
     \<and> (\<forall>p m. sessions r p = Some m \<longrightarrow> manager_inv m
          \<and> (map_of (managers r) (connector_id m) = Some p \<or> shutdown_notified m))"

lemma foldl_const:
  assumes "\<And>m p. g (f m p) = g m"
  shows "g (foldl f m ps) = g m"
  by (induction ps arbitrary: m) (simp_all add: assms)

lemma shutdown_const [simp]: "connector_id (shutdown m) = connector_id m" "shutdown_notified (shutdown m)"
  by (simp_all add: shutdown_def Let_def respond_def close_credit_def split_def
      foldl_const [where g = connector_id] foldl_const [where g = shutdown_notified])

lemma remove_stream_const [simp]: "connector_id (remove_stream sid m) = connector_id m"
  "shutdown_notified (remove_stream sid m) = shutdown_notified m"
  by (simp_all add: remove_stream_def Let_def respond_def close_credit_def release_stream_slot_def
      split: option.splits)

lemma handle_message_const [simp]: "connector_id (handle_message msg m) = connector_id m"
  "shutdown_notified (handle_message msg m) = shutdown_notified m"
  by (cases msg; simp add: handle_message_def Let_def respond_def split: option.splits)+

lemma tunnel_next_const: "tunnel_next e t x m = Some m' \<Longrightarrow>
    connector_id m' = connector_id m \<and> shutdown_notified m' = shutdown_notified m"
  by (cases e) (auto simp: tunnel_next_def start_tunnel_def finish_def chunk_written_def release_stream_slot_def
      Let_def split: if_splits option.splits sum.splits list.splits)

lemma manager_step_const: "manager_step m e m' \<Longrightarrow>
    connector_id m' = connector_id m \<and> (shutdown_notified m \<longrightarrow> shutdown_notified m')"
  by (erule manager_step.cases)
    (auto simp: bridge_def try_reserve_stream_slot_def dest: tunnel_next_const split: if_splits)

lemma shutdown_at_sel [simp]: "managers (shutdown_at p r) = managers r"
  "sessions (shutdown_at p r) = (sessions r)(p := map_option shutdown (sessions r p))"
  by (simp_all add: shutdown_at_def)

lemma registry_entry: "registry_inv r \<Longrightarrow> map_of (managers r) cid = Some p \<Longrightarrow>
    \<exists>m. sessions r p = Some m \<and> connector_id m = cid"
  unfolding registry_inv_def by blast

lemma registry_session: "registry_inv r \<Longrightarrow> sessions r p = Some m \<Longrightarrow>
    manager_inv m \<and> (map_of (managers r) (connector_id m) = Some p \<or> shutdown_notified m)"
  unfolding registry_inv_def by blast

lemma registry_inv_distinct: "registry_inv r \<Longrightarrow> distinct_keys (managers r)"
  by (simp add: registry_inv_def)

text \<open>Taking an entry away from, or over by, another session keeps the invariant when its session is
  shut down.\<close>

lemma drop_entry_inv:
  assumes inv: "registry_inv r" and reg: "map_of (managers r) cid = Some p"
  shows "registry_inv (shutdown_at p (r\<lparr>managers := AList.delete cid (managers r)\<rparr>))" (is "registry_inv ?r")
proof -
  obtain m where m: "sessions r p = Some m" "connector_id m = cid" using registry_entry [OF inv reg] by blast
  have "\<exists>n. sessions ?r q = Some n \<and> connector_id n = c" if "map_of (managers ?r) c = Some q" for c q
    using that registry_entry [OF inv, of c q] by (auto simp: map_of_delete split: if_splits)
  moreover have "manager_inv n \<and> (map_of (managers ?r) (connector_id n) = Some q \<or> shutdown_notified n)"
    if q: "sessions ?r q = Some n" for q n
  proof (cases "q = p")
    case True
    then show ?thesis using q registry_session [OF inv m(1)] shutdown_inv by (auto simp: m)
  next
    case False
    then show ?thesis using q registry_session [OF inv, of q n] reg by (auto simp: map_of_delete)
  qed
  ultimately show ?thesis
    using registry_inv_distinct [OF inv] unfolding registry_inv_def by (simp add: distinct_delete)
qed

lemma add_entry_inv:
  assumes inv: "registry_inv r" and fresh: "sessions r p = None" and none: "map_of (managers r) cid = None"
  shows "registry_inv (r\<lparr>sessions := (sessions r)(p \<mapsto> manager_new cid l),
    managers := AList.update cid p (managers r)\<rparr>)" (is "registry_inv ?r")
proof -
  have id: "connector_id (manager_new cid l) = cid" by (simp add: manager_new_def)
  have "\<exists>n. sessions ?r q = Some n \<and> connector_id n = c" if "map_of (managers ?r) c = Some q" for c q
    using that registry_entry [OF inv, of c q] fresh id by (auto simp: map_of_update split: if_splits)
  moreover have "manager_inv n \<and> (map_of (managers ?r) (connector_id n) = Some q \<or> shutdown_notified n)"
    if q: "sessions ?r q = Some n" for q n
    using q registry_session [OF inv, of q n] none id manager_inv_new [of cid l]
    by (auto simp: map_of_update split: if_splits)
  ultimately show ?thesis
    using registry_inv_distinct [OF inv] unfolding registry_inv_def by (simp add: distinct_update)
qed

lemma session_up_inv:
  assumes inv: "registry_inv r" and fresh: "sessions r p = None"
  shows "registry_inv (session_up p cid l r)"
proof (cases "map_of (managers r) cid")
  case None
  then show ?thesis using add_entry_inv [OF inv fresh None, of l]
    by (simp add: session_up_def register_def manager_new_def)
next
  case (Some q)
  let ?d = "shutdown_at q (r\<lparr>managers := AList.delete cid (managers r)\<rparr>)"
  obtain m where "sessions r q = Some m" using registry_entry [OF inv Some] by blast
  then have q: "q \<noteq> p" using fresh by auto
  have inv1: "registry_inv (?d\<lparr>sessions := (sessions ?d)(p \<mapsto> manager_new cid l),
      managers := AList.update cid p (managers ?d)\<rparr>)"
    using q fresh by (intro add_entry_inv [OF drop_entry_inv [OF inv Some]]) (simp_all add: map_of_delete)
  have mo: "map_of (AList.update cid p (AList.delete cid (managers r))) = map_of (AList.update cid p (managers r))"
    by (rule ext) (simp add: map_of_update map_of_delete)
  have up: "session_up p cid l r = ?d\<lparr>sessions := (sessions ?d)(p \<mapsto> manager_new cid l),
      managers := AList.update cid p (managers r)\<rparr>"
    using Some q by (auto simp: session_up_def register_def manager_new_def shutdown_at_def fun_upd_twist)
  show ?thesis
    using inv1 registry_inv_distinct [OF inv] unfolding registry_inv_def up
    by (simp add: mo distinct_update)
qed

lemma registry_step_inv: "registry_inv r \<Longrightarrow> registry_step r e r' \<Longrightarrow> registry_inv r'"
proof -
  assume inv: "registry_inv r" and step: "registry_step r e r'"
  from step show "registry_inv r'"
  proof cases
    case (up p cid l)
    then show ?thesis using session_up_inv [OF inv] by simp
  next
    case (down p m)
    then show ?thesis using drop_entry_inv [OF inv] inv by (simp add: unregister_manager_def)
  next
    case (kick cid)
    then show ?thesis using drop_entry_inv [OF inv] inv by (simp add: unregister_def split: option.splits)
  next
    case (session p m me m')
    let ?r = "r\<lparr>sessions := (sessions r)(p \<mapsto> m')\<rparr>"
    note m' = manager_step_const [OF session(4)]
    have "\<exists>n. sessions ?r q = Some n \<and> connector_id n = c" if "map_of (managers r) c = Some q" for c q
      using registry_entry [OF inv that] session(3) m' by auto
    moreover have "manager_inv n \<and> (map_of (managers r) (connector_id n) = Some q \<or> shutdown_notified n)"
      if q: "sessions ?r q = Some n" for q n
    proof (cases "q = p")
      case True
      then show ?thesis
        using q registry_session [OF inv session(3)] manager_step_inv [OF _ session(4)] m' by auto
    qed (use q registry_session [OF inv, of q n] in simp)
    ultimately show ?thesis
      using registry_inv_distinct [OF inv] unfolding registry_inv_def session(2) by simp
  qed
qed

interpretation registry_runs: step_invariant registry_step registry_inv
  by unfold_locales (rule registry_step_inv)

lemma registry_inv_default: "registry_inv registry_default"
  by (simp add: registry_inv_def registry_default_def)

section \<open>Properties\<close>

text \<open>Two sessions of the same connector, the second over another transport.\<close>

definition demo_reconnected :: registry where
  "demo_reconnected = session_up 2 ''c'' Wss (session_up 1 ''c'' Quic registry_default)"

lemmas registry_eval = session_up_def register_def registry_default_def manager_new_def shutdown_at_def

lemma demo_reconnected_run:
  "run registry_step registry_default [Session_up 1 ''c'' Quic, Session_up 2 ''c'' Wss] demo_reconnected"
proof -
  have "registry_step registry_default (Session_up 1 ''c'' Quic) (session_up 1 ''c'' Quic registry_default)"
    by (rule registry_step.up) (simp add: registry_default_def)
  moreover have "registry_step (session_up 1 ''c'' Quic registry_default) (Session_up 2 ''c'' Wss) demo_reconnected"
    unfolding demo_reconnected_def by (rule registry_step.up) (simp add: registry_eval)
  ultimately show ?thesis using run_Nil [of registry_step] run_Cons [of registry_step] by blast
qed

text \<open>(C12) However connectors connect, reconnect, drop and are kicked, a connector has at most one
  session that is not shut down, and it is the one the proxy finds.\<close>

theorem one_live_session:
  assumes "run registry_step registry_default tr r"
    and "sessions r p = Some m" and "\<not> shutdown_notified m"
    and "sessions r q = Some n" and "\<not> shutdown_notified n" and "connector_id m = connector_id n"
  shows "p = q \<and> registry_get (connector_id m) r = Some p"
proof -
  have inv: "registry_inv r" by (rule registry_runs.run_inv [OF assms(1) registry_inv_default])
  show ?thesis
    using registry_session [OF inv assms(2)] registry_session [OF inv assms(4)] assms(3,5,6)
    by (simp add: registry_get_def)
qed

theorem one_live_session_witness: "registry_get ''c'' demo_reconnected = Some 2"
  using one_live_session [OF demo_reconnected_run, of 2 "manager_new ''c'' Wss" 2 "manager_new ''c'' Wss"]
  by (simp add: demo_reconnected_def registry_eval)

text \<open>A reconnect takes the entry over and shuts the previous session down; the end of the
  previous session then changes nothing, and the end of the new one frees the entry. Other
  connectors keep their entry and their session throughout.\<close>

theorem reconnect_replaces:
  assumes "run registry_step registry_default tr r" and "sessions r p = None"
    and "registry_get cid r = Some q"
  shows "let r1 = session_up p cid l r in registry_get cid r1 = Some p \<and>
    (\<exists>m. sessions r1 q = Some m \<and> shutdown_notified m \<and> streams m = [] \<and> pending m = [] \<and>
      unregister_manager q m r1 = r1) \<and>
    registry_get cid (unregister_manager p (manager_new cid l) r1) = None \<and>
    (\<forall>c. c \<noteq> cid \<longrightarrow> registry_get c r1 = registry_get c r) \<and>
    (\<forall>u. u \<noteq> p \<and> u \<noteq> q \<longrightarrow> sessions r1 u = sessions r u)"
proof -
  have inv: "registry_inv r" by (rule registry_runs.run_inv [OF assms(1) registry_inv_default])
  obtain m where m: "sessions r q = Some m" "connector_id m = cid"
    using registry_entry [OF inv] assms(3) by (auto simp: registry_get_def)
  then have "q \<noteq> p" using assms(2) by auto
  moreover have "streams (shutdown m) = []" "pending (shutdown m) = []"
    by (simp_all add: shutdown_def Let_def respond_def close_credit_def split_def foldl_const [where g = pending])
  ultimately show ?thesis
    using m assms(2,3)
    by (auto simp: session_up_def register_def registry_get_def unregister_manager_def manager_new_def
        map_of_update map_of_delete Let_def)
qed

theorem reconnect_replaces_witness:
  "let r1 = session_up 3 ''c'' Quic demo_reconnected in
    registry_get ''c'' r1 = Some 3 \<and> (\<exists>m. sessions r1 2 = Some m \<and> shutdown_notified m)"
  using reconnect_replaces [OF demo_reconnected_run, of 3 "''c''" 2 Quic]
  by (simp add: demo_reconnected_def registry_eval registry_get_def Let_def)

text \<open>A kick disconnects exactly the connector it names.\<close>

theorem kick_disconnects:
  assumes "run registry_step registry_default tr r"
  shows "registry_get cid (unregister cid r) = None \<and>
    (\<forall>p m. sessions (unregister cid r) p = Some m \<and> connector_id m = cid \<longrightarrow> shutdown_notified m) \<and>
    (\<forall>c. c \<noteq> cid \<longrightarrow> registry_get c (unregister cid r) = registry_get c r \<and>
      registry_transport_label c (unregister cid r) = registry_transport_label c r)"
proof -
  have inv: "registry_inv r" by (rule registry_runs.run_inv [OF assms(1) registry_inv_default])
  have inv': "registry_inv (unregister cid r)"
    using registry_step_inv [OF inv registry_step.kick] .
  have none: "registry_get cid (unregister cid r) = None"
    by (auto simp: registry_get_def unregister_def map_of_delete split: option.splits)
  have label: "transport_label (shutdown m) = transport_label m" for m
    by (simp add: transport_label_def shutdown_def Let_def respond_def close_credit_def split_def
        foldl_const [where g = mgr_link])
  have "map_option transport_label (sessions (unregister cid r) q) = map_option transport_label (sessions r q)" for q
    by (cases "sessions r q") (auto simp: unregister_def label split: option.splits)
  moreover have "registry_get c (unregister cid r) = registry_get c r" if "c \<noteq> cid" for c
    using that by (auto simp: registry_get_def unregister_def map_of_delete split: option.splits)
  moreover have "\<forall>p m. sessions (unregister cid r) p = Some m \<and> connector_id m = cid \<longrightarrow> shutdown_notified m"
    using registry_session [OF inv'] none unfolding registry_get_def by force
  ultimately show ?thesis
    using none by (simp add: registry_transport_label_def split: option.splits)
qed

theorem kick_disconnects_witness: "registry_get ''c'' (unregister ''c'' demo_reconnected) = None"
  using kick_disconnects [OF demo_reconnected_run] by blast

end
