(* ===== verification/Names.thy ===== *)
theory Names
  imports Rust_Str Wire
begin

text \<open>
  The names and credentials the API reads out of requests: DNS labels and domains, cookies and
  bearer tokens (\<open>crates/server/src/api/mod.rs\<close>). A header map (\<open>http::HeaderMap\<close>) is the
  function that gives the first value of a header as text, \<open>get(name)?.to_str().ok()\<close>.
\<close>

type_synonym headers = "string \<Rightarrow> string option"

definition ADMIN_SESSION_COOKIE :: string where
  "ADMIN_SESSION_COOKIE = ''__Host-x2rp_session''"

definition ADMIN_CSRF_COOKIE :: string where
  "ADMIN_CSRF_COOKIE = ''__Host-x2rp_csrf''"

definition normalize_domain :: "string \<Rightarrow> string" where
  "normalize_domain v = to_ascii_lowercase (trim v)"

definition is_valid_label :: "string \<Rightarrow> bool" where
  "is_valid_label label \<longleftrightarrow> 1 \<le> length label \<and> length label \<le> 63
     \<and> \<not> prefix ''-'' label \<and> \<not> suffix ''-'' label
     \<and> (\<forall>c \<in> set label. is_ascii_alphanumeric c \<or> c = CHR ''-'')"

definition is_valid_host :: "string \<Rightarrow> bool" where
  "is_valid_host host \<longleftrightarrow> length host \<le> 253 \<and> (\<forall>label \<in> set (split_on CHR ''.'' host). is_valid_label label)"

definition is_valid_domain :: "string \<Rightarrow> bool" where
  "is_valid_domain domain \<longleftrightarrow> CHR ''.'' \<in> set domain \<and> is_valid_host domain"

fun find_map :: "('a \<Rightarrow> 'b option) \<Rightarrow> 'a list \<Rightarrow> 'b option" where
  "find_map f [] = None"
| "find_map f (x # xs) = (case f x of Some y \<Rightarrow> Some y | None \<Rightarrow> find_map f xs)"

definition extract_cookie :: "string \<Rightarrow> string \<Rightarrow> string option" where
  "extract_cookie cookies name = find_map (\<lambda>c. case split_once CHR ''='' (trim c) of
     Some (k, v) \<Rightarrow> if k = name then Some v else None | None \<Rightarrow> None) (split_on CHR '';'' cookies)"

definition bearer_token :: "headers \<Rightarrow> string option" where
  "bearer_token headers = (case headers ''authorization'' of
       None \<Rightarrow> None
     | Some v \<Rightarrow> (case split_once CHR '' '' v of
         None \<Rightarrow> None
       | Some (scheme, rest) \<Rightarrow>
           let token = trim_start_matches CHR '' '' rest
           in if eq_ignore_ascii_case scheme ''bearer'' \<and> 1 \<le> length token \<and> length token \<le> MAX_AUTH_TOKEN_LEN
              then Some token else None))"

section \<open>Labels and hosts\<close>

lemma label_chars: "is_valid_label l \<Longrightarrow> c \<in> set l \<Longrightarrow> printable c \<and> c \<noteq> CHR ''.'' \<and> c \<noteq> CHR ''_''"
proof -
  assume "is_valid_label l" and "c \<in> set l"
  then have "is_ascii_alphanumeric c \<or> c = CHR ''-''" by (simp add: is_valid_label_def)
  then show ?thesis
    by (auto simp: printable_def is_ascii_alphanumeric_def is_ascii_digit_def is_ascii_upper_def
        is_ascii_lower_def byte_of_def)
qed

lemma label_trim: "is_valid_label l \<Longrightarrow> trim l = l"
  by (intro trim_printable) (simp add: label_chars)

lemma label_split: "is_valid_label l \<Longrightarrow> split_on CHR ''.'' (l @ CHR ''.'' # d) = l # split_on CHR ''.'' d"
  by (rule split_on_append) (use label_chars in blast)

lemma split_on_join: "concat (map (\<lambda>p. p @ [c]) (split_on c s)) = s @ [c]"
  by (induction s) (auto split: list.splits)

text \<open>A name under a valid domain determines its first label.\<close>

lemma label_append_inj:
  assumes "is_valid_label a" and "is_valid_label b" and "a @ CHR ''.'' # d = b @ CHR ''.'' # e"
  shows "a = b \<and> d = e"
proof -
  have "CHR ''.'' \<notin> set a" "CHR ''.'' \<notin> set b"
    using label_chars [OF assms(1)] label_chars [OF assms(2)] by blast+
  then have "split_once CHR ''.'' (a @ CHR ''.'' # d) = Some (a, d)"
    "split_once CHR ''.'' (b @ CHR ''.'' # e) = Some (b, e)"
    by simp_all
  then show ?thesis using assms(3) by (metis option.inject prod.inject)
qed

lemma lower_label: "is_valid_label (to_ascii_lowercase l) \<longleftrightarrow> is_valid_label l"
proof -
  have hy: "ascii_lower c = CHR ''-'' \<longleftrightarrow> c = CHR ''-''" for c
    by (rule ascii_lower_eq_iff) (simp_all add: is_ascii_upper_def is_ascii_lower_def byte_of_def)
  have yh: "CHR ''-'' = ascii_lower c \<longleftrightarrow> c = CHR ''-''" for c using hy by metis
  have "prefix ''-'' (to_ascii_lowercase l) \<longleftrightarrow> prefix ''-'' l"
    by (cases l) (auto simp: to_ascii_lowercase_def hy yh)
  moreover have "suffix ''-'' (to_ascii_lowercase l) \<longleftrightarrow> suffix ''-'' l"
    by (cases l rule: rev_cases) (auto simp: to_ascii_lowercase_def hy yh)
  moreover have "(\<forall>c \<in> set (to_ascii_lowercase l). is_ascii_alphanumeric c \<or> c = CHR ''-'') \<longleftrightarrow>
      (\<forall>c \<in> set l. is_ascii_alphanumeric c \<or> c = CHR ''-'')"
    by (simp add: to_ascii_lowercase_def hy)
  ultimately show ?thesis by (simp only: is_valid_label_def length_to_ascii_lowercase)
qed

lemma host_labels:
  "is_valid_host h \<Longrightarrow> c \<in> set h \<Longrightarrow> c = CHR ''.'' \<or> is_ascii_alphanumeric c \<or> c = CHR ''-''"
proof (rule ccontr)
  assume h: "is_valid_host h" "c \<in> set h" and "\<not> (c = CHR ''.'' \<or> is_ascii_alphanumeric c \<or> c = CHR ''-'')"
  then obtain l where "l \<in> set (split_on CHR ''.'' h)" "c \<in> set l" "\<not> is_ascii_alphanumeric c" "c \<noteq> CHR ''-''"
    using set_split_on [of c h "CHR ''.''"] by auto
  then show False using h(1) by (auto simp: is_valid_host_def is_valid_label_def)
qed

lemma find_map_Some: "find_map f xs = Some y \<Longrightarrow> \<exists>x \<in> set xs. f x = Some y"
  by (induction xs) (auto split: option.splits)

end
