(* ===== verification/Secure_File.thy ===== *)
theory Secure_File
  imports Prelude Rust_Str
begin

text \<open>
  Secret files: \<open>save_secure_file\<close> (\<open>crates/server/src/api/mod.rs\<close>) and \<open>read_secret_file\<close>
  (\<open>crates/proto/src/host.rs\<close>). A file system maps paths to contents. Every system call of a
  save may fail, and an operation that fails at one returns its error; \<open>sys\<close> gives the fault of
  each call. A path is a string without a trailing separator.
\<close>

unbundle bit_operations_syntax

type_synonym fs = "string \<Rightarrow> byte list option"

section \<open>Paths\<close>

definition file_name :: "string \<Rightarrow> string" where
  "file_name path = rev (takeWhile (\<lambda>c. c \<noteq> CHR ''/'') (rev path))"

definition file_stem :: "string \<Rightarrow> string" where
  "file_stem name = (case split_once CHR ''.'' (rev name) of
     Some (_, stem) \<Rightarrow> if stem = [] then name else rev stem | None \<Rightarrow> name)"

text \<open>\<open>Path::with_extension\<close>: a path without a file name is returned as it is.\<close>

definition with_extension :: "string \<Rightarrow> string \<Rightarrow> string" where
  "with_extension path ext =
     (let name = file_name path in
      if name = [] \<or> name = ''..'' then path
      else take (length path - length name) path @ file_stem name @ (if ext = [] then [] else CHR ''.'' # ext))"

section \<open>Saving\<close>

datatype save_call = Create_dir | Open_tmp | Write_all | Sync_file | Rename | Open_dir | Sync_dir

text \<open>\<open>written\<close> is how much of the data a failing \<open>write_all\<close> got to the file. \<open>create_new\<close> refuses
  a path that exists.\<close>

definition save_secure_file ::
  "(save_call \<Rightarrow> io_error option) \<Rightarrow> nat \<Rightarrow> string \<Rightarrow> string \<Rightarrow> byte list \<Rightarrow> fs \<Rightarrow> unit io_result \<times> fs" where
  "save_secure_file sys written random path data fs =
     (case sys Create_dir of Some e \<Rightarrow> (Inl e, fs) | None \<Rightarrow>
      let tmp_path = with_extension path (''tmp.'' @ random) in
      case sys Open_tmp of Some e \<Rightarrow> (Inl e, fs) | None \<Rightarrow>
      if fs tmp_path \<noteq> None then (Inl (OtherKind, Msg ''File exists (os error 17)''), fs) else
      case sys Write_all of Some e \<Rightarrow> (Inl e, fs(tmp_path \<mapsto> take written data)) | None \<Rightarrow>
      case sys Sync_file of Some e \<Rightarrow> (Inl e, fs(tmp_path \<mapsto> data)) | None \<Rightarrow>
      case sys Rename of Some e \<Rightarrow> (Inl e, fs(tmp_path \<mapsto> data)) | None \<Rightarrow>
      let fs1 = (fs(tmp_path := None))(path \<mapsto> data) in
      case sys Open_dir of Some e \<Rightarrow> (Inl e, fs1) | None \<Rightarrow>
      case sys Sync_dir of Some e \<Rightarrow> (Inl e, fs1) | None \<Rightarrow> (Inr (), fs1))"

section \<open>Reading\<close>

text \<open>What opening a path gives: the permission bits with the owner, and the bytes, each of which may
  fail to be read.\<close>

record open_file =
  file_metadata :: "(u32 \<times> u32) io_result"
  file_content :: "byte list io_result"

text \<open>\<open>{:03o}\<close>.\<close>

definition octal3 :: "u32 \<Rightarrow> string" where
  "octal3 n = (let s = show_radix 8 (unat n) in replicate (3 - length s) CHR ''0'' @ s)"

definition read_secret_file :: "u32 \<Rightarrow> string \<Rightarrow> u32 \<Rightarrow> open_file io_result \<Rightarrow> byte list io_result" where
  "read_secret_file euid path max_mode opened =
     and_then opened (\<lambda>file.
     and_then (file_metadata file) (\<lambda>(perm, uid).
       let mode = perm AND 511 in
       if mode AND NOT max_mode \<noteq> 0 \<or> uid \<noteq> euid
       then Inl (PermissionDenied, Msg (''secret file '' @ path @ '' must be owned by uid '' @ show_nat (unat euid)
              @ '' with mode at most '' @ octal3 max_mode @ '' (has uid '' @ show_nat (unat uid)
              @ '', mode '' @ octal3 mode @ '')''))
       else file_content file))"

section \<open>Properties\<close>

lemma read_private:
  "read_secret_file euid path 0x180 opened = Inr data \<longleftrightarrow>
     (\<exists>file perm. opened = Inr file \<and> file_metadata file = Inr (perm, euid) \<and> perm AND 0x7F = 0
        \<and> file_content file = Inr data)"
proof -
  have "(perm AND 511) AND - 385 = perm AND 0x7F" for perm :: u32
    by (simp add: and.assoc)
  then show ?thesis
    by (auto simp: read_secret_file_def and_then_eq_Inr Let_def split: if_splits)
qed

text \<open>(C18) A save is never torn: whichever call fails, and at whatever byte, the target holds what it
  held before or all of the new data, no file but the temporary one is touched, and a file that
  already stands at the temporary name is neither read nor replaced. A save that reports success
  has put the data in place and left no temporary file.\<close>

theorem save_never_torn:
  assumes "with_extension path (''tmp.'' @ random) \<noteq> path"
    and "save_secure_file sys written random path data fs = (r, fs')"
  shows "fs' path \<in> {fs path, Some data} \<and>
    (\<forall>p. p \<noteq> path \<and> p \<noteq> with_extension path (''tmp.'' @ random) \<longrightarrow> fs' p = fs p) \<and>
    (fs (with_extension path (''tmp.'' @ random)) \<noteq> None \<longrightarrow> fs' = fs \<and> r \<noteq> Inr ()) \<and>
    (r = Inr () \<longrightarrow> fs' path = Some data \<and> fs' (with_extension path (''tmp.'' @ random)) = None)"
  using assms by (auto simp: save_secure_file_def Let_def split: option.splits if_splits)

theorem save_never_torn_witness:
  "fst (save_secure_file (\<lambda>_. None) 0 ''00ff'' ''/var/lib/x2rp/state.json'' [1, 2] (\<lambda>_. None)) = Inr () \<and>
   snd (save_secure_file (\<lambda>_. None) 0 ''00ff'' ''/var/lib/x2rp/state.json'' [1, 2] (\<lambda>_. None))
     ''/var/lib/x2rp/state.json'' = Some [1, 2]"
proof -
  have ne: "with_extension ''/var/lib/x2rp/state.json'' (''tmp.'' @ ''00ff'') \<noteq> ''/var/lib/x2rp/state.json''"
    by (simp add: with_extension_def file_name_def file_stem_def)
  have ok: "fst (save_secure_file (\<lambda>_. None) 0 ''00ff'' ''/var/lib/x2rp/state.json'' [1, 2] (\<lambda>_. None)) = Inr ()"
    by (simp add: save_secure_file_def)
  show ?thesis using save_never_torn [OF ne prod.collapse [symmetric]] ok by blast
qed

text \<open>A save can report failure although the new data is in place: when the directory cannot be
  opened or synced after the rename.\<close>

theorem failed_save_may_have_saved:
  "with_extension path (''tmp.'' @ random) \<noteq> path \<Longrightarrow> fs (with_extension path (''tmp.'' @ random)) = None \<Longrightarrow>
   save_secure_file ((\<lambda>_. None)(Sync_dir := Some e)) written random path data fs =
     (Inl e, fs(path \<mapsto> data))"
  by (auto simp: save_secure_file_def Let_def)

theorem failed_save_may_have_saved_witness:
  "snd (save_secure_file ((\<lambda>_. None)(Sync_dir := Some (OtherKind, Msg ''EIO''))) 0 ''00ff'' ''/a/s.json'' [7]
     (\<lambda>_. None)) ''/a/s.json'' = Some [7]"
proof -
  have "with_extension ''/a/s.json'' (''tmp.'' @ ''00ff'') \<noteq> ''/a/s.json''"
    by (simp add: with_extension_def file_name_def file_stem_def)
  then show ?thesis by (simp add: failed_save_may_have_saved)
qed

text \<open>A secret file is read only from a file that is the process's own and, with the mode \<open>0600\<close> the
  server asks for, closed to group and others.\<close>

theorem read_secret_file_private:
  "read_secret_file euid path 0x180 opened = Inr data \<longleftrightarrow>
     (\<exists>file perm. opened = Inr file \<and> file_metadata file = Inr (perm, euid) \<and> perm AND 0x7F = 0
        \<and> file_content file = Inr data)"
  by (rule read_private)

end
