(* ===== verification/Api_State.thy ===== *)
theory Api_State
  imports Names Secure_File Allowlist Auth Tables
begin

text \<open>
  The persisted state of the server (\<open>AppState\<close> and its parts, \<open>crates/server/src/api/mod.rs\<close>),
  its loading and saving, and the lookup of a connector by its token. The libraries the API calls
  are the parameter \<open>libs\<close>: Unicode case and character classes, SHA-256, hex, \<open>ipnet\<close> and
  \<open>http::Uri\<close>. Times are nanoseconds since the epoch.
\<close>

declare map_of_eq_Some_iff [simp del] and Some_eq_map_of_iff [simp del]

unbundle bit_operations_syntax

section \<open>Libraries\<close>

record uri =
  uri_scheme :: "string option"
  uri_path_query :: "(string \<times> string option) option"
  uri_host :: "string option"
  uri_port :: "u16 option"

record 'n libs =
  unicode_lower :: "string \<Rightarrow> string"
  unicode_alphanumeric :: "string \<Rightarrow> bool"
  sha256 :: "byte list \<Rightarrow> byte list"
  hex_encode :: "byte list \<Rightarrow> string"
  lib_net :: "'n ipnet"
  net_show :: "'n \<Rightarrow> string"
  parse_uri :: "string \<Rightarrow> uri option"

text \<open>\<open>str::to_lowercase\<close> is \<open>to_ascii_lowercase\<close> on ASCII text.\<close>

definition to_lowercase :: "'n libs \<Rightarrow> string \<Rightarrow> string" where
  "to_lowercase libs s = (if \<forall>c \<in> set s. is_ascii c then to_ascii_lowercase s else unicode_lower libs s)"

section \<open>Records\<close>

record connector =
  conn_id :: string
  conn_name :: string
  token_hash :: string
  force_wss :: bool
  conn_last_seen :: "nat option"

record resource =
  res_id :: string
  subdomain :: string
  res_target :: string
  res_enabled :: bool
  res_connector :: "string option"
  allowed_client_cidrs :: "string list"

record server_config =
  cf_api_token :: string
  obfuscation_secret :: string

record app_state =
  config :: server_config
  connectors :: "(string \<times> connector) list"
  resources :: "resource list"
  initialized :: bool
  domain :: string
  admin_password_hash :: "string option"
  state_file :: "string option"

definition app_state_default :: app_state where
  "app_state_default = \<lparr>config = \<lparr>cf_api_token = [], obfuscation_secret = []\<rparr>, connectors = [],
     resources = [], initialized = False, domain = [], admin_password_hash = None, state_file = None\<rparr>"

definition STATE_FILE :: string where
  "STATE_FILE = ''/var/lib/x2rp/state.json''"

text \<open>\<open>{:?}\<close> of a \<open>ServerConfig\<close>.\<close>

definition debug_server_config :: "server_config \<Rightarrow> string" where
  "debug_server_config c =
     ''ServerConfig { cf_api_token: \"[redacted]\", obfuscation_secret: \"[redacted]\" }''"

section \<open>Loading and saving\<close>

datatype load_error = Unsafe_state io_error | Corrupt_state string

definition app_state_load ::
  "(byte list \<Rightarrow> string + app_state) \<Rightarrow> u32 \<Rightarrow> open_file io_result \<Rightarrow> load_error + app_state" where
  "app_state_load from_json euid opened =
     (case read_secret_file euid STATE_FILE 0x180 opened of
        Inr data \<Rightarrow> (case from_json data of
            Inl e \<Rightarrow> Inl (Corrupt_state e)
          | Inr st \<Rightarrow> Inr (st\<lparr>domain := normalize_domain (domain st)\<rparr>))
      | Inl e \<Rightarrow> if fst e = NotFound then Inr app_state_default else Inl (Unsafe_state e))"

definition app_state_save ::
  "(app_state \<Rightarrow> string + string) \<Rightarrow> (save_call \<Rightarrow> io_error option) \<Rightarrow> nat \<Rightarrow> string \<Rightarrow> app_state \<Rightarrow> fs \<Rightarrow> bool \<times> fs" where
  "app_state_save to_json sys written random st fs =
     (let path = (case state_file st of Some p \<Rightarrow> p | None \<Rightarrow> STATE_FILE) in
      case to_json st of
        Inl _ \<Rightarrow> (False, fs)
      | Inr json \<Rightarrow> (case save_secure_file sys written random path (as_bytes json) fs of
          (r, fs') \<Rightarrow> (is_ok r, fs')))"

text \<open>What a save can do, seen from the API: succeed, fail with the old state on disk, or fail after
  the new state reached the disk. \<open>state_file\<close> is not part of what is stored.\<close>

datatype save_outcome = Saved | Not_saved | Saved_unsynced

definition stored :: "app_state \<Rightarrow> app_state" where
  "stored st = st\<lparr>state_file := None\<rparr>"

definition persist :: "save_outcome \<Rightarrow> app_state \<Rightarrow> app_state option \<Rightarrow> bool \<times> app_state option" where
  "persist out st disk = (case out of
       Saved \<Rightarrow> (True, Some (stored st))
     | Not_saved \<Rightarrow> (False, disk)
     | Saved_unsynced \<Rightarrow> (False, Some (stored st)))"

definition disk_of :: "(byte list \<Rightarrow> string + app_state) \<Rightarrow> string \<Rightarrow> fs \<Rightarrow> app_state option" where
  "disk_of from_json path fs = (case fs path of
     None \<Rightarrow> None | Some data \<Rightarrow> (case from_json data of Inr st \<Rightarrow> Some st | Inl _ \<Rightarrow> None))"

section \<open>Tokens\<close>

definition hash_token :: "'n libs \<Rightarrow> string \<Rightarrow> string" where
  "hash_token libs token = hex_encode libs (sha256 libs (as_bytes token))"

definition connector_from_token :: "'n libs \<Rightarrow> app_state \<Rightarrow> string \<Rightarrow> connector option" where
  "connector_from_token libs st token =
     find (\<lambda>c. token_hash c = hash_token libs token) (map snd (connectors st))"

section \<open>Properties\<close>



text \<open>Loading never replaces a state it could not read: only a state file that does not exist
  gives the empty state, and every other state comes from a private file that parses.\<close>

theorem load_never_wipes:
  "app_state_load from_json euid opened = Inr st \<longleftrightarrow>
     (\<exists>file perm data st'. opened = Inr file \<and> file_metadata file = Inr (perm, euid) \<and> perm AND 0x7F = 0
        \<and> file_content file = Inr data \<and> from_json data = Inr st'
        \<and> st = st'\<lparr>domain := normalize_domain (domain st')\<rparr>)
     \<or> (\<exists>m. read_secret_file euid STATE_FILE 0x180 opened = Inl (NotFound, m)) \<and> st = app_state_default"
proof (cases "read_secret_file euid STATE_FILE 0x180 opened")
  case (Inl e)
  have no: "\<not> (\<exists>file perm data. opened = Inr file \<and> file_metadata file = Inr (perm, euid) \<and> perm AND 0x7F = 0
      \<and> file_content file = Inr data)"
    using Inl read_private [of euid STATE_FILE opened] by auto
  show ?thesis using Inl no by (cases e) (auto simp: app_state_load_def)
next
  case (Inr data)
  then obtain f perm where "opened = Inr f" "file_metadata f = Inr (perm, euid)" "perm AND 0x7F = 0"
    "file_content f = Inr data"
    using read_private [of euid STATE_FILE opened data] by auto
  then show ?thesis using Inr by (auto simp: app_state_load_def split: sum.splits)
qed

end
