(* ===== verification/Routes.thy ===== *)
theory Routes
  imports Api_State Rate_Limit Connector_Registry
begin

text \<open>
  The tables of the edge (\<open>ProxyResource\<close> and \<open>ProxyContext\<close>, \<open>crates/server/src/proxy.rs\<close>):
  the routes keyed by host name, the DNS cache, and how a host is resolved to an address the
  caller admits. A DNS query is the argument \<open>lookup\<close>: the addresses of \<open>host:port\<close>, or none when
  it fails or times out. Times are nanoseconds.
\<close>

declare map_of_eq_Some_iff [simp del] and Some_eq_map_of_iff [simp del]

type_synonym sockaddr = "ip_addr \<times> u16"

definition DNS_CACHE_TTL :: nat where
  "DNS_CACHE_TTL = 60 * 1000000000"

definition ADMIN_API_PORT :: u16 where
  "ADMIN_API_PORT = 8800"

definition ADMIN_API_TARGET :: string where
  "ADMIN_API_TARGET = ''http://127.0.0.1:8800''"

definition ADMIN_SUBDOMAIN :: string where
  "ADMIN_SUBDOMAIN = ''_admin''"

section \<open>Names in requests and targets\<close>

definition host_header_hostname :: "string \<Rightarrow> string" where
  "host_header_hostname raw = (case strip_prefix ''['' raw of
     Some rest \<Rightarrow> hd (split_on CHR '']'' rest) | None \<Rightarrow> hd (split_on CHR '':'' raw))"

text \<open>A host without the brackets of an IPv6 literal.\<close>

definition unbracket :: "string \<Rightarrow> string" where
  "unbracket host = (case strip_prefix ''['' host of
     None \<Rightarrow> host | Some h \<Rightarrow> (case strip_suffix '']'' h of Some h' \<Rightarrow> h' | None \<Rightarrow> host))"

definition parse_target_url :: "'n libs \<Rightarrow> string \<Rightarrow> (string \<times> u16 \<times> bool) option" where
  "parse_target_url libs target = (case parse_uri libs target of None \<Rightarrow> None | Some uri \<Rightarrow>
     (case uri_scheme uri of None \<Rightarrow> None | Some scheme \<Rightarrow>
      if scheme \<noteq> ''https'' \<and> scheme \<noteq> ''http'' then None else
      let tls = (scheme = ''https'') in
      case uri_host uri of None \<Rightarrow> None | Some host \<Rightarrow>
        Some (unbracket host, (case uri_port uri of Some p \<Rightarrow> p | None \<Rightarrow> if tls then 443 else 80), tls)))"

section \<open>Routes\<close>

record 'n proxy_resource =
  pr_subdomain :: string
  pr_target :: string
  pr_connector :: "string option"
  allowed_clients :: "'n list option"

definition from_resource :: "'n libs \<Rightarrow> resource \<Rightarrow> 'n proxy_resource" where
  "from_resource libs r = \<lparr>pr_subdomain = subdomain r, pr_target = res_target r, pr_connector = res_connector r,
     allowed_clients = (case parse_allowlist (lib_net libs) (allowed_client_cidrs r) of
       Inr nets \<Rightarrow> Some nets | Inl _ \<Rightarrow> None)\<rparr>"

definition is_admin :: "'n proxy_resource \<Rightarrow> bool" where
  "is_admin r \<longleftrightarrow> pr_subdomain r = ADMIN_SUBDOMAIN"

record ('n, 'q, 'l) proxy_context =
  routes :: "(string \<times> 'n proxy_resource) list"
  dns_cache :: "(string \<times> nat \<times> sockaddr list) list"
  ctx_domain :: string
  limits :: "('q, 'l) rate_limiter"
  ctx_connectors :: registry

definition proxy_context_new :: "('q, 'l) governor \<Rightarrow> string \<Rightarrow> registry \<Rightarrow> ('n, 'q, 'l) proxy_context" where
  "proxy_context_new gov d conns = \<lparr>routes = [], dns_cache = [], ctx_domain = normalize_domain d,
     limits = rate_limiter_default gov, ctx_connectors = conns\<rparr>"

definition fqdn :: "'n libs \<Rightarrow> ('n, 'q, 'l) proxy_context \<Rightarrow> string \<Rightarrow> string" where
  "fqdn libs c sub = to_lowercase libs (sub @ ''.'' @ ctx_domain c)"

definition set_resource :: "'n libs \<Rightarrow> 'n proxy_resource \<Rightarrow> ('n, 'q, 'l) proxy_context \<Rightarrow> ('n, 'q, 'l) proxy_context" where
  "set_resource libs r c = c\<lparr>routes := AList.update (fqdn libs c (pr_subdomain r)) r (routes c)\<rparr>"

definition remove_resource :: "'n libs \<Rightarrow> string \<Rightarrow> ('n, 'q, 'l) proxy_context \<Rightarrow> ('n, 'q, 'l) proxy_context" where
  "remove_resource libs sub c = c\<lparr>routes := AList.delete (fqdn libs c sub) (routes c)\<rparr>"

definition maintenance_tick :: "nat \<Rightarrow> ('n, 'q, 'l) proxy_context \<Rightarrow> ('n, 'q, 'l) proxy_context" where
  "maintenance_tick now c = c\<lparr>dns_cache := filter (\<lambda>(_, created, _). now - created < DNS_CACHE_TTL) (dns_cache c),
     limits := rate_limiter_cleanup now (limits c)\<rparr>"

section \<open>Resolving\<close>

definition dns_key :: "string \<Rightarrow> u16 \<Rightarrow> string" where
  "dns_key host port = host @ '':'' @ show_nat (unat port)"

definition resolve_host ::
  "nat \<Rightarrow> (string \<Rightarrow> sockaddr list option) \<Rightarrow> string \<Rightarrow> u16 \<Rightarrow> (ip_addr \<Rightarrow> bool) \<Rightarrow> ('n, 'q, 'l) proxy_context
     \<Rightarrow> sockaddr option \<times> ('n, 'q, 'l) proxy_context" where
  "resolve_host now lookup host port allowed c = (case parse_ip host of
       Some ip \<Rightarrow> (if allowed ip then Some (ip, port) else None, c)
     | None \<Rightarrow>
         let key = dns_key host port;
             cached = (case map_of (dns_cache c) key of
                Some (created, addrs) \<Rightarrow> if now - created < DNS_CACHE_TTL then Some addrs else None
              | None \<Rightarrow> None)
         in case cached of
              Some addrs \<Rightarrow> (find (\<lambda>addr. allowed (fst addr)) addrs, c)
            | None \<Rightarrow> (case lookup key of
                None \<Rightarrow> (None, c)
              | Some addrs \<Rightarrow> (find (\<lambda>addr. allowed (fst addr)) addrs,
                  c\<lparr>dns_cache := AList.update key (now, addrs) (dns_cache c)\<rparr>)))"

section \<open>Lemmas on names\<close>

lemma digit_char_inj: "a < 10 \<Longrightarrow> b < 10 \<Longrightarrow> digit_char a = digit_char b \<longleftrightarrow> a = b"
proof -
  assume "a < 10" and "b < 10"
  then have "byte_of (digit_char a) = 48 + a" "byte_of (digit_char b) = 48 + b"
    by (simp_all add: digit_char_def)
  then show ?thesis by (metis add_left_cancel)
qed

lemma show_nat_inj: "show_nat a = show_nat b \<Longrightarrow> a = b"
proof (induction a arbitrary: b rule: less_induct)
  case (less a)
  have low: "show_nat n = [digit_char n]" if "n < 10" for n using that by (simp add: show_radix.simps)
  have high: "show_nat n = show_nat (n div 10) @ [digit_char (n mod 10)]" if "\<not> n < 10" for n
    using that by (subst show_radix.simps) simp
  have long: "2 \<le> length (show_nat n)" if "\<not> n < 10" for n
    using high [OF that] by (cases "show_nat (n div 10)") auto
  show ?case
  proof (cases "a < 10")
    case True
    then have "length (show_nat b) = 1" using less.prems low [OF True] by (metis length_Cons list.size(3) One_nat_def)
    then have "b < 10" using long [of b] by (cases "b < 10") auto
    then show ?thesis using True less.prems low digit_char_inj by simp
  next
    case False
    then have b: "\<not> b < 10" using less.prems long [of a] low [of b] by auto
    have "show_nat (a div 10) = show_nat (b div 10)" "digit_char (a mod 10) = digit_char (b mod 10)"
      using less.prems high [OF False] high [OF b] by simp_all
    then have "a div 10 = b div 10" "a mod 10 = b mod 10"
      using less.IH [of "a div 10"] False by (simp_all add: digit_char_inj)
    then show ?thesis by (metis div_mod_decomp)
  qed
qed

lemma colon_not_digit: "CHR '':'' \<notin> set (show_nat n)"
proof
  assume "CHR '':'' \<in> set (show_nat n)"
  then obtain d where d: "d < 10" "CHR '':'' = digit_char d" using set_show_radix [of 10 n] by auto
  have "byte_of CHR '':'' = 58" by (simp add: byte_of_def)
  moreover have "byte_of (digit_char d) = 48 + d" using d(1) by (simp add: digit_char_def)
  ultimately show False using d by simp
qed

lemma last_sep_inj:
  assumes "a @ c # x = b @ c # (y :: string)" and "c \<notin> set x" and "c \<notin> set y"
  shows "a = b \<and> x = y"
proof -
  have "split_once c (rev x @ c # rev a) = Some (rev x, rev a)" "split_once c (rev y @ c # rev b) = Some (rev y, rev b)"
    using assms(2,3) by simp_all
  moreover have "rev x @ c # rev a = rev y @ c # rev b"
    using arg_cong [OF assms(1), of rev] by simp
  ultimately show ?thesis by (metis option.inject prod.inject rev_rev_ident)
qed

lemma dns_key_inj: "dns_key h p = dns_key h' p' \<Longrightarrow> h = h' \<and> p = p'"
proof -
  assume "dns_key h p = dns_key h' p'"
  then have "h = h' \<and> show_nat (unat p) = show_nat (unat p')"
    using last_sep_inj [of h "CHR '':''" "show_nat (unat p)" h' "show_nat (unat p')"] colon_not_digit
    by (simp add: dns_key_def)
  then show ?thesis using show_nat_inj by (metis unsigned_word_eqI)
qed

section \<open>Resolved addresses are checked\<close>

text \<open>What \<open>lookup_host\<close> documents: the addresses of \<open>host:port\<close> carry that port.\<close>

definition lookup_ports :: "(string \<Rightarrow> sockaddr list option) \<Rightarrow> bool" where
  "lookup_ports lookup \<longleftrightarrow> (\<forall>host port addrs. lookup (dns_key host port) = Some addrs \<longrightarrow> (\<forall>a \<in> set addrs. snd a = port))"

definition dns_ok :: "('n, 'q, 'l) proxy_context \<Rightarrow> bool" where
  "dns_ok c \<longleftrightarrow> (\<forall>host port created addrs. map_of (dns_cache c) (dns_key host port) = Some (created, addrs)
     \<longrightarrow> (\<forall>a \<in> set addrs. snd a = port))"

lemma dns_ok_new: "dns_ok (proxy_context_new gov d conns)"
  by (simp add: dns_ok_def proxy_context_new_def)

lemma resolve_host_ok:
  assumes "dns_ok c" and "lookup_ports lookup" and "resolve_host now lookup host port allowed c = (r, c')"
  shows "dns_ok c' \<and> routes c' = routes c \<and> ctx_domain c' = ctx_domain c \<and> limits c' = limits c
    \<and> ctx_connectors c' = ctx_connectors c \<and> (\<forall>a. r = Some a \<longrightarrow> allowed (fst a) \<and> snd a = port)"
proof (cases "parse_ip host")
  case (Some ip)
  then show ?thesis using assms by (auto simp: resolve_host_def split: if_splits)
next
  case None
  let ?key = "dns_key host port"
  have found: "\<forall>a. find (\<lambda>addr. allowed (fst addr)) addrs = Some a \<longrightarrow> allowed (fst a) \<and> snd a = port"
    if "\<forall>a \<in> set addrs. snd a = port" for addrs
    using that find_Some_sat by fastforce
  have cached: "\<forall>a \<in> set addrs. snd a = port" if "map_of (dns_cache c) ?key = Some (t, addrs)" for t addrs
    using assms(1) that unfolding dns_ok_def by blast
  have fresh: "\<forall>a \<in> set addrs. snd a = port" if "lookup ?key = Some addrs" for addrs
    using assms(2) that unfolding lookup_ports_def by blast
  have upd: "dns_ok (c\<lparr>dns_cache := AList.update ?key (now, addrs) (dns_cache c)\<rparr>)" if "lookup ?key = Some addrs" for addrs
    unfolding dns_ok_def
  proof (intro allI impI)
    fix h p t as
    assume "map_of (dns_cache (c\<lparr>dns_cache := AList.update ?key (now, addrs) (dns_cache c)\<rparr>)) (dns_key h p) = Some (t, as)"
    then show "\<forall>a \<in> set as. snd a = p"
      using assms(1) fresh [OF that] dns_key_inj [of h p host port] unfolding dns_ok_def
      by (cases "dns_key h p = ?key") (auto simp: map_of_update)
  qed
  show ?thesis
  proof (cases "\<exists>t addrs. map_of (dns_cache c) ?key = Some (t, addrs) \<and> now - t < DNS_CACHE_TTL")
    case True
    then obtain t addrs where t: "map_of (dns_cache c) ?key = Some (t, addrs)" "now - t < DNS_CACHE_TTL" by blast
    then have "r = find (\<lambda>addr. allowed (fst addr)) addrs \<and> c' = c"
      using assms(3) None by (simp add: resolve_host_def)
    then show ?thesis using assms(1) found [OF cached [OF t(1)]] by simp
  next
    case False
    then have miss: "(case map_of (dns_cache c) ?key of Some (created, addrs) \<Rightarrow>
        if now - created < DNS_CACHE_TTL then Some addrs else None | None \<Rightarrow> None) = None"
      by (auto split: option.splits)
    show ?thesis
    proof (cases "lookup ?key")
      case None
      then show ?thesis using assms(1,3) \<open>parse_ip host = None\<close> miss by (simp add: resolve_host_def)
    next
      case (Some addrs)
      then have "r = find (\<lambda>addr. allowed (fst addr)) addrs"
        and "c' = c\<lparr>dns_cache := AList.update ?key (now, addrs) (dns_cache c)\<rparr>"
        using assms(3) None miss by (simp_all add: resolve_host_def)
      then show ?thesis using found [OF fresh [OF Some]] upd [OF Some] by simp
    qed
  qed
qed

end
