(* ===== verification/Global.thy ===== *)
theory Global
  imports Routes
begin

text \<open>
  The state the handlers share (\<open>GlobalState\<close>, \<open>crates/server/src/api/mod.rs\<close>), with what its
  state file holds, and the pieces every handler uses: the check of the admin session and the
  save. An HTTP answer is a status or a value.
\<close>

datatype status = OK | NO_CONTENT | BAD_REQUEST | UNAUTHORIZED | FORBIDDEN | NOT_FOUND | CONFLICT
  | TOO_MANY_REQUESTS | INTERNAL_SERVER_ERROR | BAD_GATEWAY | SERVICE_UNAVAILABLE

record ('n, 'q, 'l) global_state =
  app :: app_state
  disk :: "app_state option"
  auth_svc :: auth_service
  proxy_ctx :: "('n, 'q, 'l) proxy_context"

type_synonym ('n, 'q, 'l, 'a) handled = "(status + 'a) \<times> ('n, 'q, 'l) global_state"

text \<open>\<open>s.save()\<close> under the write lock.\<close>

definition save_state :: "save_outcome \<Rightarrow> ('n, 'q, 'l) global_state \<Rightarrow> bool \<times> ('n, 'q, 'l) global_state" where
  "save_state out g = (case persist out (app g) (disk g) of (ok, d) \<Rightarrow> (ok, g\<lparr>disk := d\<rparr>))"

definition session_cookie :: "headers \<Rightarrow> string option" where
  "session_cookie headers = (case headers ''cookie'' of
     None \<Rightarrow> None | Some cookies \<Rightarrow> extract_cookie cookies ADMIN_SESSION_COOKIE)"

definition verify_admin :: "nat \<Rightarrow> headers \<Rightarrow> ('n, 'q, 'l) global_state \<Rightarrow> bool \<times> ('n, 'q, 'l) global_state" where
  "verify_admin now headers g =
     (if \<not> initialized (app g) then (False, g)
      else case session_cookie headers of
        None \<Rightarrow> (False, g)
      | Some sid \<Rightarrow> (case validate_admin_session now sid (auth_svc g) of
          (ok, svc) \<Rightarrow> (ok, g\<lparr>auth_svc := svc\<rparr>)))"

text \<open>A handler that starts with the check.\<close>

definition admin_only ::
  "nat \<Rightarrow> headers \<Rightarrow> (('n, 'q, 'l) global_state \<Rightarrow> ('n, 'q, 'l, 'a) handled)
     \<Rightarrow> ('n, 'q, 'l) global_state \<Rightarrow> ('n, 'q, 'l, 'a) handled" where
  "admin_only now headers h g = (case verify_admin now headers g of
     (False, g1) \<Rightarrow> (Inl UNAUTHORIZED, g1) | (True, g1) \<Rightarrow> h g1)"

lemma save_state_sel:
  "save_state out g = (ok, g') \<Longrightarrow> app g' = app g \<and> auth_svc g' = auth_svc g \<and> proxy_ctx g' = proxy_ctx g"
  by (auto simp: save_state_def split: prod.splits)

lemma verify_admin_keeps:
  "verify_admin now headers g = (ok, g') \<Longrightarrow> app g' = app g \<and> disk g' = disk g \<and> proxy_ctx g' = proxy_ctx g"
  by (auto simp: verify_admin_def split: if_splits option.splits prod.splits)

text \<open>Without a live session of an initialized server, a handler that starts with the check answers
  401 and changes nothing but, at most, drops the expired session.\<close>

lemma admin_only_denied:
  "\<not> fst (verify_admin now headers g) \<Longrightarrow>
   admin_only now headers h g = (Inl UNAUTHORIZED, snd (verify_admin now headers g))"
  by (cases "verify_admin now headers g") (simp add: admin_only_def)

section \<open>Invariant\<close>

text \<open>Of a resource: its subdomain is a lower-case label that is not reserved. Of a state: ids and
  subdomains are unique, every connector a resource names exists, connectors are stored under
  their ids, and the domain is a valid one in normal form once the server is set up, before which
  there are no resources.\<close>

definition resource_ok :: "resource \<Rightarrow> bool" where
  "resource_ok r \<longleftrightarrow> is_valid_label (subdomain r) \<and> to_ascii_lowercase (subdomain r) = subdomain r
     \<and> subdomain r \<notin> {''x2rp'', ''www''}"

definition state_ok :: "app_state \<Rightarrow> bool" where
  "state_ok st \<longleftrightarrow> distinct (map res_id (resources st)) \<and> distinct (map subdomain (resources st))
     \<and> (\<forall>r \<in> set (resources st). resource_ok r \<and> (\<forall>c. res_connector r = Some c \<longrightarrow> map_of (connectors st) c \<noteq> None))
     \<and> distinct_keys (connectors st) \<and> (\<forall>k c. map_of (connectors st) k = Some c \<longrightarrow> conn_id c = k)
     \<and> (if initialized st then is_valid_domain (domain st) \<and> normalize_domain (domain st) = domain st
        else resources st = [] \<and> domain st = [])"

text \<open>The route table holds exactly the enabled resources of a set, under their names.\<close>

definition routed :: "'n libs \<Rightarrow> resource set \<Rightarrow> ('n, 'q, 'l) proxy_context \<Rightarrow> bool" where
  "routed libs R c \<longleftrightarrow> (\<forall>h p. map_of (routes c) h = Some p \<longleftrightarrow>
     (\<exists>r \<in> R. res_enabled r \<and> fqdn libs c (subdomain r) = h \<and> p = from_resource libs r))"

definition ascii_domain :: "('n, 'q, 'l) proxy_context \<Rightarrow> bool" where
  "ascii_domain c \<longleftrightarrow> (\<forall>ch \<in> set (ctx_domain c). is_ascii ch)"

definition global_ok :: "'n libs \<Rightarrow> ('n, 'q, 'l) global_state \<Rightarrow> bool" where
  "global_ok libs g \<longleftrightarrow> state_ok (app g) \<and> ascii_domain (proxy_ctx g)
     \<and> routed libs (set (resources (app g))) (proxy_ctx g) \<and> (\<forall>st. disk g = Some st \<longrightarrow> state_ok st)"

lemma stored_ok [simp]: "state_ok (stored st) = state_ok st"
  by (simp add: state_ok_def stored_def)

lemma printable_ascii: "printable c \<Longrightarrow> is_ascii c"
  by (simp add: printable_def is_ascii_def)

lemma fqdn_label:
  assumes "is_valid_label l" and "to_ascii_lowercase l = l" and "ascii_domain c"
  shows "fqdn libs c l = l @ ''.'' @ to_ascii_lowercase (ctx_domain c)"
proof -
  have "\<forall>ch \<in> set (l @ ''.'' @ ctx_domain c). is_ascii ch"
    using assms(1,3) label_chars printable_ascii by (auto simp: ascii_domain_def is_ascii_def byte_of_def)
  moreover have "to_ascii_lowercase ''.'' = ''.''"
    by (simp add: to_ascii_lowercase_def ascii_lower_def is_ascii_upper_def byte_of_def)
  ultimately show ?thesis using assms(2) by (simp add: fqdn_def to_lowercase_def del: append_Cons)
qed

lemma fqdn_inj:
  assumes "resource_ok r" and "resource_ok r'" and "ascii_domain c"
    and "fqdn libs c (subdomain r) = fqdn libs c (subdomain r')"
  shows "subdomain r = subdomain r'"
  using assms label_append_inj [of "subdomain r" "subdomain r'"]
  by (auto simp: resource_ok_def fqdn_label)

lemma set_resource_sel [simp]:
  "ctx_domain (set_resource libs p c) = ctx_domain c" "ctx_connectors (set_resource libs p c) = ctx_connectors c"
  "limits (set_resource libs p c) = limits c" "dns_cache (set_resource libs p c) = dns_cache c"
  by (simp_all add: set_resource_def)

lemma remove_resource_sel [simp]:
  "ctx_domain (remove_resource libs sub c) = ctx_domain c"
  "ctx_connectors (remove_resource libs sub c) = ctx_connectors c"
  "limits (remove_resource libs sub c) = limits c" "dns_cache (remove_resource libs sub c) = dns_cache c"
  by (simp_all add: remove_resource_def)

lemma fqdn_sel [simp]: "fqdn libs (set_resource libs p c) = fqdn libs c" "fqdn libs (remove_resource libs sub c) = fqdn libs c"
  by (simp_all add: fqdn_def fun_eq_iff)

lemma ascii_domain_sel [simp]: "ascii_domain (set_resource libs p c) = ascii_domain c"
  "ascii_domain (remove_resource libs sub c) = ascii_domain c"
  by (simp_all add: ascii_domain_def)

text \<open>Removing the name of one resource of the set, and publishing one whose name is not taken.\<close>

lemma routed_remove:
  assumes "routed libs R c" and "old \<in> R"
    and "\<And>r. r \<in> R \<Longrightarrow> fqdn libs c (subdomain r) = fqdn libs c (subdomain old) \<Longrightarrow> r = old"
  shows "routed libs (R - {old}) (remove_resource libs (subdomain old) c)"
  unfolding routed_def
proof (intro allI)
  fix h p
  show "map_of (routes (remove_resource libs (subdomain old) c)) h = Some p \<longleftrightarrow>
    (\<exists>r \<in> R - {old}. res_enabled r \<and> fqdn libs (remove_resource libs (subdomain old) c) (subdomain r) = h
      \<and> p = from_resource libs r)"
  proof (cases "h = fqdn libs c (subdomain old)")
    case True
    then have "map_of (routes (remove_resource libs (subdomain old) c)) h = None"
      by (simp add: remove_resource_def map_of_delete)
    then show ?thesis using assms(3) True by auto
  next
    case False
    then have "map_of (routes (remove_resource libs (subdomain old) c)) h = map_of (routes c) h"
      by (simp add: remove_resource_def map_of_delete)
    then show ?thesis using assms(1) False unfolding routed_def by auto
  qed
qed

lemma routed_publish:
  assumes "routed libs R c" and "\<And>r'. r' \<in> R \<Longrightarrow> fqdn libs c (subdomain r') \<noteq> fqdn libs c (subdomain r)"
  shows "routed libs (insert r R) (if res_enabled r then set_resource libs (from_resource libs r) c
    else remove_resource libs (subdomain r) c)"
proof -
  have none: "map_of (routes c) (fqdn libs c (subdomain r)) = None"
    using assms unfolding routed_def by (cases "map_of (routes c) (fqdn libs c (subdomain r))") auto
  have sub: "pr_subdomain (from_resource libs r) = subdomain r" by (simp add: from_resource_def)
  show ?thesis
  proof (cases "res_enabled r")
    case True
    have "map_of (routes (set_resource libs (from_resource libs r) c)) h = Some p \<longleftrightarrow>
      (\<exists>x \<in> insert r R. res_enabled x \<and> fqdn libs c (subdomain x) = h \<and> p = from_resource libs x)" for h p
      using assms True sub unfolding routed_def
      by (cases "h = fqdn libs c (subdomain r)") (auto simp: set_resource_def map_of_update)
    then show ?thesis using True by (simp add: routed_def)
  next
    case False
    have "map_of (routes (remove_resource libs (subdomain r) c)) = map_of (routes c)"
      using none by (auto simp: remove_resource_def map_of_delete)
    then show ?thesis using False assms(1) by (simp add: routed_def)
  qed
qed

lemma routed_cong: "routes c = routes c' \<Longrightarrow> ctx_domain c = ctx_domain c' \<Longrightarrow> routed libs R c = routed libs R c'"
  by (simp add: routed_def fqdn_def)

lemma state_ok_names:
  assumes "state_ok st" and "r \<in> set (resources st)" and "r' \<in> set (resources st)" and "ascii_domain c"
    and "fqdn libs c (subdomain r) = fqdn libs c (subdomain r')"
  shows "r = r'"
proof -
  have "resource_ok r" "resource_ok r'" using assms(1-3) by (simp_all add: state_ok_def)
  then have "subdomain r = subdomain r'" using fqdn_inj assms(4,5) by blast
  moreover have "inj_on subdomain (set (resources st))" using assms(1) by (simp add: state_ok_def distinct_map)
  ultimately show ?thesis using assms(2,3) by (auto dest: inj_onD)
qed

lemma save_state_disk:
  "save_state out g = (ok, g') \<Longrightarrow> disk g' = disk g \<or> disk g' = Some (stored (app g))"
  by (auto simp: save_state_def persist_def split: save_outcome.splits)

section \<open>Concrete libraries\<close>

text \<open>Simple instances of the library parameters, for the examples.\<close>

definition demo_libs :: "ip_addr libs" where
  "demo_libs = \<lparr>unicode_lower = id, unicode_alphanumeric = (\<lambda>_. False), sha256 = id, hex_encode = of_bytes,
     lib_net = \<lparr>net_parse = (\<lambda>_. None), net_of_ip = id, net_contains = (=)\<rparr>, net_show = show_ip,
     parse_uri = (\<lambda>s. if s = ''http://h'' then Some \<lparr>uri_scheme = Some ''http'', uri_path_query = Some (''/'', None),
       uri_host = Some ''127.0.0.1'', uri_port = Some 3000\<rparr> else None)\<rparr>"

definition demo_gov :: "(unit, unit) governor" where
  "demo_gov = \<lparr>direct = id, gov_check = (\<lambda>_ l. (True, l)), mk_quota = (\<lambda>_ _. ())\<rparr>"

end
