(* ===== verification/Resources_Api.thy ===== *)
theory Resources_Api
  imports Global
begin

text \<open>
  The resources of the API (\<open>crates/server/src/api/resources.rs\<close>): the checks on subdomains,
  allowlists and targets, and the handlers that list, create, update and delete them. A handler's
  locked section is one step; \<open>update_resource\<close> reads the resource it changes before it takes the
  lock, so it has two parts. DNS answers, random ids and the outcome of a save are arguments.
\<close>

declare map_of_eq_Some_iff [simp del] and Some_eq_map_of_iff [simp del]

section \<open>Checks\<close>

definition normalize_connector_id :: "string option \<Rightarrow> string option" where
  "normalize_connector_id cid = (case cid of None \<Rightarrow> None
     | Some i \<Rightarrow> let t = trim i in if t = [] then None else Some t)"

definition normalize_subdomain :: "string \<Rightarrow> string" where
  "normalize_subdomain s = to_ascii_lowercase (trim s)"

definition subdomain_in_use :: "resource list \<Rightarrow> string \<Rightarrow> string option \<Rightarrow> bool" where
  "subdomain_in_use rs candidate exclude_id \<longleftrightarrow>
     (\<exists>r \<in> set rs. exclude_id \<noteq> Some (res_id r) \<and> eq_ignore_ascii_case (subdomain r) candidate)"

definition validate_subdomain :: "string \<Rightarrow> status + unit" where
  "validate_subdomain s = (if \<not> is_valid_label s then Inl BAD_REQUEST
     else if s \<in> {''x2rp'', ''www''} then Inl FORBIDDEN else Inr ())"

definition parse_client_cidrs :: "'n libs \<Rightarrow> string list \<Rightarrow> status + string list" where
  "parse_client_cidrs libs entries = (case parse_allowlist (lib_net libs) entries of
     Inr nets \<Rightarrow> Inr (map (net_show libs) nets) | Inl _ \<Rightarrow> Inl BAD_REQUEST)"

definition check_ssrf_local :: "(string \<times> u16 \<Rightarrow> sockaddr list option) \<Rightarrow> string \<Rightarrow> u16 \<Rightarrow> string + unit" where
  "check_ssrf_local dns host port =
     (if port = ADMIN_API_PORT then Inl ''Targets on this host must not use the local admin API port''
      else case dns (host, port) of
        None \<Rightarrow> Inl ''Target hostname could not be resolved''
      | Some addrs \<Rightarrow>
          if addrs = [] then Inl ''Target hostname could not be resolved''
          else if \<forall>addr \<in> set addrs. is_local_direct_target_ip (fst addr) then Inr ()
          else Inl (''Targets without a connector must be on this host (127.0.0.1 / ::1 / localhost); ''
                    @ ''use a connector for LAN or remote services''))"

definition check_ssrf_strict :: "string \<Rightarrow> string + unit" where
  "check_ssrf_strict host = (case parse_ip host of
     Some ip \<Rightarrow> if is_strictly_dangerous_ip ip then Inl ''Target is a restricted link-local/metadata IP'' else Inr ()
   | None \<Rightarrow> Inr ())"

definition parse_http_target_host_port :: "'n libs \<Rightarrow> string \<Rightarrow> string + string \<times> u16 \<times> bool" where
  "parse_http_target_host_port libs url =
     and_then (ok_or (parse_uri libs url) ''Invalid target URL'') (\<lambda>uri.
     and_then (ok_or (uri_scheme uri) ''Invalid scheme'') (\<lambda>scheme.
     if scheme \<noteq> ''http'' \<and> scheme \<noteq> ''https'' then Inl ''Invalid scheme'' else
     let tls = (scheme = ''https'') in
     if (case uri_path_query uri of
           Some (path, query) \<Rightarrow> (path \<noteq> [] \<and> path \<noteq> ''/'') \<or> query \<noteq> None | None \<Rightarrow> False)
     then Inl ''Target must not include a path or query'' else
     and_then (ok_or (uri_host uri) ''Missing host'') (\<lambda>host.
     Inr (unbracket host, (case uri_port uri of Some p \<Rightarrow> p | None \<Rightarrow> if tls then 443 else 80), tls))))"

definition validate_target ::
  "'n libs \<Rightarrow> (string \<times> u16 \<Rightarrow> sockaddr list option) \<Rightarrow> string \<Rightarrow> string option \<Rightarrow> status + unit" where
  "validate_target libs dns url cid = (case parse_http_target_host_port libs url of
       Inl _ \<Rightarrow> Inl BAD_REQUEST
     | Inr (host, port, tls) \<Rightarrow>
         if parse_ip host = None \<and> \<not> is_valid_host host then Inl BAD_REQUEST
         else if cid \<noteq> None \<and> tls then Inl BAD_REQUEST
         else (case (case cid of Some _ \<Rightarrow> check_ssrf_strict host | None \<Rightarrow> check_ssrf_local dns host port) of
             Inl _ \<Rightarrow> Inl FORBIDDEN | Inr _ \<Rightarrow> Inr ()))"

section \<open>Handlers\<close>

definition publish :: "'n libs \<Rightarrow> resource \<Rightarrow> ('n, 'q, 'l) global_state \<Rightarrow> ('n, 'q, 'l) global_state" where
  "publish libs r g = g\<lparr>proxy_ctx :=
     (if res_enabled r then set_resource libs (from_resource libs r) (proxy_ctx g)
      else remove_resource libs (subdomain r) (proxy_ctx g))\<rparr>"

definition unknown_connector :: "app_state \<Rightarrow> string option \<Rightarrow> bool" where
  "unknown_connector st cid = (case cid of None \<Rightarrow> False | Some c \<Rightarrow> map_of (connectors st) c = None)"

definition list_resources :: "nat \<Rightarrow> headers \<Rightarrow> ('n, 'q, 'l) global_state \<Rightarrow> ('n, 'q, 'l, resource list) handled" where
  "list_resources now headers = admin_only now headers (\<lambda>g. (Inr (resources (app g)), g))"

record create_resource_request =
  cr_subdomain :: string
  cr_target :: string
  cr_connector_id :: "string option"
  cr_allowed :: "string list"

definition create_check ::
  "'n libs \<Rightarrow> (string \<times> u16 \<Rightarrow> sockaddr list option) \<Rightarrow> create_resource_request
     \<Rightarrow> status + string \<times> string option \<times> string list" where
  "create_check libs dns req =
     (let sub = normalize_subdomain (cr_subdomain req); cid = normalize_connector_id (cr_connector_id req) in
      and_then (validate_subdomain sub) (\<lambda>_.
      and_then (parse_client_cidrs libs (cr_allowed req)) (\<lambda>cidrs.
      and_then (validate_target libs dns (cr_target req) cid) (\<lambda>_. Inr (sub, cid, cidrs)))))"

definition create_locked ::
  "'n libs \<Rightarrow> string \<Rightarrow> save_outcome \<Rightarrow> string \<Rightarrow> string \<times> string option \<times> string list
     \<Rightarrow> ('n, 'q, 'l) global_state \<Rightarrow> ('n, 'q, 'l, resource) handled" where
  "create_locked libs random out url checked g = (case checked of (sub, cid, cidrs) \<Rightarrow>
     (let s = app g in
      if subdomain_in_use (resources s) sub None then (Inl CONFLICT, g)
      else if unknown_connector s cid then (Inl BAD_REQUEST, g)
      else let r = \<lparr>res_id = random, subdomain = sub, res_target = url, res_enabled = True, res_connector = cid,
                    allowed_client_cidrs = cidrs\<rparr>;
               g1 = g\<lparr>app := s\<lparr>resources := resources s @ [r]\<rparr>\<rparr>
           in case save_state out g1 of
                (False, g2) \<Rightarrow> (Inl INTERNAL_SERVER_ERROR, g2\<lparr>app := (app g2)\<lparr>resources :=
                   filter (\<lambda>x. res_id x \<noteq> res_id r) (resources (app g2))\<rparr>\<rparr>)
              | (True, g2) \<Rightarrow> (Inr r, publish libs r g2)))"

definition create_resource ::
  "'n libs \<Rightarrow> (string \<times> u16 \<Rightarrow> sockaddr list option) \<Rightarrow> string \<Rightarrow> save_outcome \<Rightarrow> nat \<Rightarrow> headers
     \<Rightarrow> create_resource_request \<Rightarrow> ('n, 'q, 'l) global_state \<Rightarrow> ('n, 'q, 'l, resource) handled" where
  "create_resource libs dns random out now headers req = admin_only now headers (\<lambda>g.
     case create_check libs dns req of
       Inl e \<Rightarrow> (Inl e, g) | Inr checked \<Rightarrow> create_locked libs random out (cr_target req) checked g)"

record update_resource_request =
  ur_subdomain :: "string option"
  ur_target :: "string option"
  ur_enabled :: "bool option"
  ur_connector_id :: "string option option"
  ur_allowed :: "string list option"

definition merge_update :: "update_resource_request \<Rightarrow> string option \<Rightarrow> string list option \<Rightarrow> resource \<Rightarrow> resource" where
  "merge_update req sub cidrs r = r
     \<lparr>subdomain := (case sub of Some s \<Rightarrow> s | None \<Rightarrow> subdomain r),
      res_target := (case ur_target req of Some t \<Rightarrow> t | None \<Rightarrow> res_target r),
      res_connector := (case ur_connector_id req of Some c \<Rightarrow> normalize_connector_id c | None \<Rightarrow> res_connector r),
      res_enabled := (case ur_enabled req of Some e \<Rightarrow> e | None \<Rightarrow> res_enabled r),
      allowed_client_cidrs := (case cidrs of Some a \<Rightarrow> a | None \<Rightarrow> allowed_client_cidrs r)\<rparr>"

text \<open>What \<open>update_resource\<close> does before it takes the lock, on the state it reads then.\<close>

definition update_prepare ::
  "'n libs \<Rightarrow> (string \<times> u16 \<Rightarrow> sockaddr list option) \<Rightarrow> string \<Rightarrow> update_resource_request \<Rightarrow> app_state
     \<Rightarrow> status + resource" where
  "update_prepare libs dns i req s =
     (let sub = map_option normalize_subdomain (ur_subdomain req) in
      and_then (case sub of Some d \<Rightarrow> validate_subdomain d | None \<Rightarrow> Inr ()) (\<lambda>_.
      and_then (case ur_allowed req of None \<Rightarrow> Inr None
                | Some a \<Rightarrow> and_then (parse_client_cidrs libs a) (\<lambda>c. Inr (Some c))) (\<lambda>cidrs.
      and_then (ok_or (find (\<lambda>r. res_id r = i) (resources s)) NOT_FOUND) (\<lambda>current.
      let r = merge_update req sub cidrs current in
      and_then (validate_target libs dns (res_target r) (res_connector r)) (\<lambda>_. Inr r)))))"

text \<open>\<open>Iterator::position\<close>.\<close>

definition position :: "('a \<Rightarrow> bool) \<Rightarrow> 'a list \<Rightarrow> nat option" where
  "position P xs = (if \<exists>x \<in> set xs. P x then Some (length (takeWhile (\<lambda>x. \<not> P x) xs)) else None)"

definition update_commit ::
  "'n libs \<Rightarrow> save_outcome \<Rightarrow> string \<Rightarrow> resource \<Rightarrow> ('n, 'q, 'l) global_state \<Rightarrow> ('n, 'q, 'l, resource) handled" where
  "update_commit libs out i r g =
     (let s = app g in
      if subdomain_in_use (resources s) (subdomain r) (Some i) then (Inl CONFLICT, g)
      else if unknown_connector s (res_connector r) then (Inl BAD_REQUEST, g)
      else case position (\<lambda>x. res_id x = i) (resources s) of
        None \<Rightarrow> (Inl NOT_FOUND, g)
      | Some idx \<Rightarrow>
          let old = resources s ! idx;
              g1 = g\<lparr>app := s\<lparr>resources := (resources s)[idx := r]\<rparr>\<rparr>
          in case save_state out g1 of
               (False, g2) \<Rightarrow> (Inl INTERNAL_SERVER_ERROR, g2\<lparr>app := (app g2)\<lparr>resources :=
                  (resources (app g2))[idx := old]\<rparr>\<rparr>)
             | (True, g2) \<Rightarrow>
                 (Inr r, publish libs r (g2\<lparr>proxy_ctx := remove_resource libs (subdomain old) (proxy_ctx g2)\<rparr>)))"

definition update_resource ::
  "'n libs \<Rightarrow> (string \<times> u16 \<Rightarrow> sockaddr list option) \<Rightarrow> save_outcome \<Rightarrow> nat \<Rightarrow> headers \<Rightarrow> string
     \<Rightarrow> update_resource_request \<Rightarrow> ('n, 'q, 'l) global_state \<Rightarrow> ('n, 'q, 'l, resource) handled" where
  "update_resource libs dns out now headers i req = admin_only now headers (\<lambda>g.
     case update_prepare libs dns i req (app g) of
       Inl e \<Rightarrow> (Inl e, g) | Inr r \<Rightarrow> update_commit libs out i r g)"

definition delete_locked ::
  "'n libs \<Rightarrow> save_outcome \<Rightarrow> string \<Rightarrow> ('n, 'q, 'l) global_state \<Rightarrow> ('n, 'q, 'l, status) handled" where
  "delete_locked libs out i g =
     (let s = app g in
      case position (\<lambda>x. res_id x = i) (resources s) of
        None \<Rightarrow> (Inl NOT_FOUND, g)
      | Some idx \<Rightarrow>
          let removed = resources s ! idx;
              g1 = g\<lparr>app := s\<lparr>resources := take idx (resources s) @ drop (Suc idx) (resources s)\<rparr>\<rparr>
          in case save_state out g1 of
               (False, g2) \<Rightarrow> (Inl INTERNAL_SERVER_ERROR, g2\<lparr>app := (app g2)\<lparr>resources :=
                  take idx (resources (app g2)) @ removed # drop idx (resources (app g2))\<rparr>\<rparr>)
             | (True, g2) \<Rightarrow> (Inr NO_CONTENT, g2\<lparr>proxy_ctx := remove_resource libs (subdomain removed) (proxy_ctx g2)\<rparr>))"

definition delete_resource ::
  "'n libs \<Rightarrow> save_outcome \<Rightarrow> nat \<Rightarrow> headers \<Rightarrow> string \<Rightarrow> ('n, 'q, 'l) global_state \<Rightarrow> ('n, 'q, 'l, status) handled" where
  "delete_resource libs out now headers i = admin_only now headers (delete_locked libs out i)"

section \<open>Every handler keeps the invariant and rolls back on failure\<close>

lemma validate_subdomain_ok: "validate_subdomain s = Inr u \<longleftrightarrow> is_valid_label s \<and> s \<notin> {''x2rp'', ''www''}"
  by (simp add: validate_subdomain_def)

lemma normalize_subdomain_lower: "to_ascii_lowercase (normalize_subdomain s) = normalize_subdomain s"
  by (simp add: normalize_subdomain_def)

lemma create_check_ok:
  assumes "create_check libs dns req = Inr (sub, cid, cidrs)"
  shows "is_valid_label sub \<and> to_ascii_lowercase sub = sub \<and> sub \<notin> {''x2rp'', ''www''}
    \<and> validate_target libs dns (cr_target req) cid = Inr ()"
  using assms validate_subdomain_ok normalize_subdomain_lower
  by (auto simp: create_check_def Let_def and_then_eq_Inr)

lemma position_Some:
  assumes "position P xs = Some i"
  shows "i < length xs \<and> P (xs ! i)"
proof -
  have "\<exists>x \<in> set xs. P x" "i = length (takeWhile (\<lambda>x. \<not> P x) xs)"
    using assms by (auto simp: position_def split: if_splits)
  moreover have "\<exists>x \<in> set xs. P x \<Longrightarrow> length (takeWhile (\<lambda>x. \<not> P x) xs) < length xs
      \<and> P (xs ! length (takeWhile (\<lambda>x. \<not> P x) xs))"
    by (induction xs) auto
  ultimately show ?thesis by simp
qed

lemma not_in_use:
  assumes "\<not> subdomain_in_use rs cand excl" and "r \<in> set rs" and "excl \<noteq> Some (res_id r)"
    and "to_ascii_lowercase (subdomain r) = subdomain r" and "to_ascii_lowercase cand = cand"
  shows "subdomain r \<noteq> cand"
  using assms by (auto simp: subdomain_in_use_def eq_ignore_ascii_case_def)

text \<open>Adding and replacing a resource in a state.\<close>

lemma state_ok_add:
  assumes "state_ok st" and "initialized st" and "resource_ok r" and "res_id r \<notin> res_id ` set (resources st)"
    and "\<not> subdomain_in_use (resources st) (subdomain r) None" and "\<not> unknown_connector st (res_connector r)"
  shows "state_ok (st\<lparr>resources := resources st @ [r]\<rparr>)"
proof -
  have "subdomain r \<notin> subdomain ` set (resources st)"
    using assms not_in_use [OF assms(5)] by (force simp: state_ok_def resource_ok_def)
  then show ?thesis
    using assms by (auto simp: state_ok_def unknown_connector_def split: option.splits)
qed

lemma distinct_map_update:
  assumes "distinct (map f xs)" and "i < length xs" and "\<And>x. x \<in> set xs \<Longrightarrow> x \<noteq> xs ! i \<Longrightarrow> f x \<noteq> f y"
  shows "distinct (map f (xs[i := y]))"
proof -
  have "distinct xs" using assms(1) by (simp add: distinct_map)
  then have "f y \<notin> f ` (set xs - {xs ! i})" using assms(3) by (metis Diff_iff image_iff singletonI)
  moreover have "f ` (set xs - {xs ! i}) = set (map f xs) - {map f xs ! i}"
    using assms(1,2) by (auto simp: distinct_map inj_on_def)
  ultimately show ?thesis
    using assms(1,2) by (simp add: map_update distinct_list_update)
qed

lemma state_ok_replace:
  assumes ok: "state_ok st" and r: "resource_ok r" "res_id r = i" and pos: "position (\<lambda>x. res_id x = i) (resources st) = Some idx"
    and free: "\<not> subdomain_in_use (resources st) (subdomain r) (Some i)" and cn: "\<not> unknown_connector st (res_connector r)"
  shows "state_ok (st\<lparr>resources := (resources st)[idx := r]\<rparr>)"
proof -
  have idx: "idx < length (resources st)" "res_id (resources st ! idx) = i" using position_Some [OF pos] by simp_all
  have inj: "inj_on res_id (set (resources st))" using ok by (simp add: state_ok_def distinct_map)
  have other: "res_id x \<noteq> i" if "x \<in> set (resources st)" "x \<noteq> resources st ! idx" for x
    using inj_onD [OF inj, of x "resources st ! idx"] that idx by auto
  have "subdomain x \<noteq> subdomain r" if "x \<in> set (resources st)" "x \<noteq> resources st ! idx" for x
    using not_in_use [OF free that(1)] other [OF that] ok r(1) that(1) by (auto simp: state_ok_def resource_ok_def)
  then have "distinct (map subdomain ((resources st)[idx := r]))"
    using ok idx by (intro distinct_map_update) (auto simp: state_ok_def)
  moreover have "distinct (map res_id ((resources st)[idx := r]))"
    using ok idx other r(2) by (intro distinct_map_update) (auto simp: state_ok_def)
  ultimately show ?thesis
    using ok r cn set_update_subset_insert [of "resources st" idx r]
    by (auto simp: state_ok_def unknown_connector_def split: option.splits)
qed

lemma state_ok_remove:
  assumes "state_ok st"
  shows "state_ok (st\<lparr>resources := take idx (resources st) @ drop (Suc idx) (resources st)\<rparr>)"
proof -
  have "distinct (map f (take idx (resources st) @ drop (Suc idx) (resources st)))"
    if "distinct (map f (resources st))" for f :: "resource \<Rightarrow> string"
  proof -
    have "drop (Suc idx) (map f (resources st)) = drop 1 (drop idx (map f (resources st)))" by simp
    then have "set (drop (Suc idx) (map f (resources st))) \<subseteq> set (drop idx (map f (resources st)))"
      by (metis set_drop_subset)
    then show ?thesis
      using that set_take_disj_set_drop_if_distinct [OF that, of idx idx]
      by (simp add: take_map drop_map) (metis (no_types, lifting) disjoint_iff distinct_append distinct_drop distinct_take
          drop_map map_append subsetD take_map)
  qed
  then show ?thesis
    using assms set_take_subset [of idx "resources st"] set_drop_subset [of "Suc idx" "resources st"]
    by (auto simp: state_ok_def)
qed

text \<open>Saving a changed state: what is on disk is fine whenever the changed state is.\<close>

lemma save_state_ok:
  assumes "save_state out (g\<lparr>app := st\<rparr>) = (ok, g2)" and "state_ok st" and "\<forall>d. disk g = Some d \<longrightarrow> state_ok d"
  shows "app g2 = st \<and> auth_svc g2 = auth_svc g \<and> proxy_ctx g2 = proxy_ctx g \<and> (\<forall>d. disk g2 = Some d \<longrightarrow> state_ok d)"
  using assms save_state_sel [OF assms(1)] save_state_disk [OF assms(1)] by auto

lemma publish_sel [simp]: "app (publish libs r g) = app g" "disk (publish libs r g) = disk g"
  "auth_svc (publish libs r g) = auth_svc g"
  by (simp_all add: publish_def)

lemma global_okD: "global_ok libs g \<Longrightarrow> state_ok (app g)" "global_ok libs g \<Longrightarrow> ascii_domain (proxy_ctx g)"
  "global_ok libs g \<Longrightarrow> routed libs (set (resources (app g))) (proxy_ctx g)"
  "global_ok libs g \<Longrightarrow> \<forall>d. disk g = Some d \<longrightarrow> state_ok d"
  by (auto simp: global_ok_def)

lemma publish_ok:
  assumes st: "state_ok (app g)" and dom: "ascii_domain (proxy_ctx g)" and d: "\<forall>d. disk g = Some d \<longrightarrow> state_ok d"
    and R: "routed libs R (proxy_ctx g)" and set: "set (resources (app g)) = insert r R" and r: "r \<notin> R"
  shows "global_ok libs (publish libs r g)"
proof -
  have "fqdn libs (proxy_ctx g) (subdomain x) \<noteq> fqdn libs (proxy_ctx g) (subdomain r)" if "x \<in> R" for x
    using state_ok_names [OF st _ _ dom, of x r libs] that set r by auto
  then have "routed libs (insert r R) (if res_enabled r then set_resource libs (from_resource libs r) (proxy_ctx g)
      else remove_resource libs (subdomain r) (proxy_ctx g))"
    by (intro routed_publish [OF R])
  then show ?thesis using st dom d set by (simp add: global_ok_def publish_def)
qed

lemma create_locked_ok:
  assumes ok: "global_ok libs g" and ini: "initialized (app g)" and sub: "is_valid_label sub" "to_ascii_lowercase sub = sub" "sub \<notin> {''x2rp'', ''www''}"
    and fresh: "random \<notin> res_id ` set (resources (app g))"
    and res: "create_locked libs random out url (sub, cid, cidrs) g = (res, g')"
  shows "global_ok libs g' \<and> ((\<exists>e. res = Inl e) \<longrightarrow> app g' = app g \<and> proxy_ctx g' = proxy_ctx g)"
proof (cases "subdomain_in_use (resources (app g)) sub None \<or> unknown_connector (app g) cid")
  case True
  then have "g' = g" using res by (simp add: create_locked_def Let_def split: if_splits)
  then show ?thesis using ok by simp
next
  case False
  let ?r = "\<lparr>res_id = random, subdomain = sub, res_target = url, res_enabled = True, res_connector = cid,
    allowed_client_cidrs = cidrs\<rparr>"
  let ?st = "(app g)\<lparr>resources := resources (app g) @ [?r]\<rparr>"
  have rok: "resource_ok ?r" using sub by (simp add: resource_ok_def)
  have st: "state_ok ?st"
    using state_ok_add [OF global_okD(1) [OF ok] ini rok] fresh False by simp
  obtain b g2 where sv: "save_state out (g\<lparr>app := ?st\<rparr>) = (b, g2)" by fastforce
  note g2 = save_state_ok [OF sv st global_okD(4) [OF ok]]
  have undo: "filter (\<lambda>x. res_id x \<noteq> random) (resources (app g)) = resources (app g)"
    using fresh by (auto intro: filter_True)
  show ?thesis
  proof (cases b)
    case True
    then have g': "g' = publish libs ?r g2" "res = Inr ?r" using res False sv by (simp_all add: create_locked_def Let_def)
    have "?r \<notin> set (resources (app g))" using fresh by force
    then have "global_ok libs g'" unfolding g'(1)
      using g2 st global_okD [OF ok] by (intro publish_ok [of _ _ "set (resources (app g))"]) auto
    then show ?thesis using g'(2) by simp
  next
    case b: False
    then have g': "g' = g2\<lparr>app := app g\<rparr>"
      using res False sv g2 undo by (simp add: create_locked_def Let_def)
    then show ?thesis using g2 ok by (auto simp: global_ok_def)
  qed
qed

lemma update_commit_ok:
  assumes ok: "global_ok libs g" and r: "resource_ok r" "res_id r = i"
    and res: "update_commit libs out i r g = (res, g')"
  shows "global_ok libs g' \<and> ((\<exists>e. res = Inl e) \<longrightarrow> app g' = app g \<and> proxy_ctx g' = proxy_ctx g)"
proof (cases "subdomain_in_use (resources (app g)) (subdomain r) (Some i) \<or> unknown_connector (app g) (res_connector r)
    \<or> position (\<lambda>x. res_id x = i) (resources (app g)) = None")
  case True
  then show ?thesis using res ok by (auto simp: update_commit_def Let_def split: if_splits)
next
  case False
  then obtain idx where pos: "position (\<lambda>x. res_id x = i) (resources (app g)) = Some idx" by auto
  note idx = position_Some [OF pos]
  let ?rs = "resources (app g)"
  let ?old = "?rs ! idx" and ?st = "(app g)\<lparr>resources := ?rs[idx := r]\<rparr>"
  have st: "state_ok ?st" using state_ok_replace [OF global_okD(1) [OF ok] r pos] False by simp
  obtain b g2 where sv: "save_state out (g\<lparr>app := ?st\<rparr>) = (b, g2)" by fastforce
  note g2 = save_state_ok [OF sv st global_okD(4) [OF ok]]
  show ?thesis
  proof (cases b)
    case True
    let ?g3 = "g2\<lparr>proxy_ctx := remove_resource libs (subdomain ?old) (proxy_ctx g2)\<rparr>"
    have g': "g' = publish libs r ?g3" "res = Inr r"
      using res False pos sv True by (simp_all add: update_commit_def Let_def)
    have dist: "distinct ?rs" using global_okD(1) [OF ok] by (simp add: state_ok_def distinct_map)
    have "routed libs (set ?rs - {?old}) (remove_resource libs (subdomain ?old) (proxy_ctx g))"
      using idx state_ok_names [OF global_okD(1) [OF ok] _ _ global_okD(2) [OF ok]]
      by (intro routed_remove [OF global_okD(3) [OF ok]]) auto
    moreover have "r \<notin> set ?rs - {?old}"
    proof
      assume "r \<in> set ?rs - {?old}"
      moreover have "inj_on res_id (set ?rs)" using global_okD(1) [OF ok] by (simp add: state_ok_def distinct_map)
      ultimately show False using idx r(2) inj_onD [of res_id "set ?rs" r ?old] by auto
    qed
    ultimately have "global_ok libs g'" unfolding g'(1)
      using g2 st global_okD(2) [OF ok] set_update_distinct [OF dist, of idx r] idx
      by (intro publish_ok [of _ _ "set ?rs - {?old}"]) simp_all
    then show ?thesis using g'(2) by simp
  next
    case b: False
    then have g': "g' = g2\<lparr>app := app g\<rparr>"
      using res False pos sv g2 by (simp add: update_commit_def Let_def)
    then show ?thesis using g2 ok by (auto simp: global_ok_def)
  qed
qed

lemma delete_locked_ok:
  assumes ok: "global_ok libs g" and res: "delete_locked libs out i g = (res, g')"
  shows "global_ok libs g' \<and> ((\<exists>e. res = Inl e) \<longrightarrow> app g' = app g \<and> proxy_ctx g' = proxy_ctx g)"
proof (cases "position (\<lambda>x. res_id x = i) (resources (app g))")
  case None
  then show ?thesis using res ok by (simp add: delete_locked_def)
next
  case (Some idx)
  note idx = position_Some [OF Some]
  let ?rs = "resources (app g)"
  let ?old = "?rs ! idx" and ?del = "take idx ?rs @ drop (Suc idx) ?rs"
  let ?st = "(app g)\<lparr>resources := ?del\<rparr>"
  have st: "state_ok ?st" by (rule state_ok_remove [OF global_okD(1) [OF ok]])
  obtain b g2 where sv: "save_state out (g\<lparr>app := ?st\<rparr>) = (b, g2)" by fastforce
  note g2 = save_state_ok [OF sv st global_okD(4) [OF ok]]
  have split: "?rs = take idx ?rs @ ?old # drop (Suc idx) ?rs" using idx by (simp add: id_take_nth_drop)
  have dist: "distinct ?rs" using global_okD(1) [OF ok] by (simp add: state_ok_def distinct_map)
  have set: "set ?del = set ?rs - {?old}"
  proof -
    have "?old \<notin> set (take idx ?rs)" "?old \<notin> set (drop (Suc idx) ?rs)"
      using dist split by (metis distinct.simps(2) distinct_append not_distinct_conv_prefix)+
    moreover have "set ?rs = insert ?old (set ?del)" by (subst split) auto
    ultimately show ?thesis by auto
  qed
  show ?thesis
  proof (cases b)
    case True
    have "g' = g2\<lparr>proxy_ctx := remove_resource libs (subdomain ?old) (proxy_ctx g2)\<rparr>" "res = Inr NO_CONTENT"
      using res Some sv True by (simp_all add: delete_locked_def Let_def)
    moreover have "routed libs (set ?rs - {?old}) (remove_resource libs (subdomain ?old) (proxy_ctx g))"
      using idx state_ok_names [OF global_okD(1) [OF ok] _ _ global_okD(2) [OF ok]]
      by (intro routed_remove [OF global_okD(3) [OF ok]]) auto
    ultimately show ?thesis using g2 st set global_okD(2) [OF ok] by (simp add: global_ok_def)
  next
    case False
    have "take idx ?del @ ?old # drop idx ?del = ?rs" using split idx by (simp add: min_def)
    then have g': "g' = g2\<lparr>app := app g\<rparr>"
      using res Some sv g2 False by (simp add: delete_locked_def Let_def)
    then show ?thesis using g2 ok by (auto simp: global_ok_def)
  qed
qed

end
