(* ===== verification/Connectors_Api.thy ===== *)
theory Connectors_Api
  imports Resources_Api
begin

text \<open>
  The connectors of the API (\<open>crates/server/src/api/connectors.rs\<close>): creating, listing, updating
  and deleting them, rotating a token, and what a connector itself asks for with its token. The
  build's repository and version are arguments, as are random ids and tokens.
\<close>

declare map_of_eq_Some_iff [simp del] and Some_eq_map_of_iff [simp del]

section \<open>Commands and names\<close>

definition build_install_command :: "string option \<Rightarrow> string \<Rightarrow> string \<Rightarrow> string \<Rightarrow> string" where
  "build_install_command repo version d token =
     (let args = ''--server https://x2rp.'' @ d @ '' --token '' @ [CHR 0x27] @ token @ [CHR 0x27] in
      case repo of
        Some r \<Rightarrow> ''curl -fsSL https://github.com/'' @ r @ ''/releases/download/v'' @ version
                   @ ''/install-connector.sh | sudo bash -s -- '' @ args
      | None \<Rightarrow> ''sudo ./install-connector.sh '' @ args)"

text \<open>\<open>str::chars\<close>: a character is a byte that starts one, with the continuation bytes after it.\<close>

definition continuation :: "char \<Rightarrow> bool" where
  "continuation c \<longleftrightarrow> 128 \<le> byte_of c \<and> byte_of c < 192"

function chars :: "string \<Rightarrow> string list" where
  "chars [] = []"
| "chars (c # cs) = (c # takeWhile continuation cs) # chars (dropWhile continuation cs)"
  by pat_completeness auto
termination
  by (relation "measure length") (auto simp: length_dropWhile_le less_Suc_eq_le)

definition is_alphanumeric :: "'n libs \<Rightarrow> string \<Rightarrow> bool" where
  "is_alphanumeric libs ch = (case ch of
     [c] \<Rightarrow> if is_ascii c then is_ascii_alphanumeric c else unicode_alphanumeric libs ch
   | _ \<Rightarrow> unicode_alphanumeric libs ch)"

definition connector_name_ok :: "'n libs \<Rightarrow> string \<Rightarrow> bool" where
  "connector_name_ok libs name \<longleftrightarrow> name \<noteq> [] \<and> length name \<le> 64
     \<and> (\<forall>ch \<in> set (chars name). is_alphanumeric libs ch \<or> ch = ''-'' \<or> ch = ''_'')"

section \<open>Admin handlers\<close>

definition kick :: "string \<Rightarrow> ('n, 'q, 'l) global_state \<Rightarrow> ('n, 'q, 'l) global_state" where
  "kick cid g = g\<lparr>proxy_ctx := (proxy_ctx g)\<lparr>ctx_connectors := unregister cid (ctx_connectors (proxy_ctx g))\<rparr>\<rparr>"

record connector_details =
  cd_id :: string
  cd_name :: string
  cd_last_seen :: "nat option"
  cd_force_wss :: bool
  cd_transport :: "string option"

definition connector_detail :: "nat \<Rightarrow> connector \<Rightarrow> ('n, 'q, 'l) global_state \<Rightarrow> connector_details" where
  "connector_detail now c g =
     (let transport = registry_transport_label (conn_id c) (ctx_connectors (proxy_ctx g)) in
      \<lparr>cd_id = conn_id c, cd_name = conn_name c,
       cd_last_seen = (case transport of None \<Rightarrow> conn_last_seen c | Some _ \<Rightarrow> Some now),
       cd_force_wss = force_wss c, cd_transport = transport\<rparr>)"

definition list_connectors ::
  "nat \<Rightarrow> headers \<Rightarrow> ('n, 'q, 'l) global_state \<Rightarrow> ('n, 'q, 'l, connector_details list) handled" where
  "list_connectors now headers = admin_only now headers (\<lambda>g.
     (Inr (map (\<lambda>(_, c). connector_detail now c g) (connectors (app g))), g))"

definition create_connector_locked ::
  "'n libs \<Rightarrow> string option \<Rightarrow> string \<Rightarrow> string \<Rightarrow> string \<Rightarrow> save_outcome \<Rightarrow> string
     \<Rightarrow> ('n, 'q, 'l) global_state \<Rightarrow> ('n, 'q, 'l, string) handled" where
  "create_connector_locked libs repo version new_id token out name g =
     (let s = app g in
      if \<exists>(_, c) \<in> set (connectors s). conn_name c = name then (Inl CONFLICT, g)
      else let install_command = build_install_command repo version (domain s) token;
               c = \<lparr>conn_id = new_id, conn_name = name, token_hash = hash_token libs token, force_wss = False,
                    conn_last_seen = None\<rparr>;
               g1 = g\<lparr>app := s\<lparr>connectors := AList.update new_id c (connectors s)\<rparr>\<rparr>
           in case save_state out g1 of
                (False, g2) \<Rightarrow> (Inl INTERNAL_SERVER_ERROR, g2\<lparr>app := (app g2)\<lparr>connectors :=
                   AList.delete new_id (connectors (app g2))\<rparr>\<rparr>)
              | (True, g2) \<Rightarrow> (Inr install_command, g2))"

definition create_connector ::
  "'n libs \<Rightarrow> string option \<Rightarrow> string \<Rightarrow> string \<Rightarrow> string \<Rightarrow> save_outcome \<Rightarrow> nat \<Rightarrow> headers \<Rightarrow> string
     \<Rightarrow> ('n, 'q, 'l) global_state \<Rightarrow> ('n, 'q, 'l, string) handled" where
  "create_connector libs repo version new_id token out now headers name = admin_only now headers (\<lambda>g.
     if \<not> connector_name_ok libs name then (Inl BAD_REQUEST, g)
     else create_connector_locked libs repo version new_id token out name g)"

text \<open>A change of the transport preference is applied in memory whether or not it could be saved.\<close>

definition update_connector_locked ::
  "save_outcome \<Rightarrow> nat \<Rightarrow> string \<Rightarrow> bool \<Rightarrow> ('n, 'q, 'l) global_state \<Rightarrow> ('n, 'q, 'l, connector_details) handled" where
  "update_connector_locked out now cid wss g = (case map_of (connectors (app g)) cid of
       None \<Rightarrow> (Inl NOT_FOUND, g)
     | Some c \<Rightarrow>
         let changed = (force_wss c \<noteq> wss); c' = c\<lparr>force_wss := wss\<rparr>;
             g1 = g\<lparr>app := (app g)\<lparr>connectors := AList.update cid c' (connectors (app g))\<rparr>\<rparr>;
             g2 = (if changed then kick cid (snd (save_state out g1)) else g1)
         in (Inr (connector_detail now c' g2), g2))"

definition update_connector ::
  "save_outcome \<Rightarrow> nat \<Rightarrow> headers \<Rightarrow> string \<Rightarrow> bool \<Rightarrow> ('n, 'q, 'l) global_state
     \<Rightarrow> ('n, 'q, 'l, connector_details) handled" where
  "update_connector out now headers cid wss = admin_only now headers (update_connector_locked out now cid wss)"

definition delete_connector_locked ::
  "save_outcome \<Rightarrow> string \<Rightarrow> ('n, 'q, 'l) global_state \<Rightarrow> ('n, 'q, 'l, status) handled" where
  "delete_connector_locked out cid g =
     (let s = app g in
      if \<exists>r \<in> set (resources s). res_connector r = Some cid then (Inl CONFLICT, g)
      else case map_of (connectors s) cid of
        None \<Rightarrow> (Inl NOT_FOUND, g)
      | Some c \<Rightarrow>
          let g1 = g\<lparr>app := s\<lparr>connectors := AList.delete cid (connectors s)\<rparr>\<rparr>
          in case save_state out g1 of
               (False, g2) \<Rightarrow> (Inl INTERNAL_SERVER_ERROR, g2\<lparr>app := (app g2)\<lparr>connectors :=
                  AList.update cid c (connectors (app g2))\<rparr>\<rparr>)
             | (True, g2) \<Rightarrow> (Inr NO_CONTENT, kick cid g2))"

definition delete_connector ::
  "save_outcome \<Rightarrow> nat \<Rightarrow> headers \<Rightarrow> string \<Rightarrow> ('n, 'q, 'l) global_state \<Rightarrow> ('n, 'q, 'l, status) handled" where
  "delete_connector out now headers cid = admin_only now headers (delete_connector_locked out cid)"

definition regenerate_locked ::
  "'n libs \<Rightarrow> string option \<Rightarrow> string \<Rightarrow> string \<Rightarrow> save_outcome \<Rightarrow> string \<Rightarrow> ('n, 'q, 'l) global_state
     \<Rightarrow> ('n, 'q, 'l, string) handled" where
  "regenerate_locked libs repo version token out cid g = (case map_of (connectors (app g)) cid of
       None \<Rightarrow> (Inl NOT_FOUND, g)
     | Some c \<Rightarrow>
         let c' = c\<lparr>token_hash := hash_token libs token\<rparr>;
             g1 = g\<lparr>app := (app g)\<lparr>connectors := AList.update cid c' (connectors (app g))\<rparr>\<rparr>
         in case save_state out g1 of
              (False, g2) \<Rightarrow> (Inl INTERNAL_SERVER_ERROR,
                 case map_of (connectors (app g2)) cid of
                   None \<Rightarrow> g2
                 | Some c2 \<Rightarrow> g2\<lparr>app := (app g2)\<lparr>connectors :=
                     AList.update cid (c2\<lparr>token_hash := token_hash c\<rparr>) (connectors (app g2))\<rparr>\<rparr>)
            | (True, g2) \<Rightarrow> (Inr (build_install_command repo version (domain (app g2)) token), kick cid g2))"

definition regenerate_connector_token ::
  "'n libs \<Rightarrow> string option \<Rightarrow> string \<Rightarrow> string \<Rightarrow> save_outcome \<Rightarrow> nat \<Rightarrow> headers \<Rightarrow> string
     \<Rightarrow> ('n, 'q, 'l) global_state \<Rightarrow> ('n, 'q, 'l, string) handled" where
  "regenerate_connector_token libs repo version token out now headers cid =
     admin_only now headers (regenerate_locked libs repo version token out cid)"

section \<open>What a connector asks with its token\<close>

definition connector_disconnect ::
  "'n libs \<Rightarrow> headers \<Rightarrow> ('n, 'q, 'l) global_state \<Rightarrow> ('n, 'q, 'l, status) handled" where
  "connector_disconnect libs headers g = (case bearer_token headers of
       None \<Rightarrow> (Inl UNAUTHORIZED, g)
     | Some token \<Rightarrow>
         if \<not> initialized (app g) then (Inl SERVICE_UNAVAILABLE, g)
         else case connector_from_token libs (app g) token of
                None \<Rightarrow> (Inl UNAUTHORIZED, g)
              | Some c \<Rightarrow> (Inr NO_CONTENT, kick (conn_id c) g))"

definition connector_get_settings ::
  "'n libs \<Rightarrow> headers \<Rightarrow> ('n, 'q, 'l) global_state \<Rightarrow> status + string \<times> bool" where
  "connector_get_settings libs headers g =
     (if \<not> initialized (app g) then Inl SERVICE_UNAVAILABLE else
      and_then (ok_or (bearer_token headers) UNAUTHORIZED) (\<lambda>token.
      and_then (ok_or (connector_from_token libs (app g) token) UNAUTHORIZED) (\<lambda>c.
      let secret = obfuscation_secret (config (app g)) in
      if secret = [] then Inl INTERNAL_SERVER_ERROR else Inr (secret, force_wss c))))"

section \<open>Every handler keeps the invariant and rolls back on failure\<close>

text \<open>States that agree but for the order in which the connectors are iterated.\<close>

definition same_state :: "app_state \<Rightarrow> app_state \<Rightarrow> bool" where
  "same_state st st' \<longleftrightarrow> st' = st\<lparr>connectors := connectors st'\<rparr> \<and> map_of (connectors st') = map_of (connectors st)"

lemma same_state_refl [simp]: "same_state st st"
  by (simp add: same_state_def)

lemma state_ok_connectors:
  assumes "state_ok st" and "distinct_keys cs" and "\<And>k c. map_of cs k = Some c \<Longrightarrow> conn_id c = k"
    and "\<And>r c. r \<in> set (resources st) \<Longrightarrow> res_connector r = Some c \<Longrightarrow> map_of cs c \<noteq> None"
  shows "state_ok (st\<lparr>connectors := cs\<rparr>)"
  using assms by (auto simp: state_ok_def)

lemma state_ok_put:
  assumes "state_ok st" and "conn_id c = cid"
  shows "state_ok (st\<lparr>connectors := AList.update cid c (connectors st)\<rparr>)"
  using assms by (intro state_ok_connectors)
    (auto simp: state_ok_def distinct_update map_of_update split: if_splits)

lemma state_ok_drop:
  assumes "state_ok st" and "\<forall>r \<in> set (resources st). res_connector r \<noteq> Some cid"
  shows "state_ok (st\<lparr>connectors := AList.delete cid (connectors st)\<rparr>)"
  using assms by (intro state_ok_connectors)
    (auto simp: state_ok_def distinct_delete map_of_delete split: if_splits)

lemma kick_sel [simp]: "app (kick cid g) = app g" "disk (kick cid g) = disk g" "auth_svc (kick cid g) = auth_svc g"
  "routes (proxy_ctx (kick cid g)) = routes (proxy_ctx g)"
  "ctx_domain (proxy_ctx (kick cid g)) = ctx_domain (proxy_ctx g)"
  "ctx_connectors (proxy_ctx (kick cid g)) = unregister cid (ctx_connectors (proxy_ctx g))"
  by (simp_all add: kick_def)

lemma kick_ok [simp]: "global_ok libs (kick cid g) = global_ok libs g"
  using routed_cong [of "proxy_ctx (kick cid g)" "proxy_ctx g" libs] by (simp add: global_ok_def ascii_domain_def)

text \<open>Memory and disk after a changed state was saved, and after the change was taken back.\<close>

lemma save_changed_ok:
  assumes "global_ok libs g" and "save_state out (g\<lparr>app := st\<rparr>) = (b, g2)" and "state_ok st"
    and "resources st = resources (app g)"
  shows "global_ok libs g2 \<and> app g2 = st \<and> auth_svc g2 = auth_svc g \<and> proxy_ctx g2 = proxy_ctx g"
  using assms save_state_ok [OF assms(2,3) global_okD(4) [OF assms(1)]] by (auto simp: global_ok_def)

lemma restore_ok:
  assumes "global_ok libs g" and "global_ok libs g2" and "proxy_ctx g2 = proxy_ctx g" and "same_state (app g) st"
    and "state_ok st"
  shows "global_ok libs (g2\<lparr>app := st\<rparr>)"
proof -
  have "resources st = resources (app g)" using assms(4) by (metis app_state.select_convs(3) app_state.surjective app_state.update_convs(2) same_state_def)
  then show ?thesis using assms by (simp add: global_ok_def)
qed

lemma delete_update_fresh: "k \<notin> keys t \<Longrightarrow> AList.delete k (AList.update k v t) = t"
  by (induction t) (auto simp: AList.delete_eq)

lemma update_update_same: "map_of t k = Some v \<Longrightarrow> AList.update k v (AList.update k w t) = t"
  by (induction t) (auto split: if_splits)

lemma create_connector_ok:
  assumes ok: "global_ok libs g" and fresh: "new_id \<notin> keys (connectors (app g))"
    and res: "create_connector_locked libs' repo version new_id token out name g = (res, g')"
  shows "global_ok libs g' \<and> proxy_ctx g' = proxy_ctx g \<and> ((\<exists>e. res = Inl e) \<longrightarrow> app g' = app g)"
proof (cases "\<exists>(_, c) \<in> set (connectors (app g)). conn_name c = name")
  case True
  then show ?thesis using res ok by (simp add: create_connector_locked_def)
next
  case False
  let ?c = "\<lparr>conn_id = new_id, conn_name = name, token_hash = hash_token libs' token, force_wss = False, conn_last_seen = None\<rparr>"
  let ?st = "(app g)\<lparr>connectors := AList.update new_id ?c (connectors (app g))\<rparr>"
  have st: "state_ok ?st" by (rule state_ok_put [OF global_okD(1) [OF ok]]) simp
  obtain b g2 where sv: "save_state out (g\<lparr>app := ?st\<rparr>) = (b, g2)" by fastforce
  note g2 = save_changed_ok [OF ok sv st]
  show ?thesis
  proof (cases b)
    case True
    then show ?thesis using res False sv g2 by (auto simp: create_connector_locked_def Let_def)
  next
    case b: False
    then have "g' = g2\<lparr>app := app g\<rparr>"
      using res False sv g2 delete_update_fresh [OF fresh] by (simp add: create_connector_locked_def Let_def)
    then show ?thesis using g2 restore_ok [OF ok, of g2 "app g"] global_okD(1) [OF ok] by simp
  qed
qed

lemma update_connector_ok:
  assumes ok: "global_ok libs g" and res: "update_connector_locked out now cid wss g = (res, g')"
  shows "global_ok libs g' \<and> ((\<exists>e. res = Inl e) \<longrightarrow> g' = g)"
proof (cases "map_of (connectors (app g)) cid")
  case None
  then show ?thesis using res ok by (simp add: update_connector_locked_def)
next
  case (Some c)
  let ?st = "(app g)\<lparr>connectors := AList.update cid (c\<lparr>force_wss := wss\<rparr>) (connectors (app g))\<rparr>"
  have id: "conn_id c = cid" using global_okD(1) [OF ok] Some by (simp add: state_ok_def)
  have st: "state_ok ?st" by (rule state_ok_put [OF global_okD(1) [OF ok]]) (simp add: id)
  obtain b g2 where sv: "save_state out (g\<lparr>app := ?st\<rparr>) = (b, g2)" by fastforce
  have "global_ok libs (g\<lparr>app := ?st\<rparr>)" using ok st by (simp add: global_ok_def)
  then show ?thesis
    using res Some sv save_changed_ok [OF ok sv st] by (auto simp: update_connector_locked_def Let_def split: if_splits)
qed

lemma delete_connector_ok:
  assumes ok: "global_ok libs g" and res: "delete_connector_locked out cid g = (res, g')"
  shows "global_ok libs g' \<and> ((\<exists>e. res = Inl e) \<longrightarrow> same_state (app g) (app g') \<and> proxy_ctx g' = proxy_ctx g)"
proof (cases "(\<exists>r \<in> set (resources (app g)). res_connector r = Some cid) \<or> map_of (connectors (app g)) cid = None")
  case True
  then have "g' = g" using res by (auto simp: delete_connector_locked_def Let_def split: if_splits)
  then show ?thesis using ok by simp
next
  case False
  then obtain c where c: "map_of (connectors (app g)) cid = Some c" by auto
  let ?st = "(app g)\<lparr>connectors := AList.delete cid (connectors (app g))\<rparr>"
  have st: "state_ok ?st" using False by (intro state_ok_drop [OF global_okD(1) [OF ok]]) auto
  obtain b g2 where sv: "save_state out (g\<lparr>app := ?st\<rparr>) = (b, g2)" by fastforce
  note g2 = save_changed_ok [OF ok sv st]
  show ?thesis
  proof (cases b)
    case True
    then show ?thesis using res False c sv g2 by (auto simp: delete_connector_locked_def Let_def)
  next
    case b: False
    let ?undo = "(app g)\<lparr>connectors := AList.update cid c (AList.delete cid (connectors (app g)))\<rparr>"
    have g': "g' = g2\<lparr>app := ?undo\<rparr>"
      using res False c sv g2 b by (simp add: delete_connector_locked_def Let_def)
    have same: "same_state (app g) ?undo" using c by (auto simp: same_state_def map_of_update map_of_delete)
    have id: "conn_id c = cid" using global_okD(1) [OF ok] c by (simp add: state_ok_def)
    have "state_ok ?undo" using state_ok_put [OF st id] by simp
    then show ?thesis using g' g2 restore_ok [OF ok, of g2 ?undo] same by simp
  qed
qed

lemma regenerate_ok:
  assumes ok: "global_ok libs g" and res: "regenerate_locked libs' repo version token out cid g = (res, g')"
  shows "global_ok libs g' \<and> ((\<exists>e. res = Inl e) \<longrightarrow> app g' = app g \<and> proxy_ctx g' = proxy_ctx g)"
proof (cases "map_of (connectors (app g)) cid")
  case None
  then show ?thesis using res ok by (simp add: regenerate_locked_def)
next
  case (Some c)
  let ?c = "c\<lparr>token_hash := hash_token libs' token\<rparr>"
  let ?st = "(app g)\<lparr>connectors := AList.update cid ?c (connectors (app g))\<rparr>"
  have id: "conn_id c = cid" using global_okD(1) [OF ok] Some by (simp add: state_ok_def)
  have st: "state_ok ?st" by (rule state_ok_put [OF global_okD(1) [OF ok]]) (simp add: id)
  obtain b g2 where sv: "save_state out (g\<lparr>app := ?st\<rparr>) = (b, g2)" by fastforce
  note g2 = save_changed_ok [OF ok sv st]
  show ?thesis
  proof (cases b)
    case True
    then show ?thesis using res Some sv g2 by (auto simp: regenerate_locked_def Let_def)
  next
    case b: False
    have "AList.update cid c (AList.update cid ?c (connectors (app g))) = connectors (app g)"
      by (rule update_update_same [OF Some])
    then have "g' = g2\<lparr>app := app g\<rparr>"
      using res Some sv g2 b by (simp add: regenerate_locked_def Let_def map_of_update)
    then show ?thesis using g2 restore_ok [OF ok, of g2 "app g"] global_okD(1) [OF ok] by simp
  qed
qed

end
