(* ===== verification/Admin_Api.thy ===== *)
theory Admin_Api
  imports Connectors_Api
begin

text \<open>
  Setting the server up, logging in, the CSRF check of the API (\<open>crates/server/src/api/setup_api.rs\<close>,
  \<open>auth_api.rs\<close>, \<open>crates/server/src/http_middleware.rs\<close>), the console's files
  (\<open>crates/server/src/static_files.rs\<close>) and the start of the server from its stored state
  (\<open>crates/server/src/main.rs\<close>).
\<close>

declare map_of_eq_Some_iff [simp del] and Some_eq_map_of_iff [simp del]

section \<open>Setup\<close>

record setup_request =
  sr_domain :: string
  sr_password :: string
  sr_cf_api_token :: "string option"

text \<open>Before the lock: the state is read once, and the password is hashed.\<close>

definition setup_check :: "argon2 \<Rightarrow> string option \<Rightarrow> setup_request \<Rightarrow> app_state \<Rightarrow> status + string \<times> string" where
  "setup_check a join_error req s =
     (if initialized s then Inl CONFLICT else
      let d = normalize_domain (sr_domain req) in
      if \<not> is_valid_domain d then Inl BAD_REQUEST
      else if \<not> (ADMIN_PASSWORD_MIN_LEN \<le> length (sr_password req) \<and> length (sr_password req) \<le> ADMIN_PASSWORD_MAX_LEN)
      then Inl BAD_REQUEST
      else case hash_password_async a join_error (sr_password req) of
             Inl _ \<Rightarrow> Inl INTERNAL_SERVER_ERROR | Inr h \<Rightarrow> Inr (d, h))"

text \<open>Under the lock. A failed save leaves the changed state in memory.\<close>

definition setup_locked ::
  "save_outcome \<Rightarrow> string \<Rightarrow> setup_request \<Rightarrow> string \<times> string \<Rightarrow> ('n, 'q, 'l) global_state
     \<Rightarrow> ('n, 'q, 'l, status) handled" where
  "setup_locked out secret req checked g = (case checked of (d, h) \<Rightarrow>
     if initialized (app g) then (Inl CONFLICT, g) else
     let g1 = g\<lparr>app := (app g)\<lparr>domain := d, admin_password_hash := Some h,
           config := \<lparr>cf_api_token = (case sr_cf_api_token req of Some t \<Rightarrow> t | None \<Rightarrow> []),
                      obfuscation_secret = secret\<rparr>,
           initialized := True\<rparr>\<rparr>
     in case save_state out g1 of
          (True, g2) \<Rightarrow> (Inr OK, g2) | (False, g2) \<Rightarrow> (Inl INTERNAL_SERVER_ERROR, g2))"

definition post_setup ::
  "argon2 \<Rightarrow> string option \<Rightarrow> save_outcome \<Rightarrow> string \<Rightarrow> setup_request \<Rightarrow> ('n, 'q, 'l) global_state
     \<Rightarrow> ('n, 'q, 'l, status) handled" where
  "post_setup a join_error out secret req g = (case setup_check a join_error req (app g) of
     Inl e \<Rightarrow> (Inl e, g) | Inr checked \<Rightarrow> setup_locked out secret req checked g)"

section \<open>Login\<close>

definition session_cookies :: "string \<Rightarrow> string \<Rightarrow> string list" where
  "session_cookies session_id csrf =
     [ADMIN_SESSION_COOKIE @ ''='' @ session_id @ ''; Path=/; HttpOnly; Secure; SameSite=Strict; Max-Age=''
        @ show_nat SESSION_ABSOLUTE_TTL_SECS,
      ADMIN_CSRF_COOKIE @ ''='' @ csrf @ ''; Path=/; Secure; SameSite=Strict; Max-Age=''
        @ show_nat SESSION_ABSOLUTE_TTL_SECS]"

text \<open>\<open>header_ok\<close> is \<open>HeaderValue::from_str\<close>; \<open>permit\<close> and \<open>join_error\<close> are those of the hashing task,
  and the delay to a fixed minimum has no effect on the state.\<close>

definition auth_login ::
  "argon2 \<Rightarrow> bool \<Rightarrow> string option \<Rightarrow> (string \<Rightarrow> bool) \<Rightarrow> nat \<Rightarrow> string \<Rightarrow> string \<Rightarrow> string
     \<Rightarrow> ('n, 'q, 'l) global_state \<Rightarrow> ('n, 'q, 'l, string list) handled" where
  "auth_login a permit join_error header_ok now random_id random_csrf password g =
     (if \<not> initialized (app g) then (Inl SERVICE_UNAVAILABLE, g)
      else case admin_password_hash (app g) of
        None \<Rightarrow> (Inl INTERNAL_SERVER_ERROR, g)
      | Some h \<Rightarrow>
          if ADMIN_PASSWORD_MAX_LEN < length password then (Inl UNAUTHORIZED, g)
          else if \<not> verify_password_async a permit join_error password h then (Inl UNAUTHORIZED, g)
          else case create_admin_session now random_id random_csrf (auth_svc g) of
            ((session_id, csrf), svc) \<Rightarrow>
              (if \<forall>c \<in> set (session_cookies session_id csrf). header_ok c
               then Inr (session_cookies session_id csrf) else Inl INTERNAL_SERVER_ERROR,
               g\<lparr>auth_svc := svc\<rparr>))"

section \<open>CSRF\<close>

definition csrf_exempt :: "string \<Rightarrow> bool" where
  "csrf_exempt path \<longleftrightarrow> path \<in> {''/auth/login'', ''/setup'', ''/connector/disconnect''}"

definition safe_method :: "string \<Rightarrow> bool" where
  "safe_method m \<longleftrightarrow> m \<in> {''GET'', ''HEAD'', ''OPTIONS''}"

text \<open>True when the request goes on to its handler; otherwise it is answered 403.\<close>

definition enforce_api_csrf ::
  "(byte list \<Rightarrow> byte list \<Rightarrow> bool) \<Rightarrow> nat \<Rightarrow> string \<Rightarrow> string \<Rightarrow> headers \<Rightarrow> ('n, 'q, 'l) global_state \<Rightarrow> bool" where
  "enforce_api_csrf ct_eq now m path headers g \<longleftrightarrow> safe_method m \<or> csrf_exempt path
     \<or> (case (headers ''x-csrf-token'', session_cookie headers) of
          (Some token, Some sid) \<Rightarrow> validate_admin_csrf ct_eq now sid token (auth_svc g)
        | _ \<Rightarrow> False)"

section \<open>The console\<close>

definition ASSETS :: "(string \<times> string) list" where
  "ASSETS = [(''admin.html'', ''text/html; charset=utf-8''), (''admin.css'', ''text/css''),
     (''app.js'', ''text/javascript''), (''login.html'', ''text/html; charset=utf-8''),
     (''login.js'', ''text/javascript'')]"

definition static_file_name :: "string \<Rightarrow> string" where
  "static_file_name path =
     (let name = (case strip_prefix ''/'' path of Some n \<Rightarrow> n | None \<Rightarrow> path)
      in if name = [] then ''admin.html'' else name)"

definition requires_auth :: "string \<Rightarrow> bool" where
  "requires_auth path \<longleftrightarrow> static_file_name path = ''admin.html''"

text \<open>The file served, its content type and whether it may be cached.\<close>

definition serve_static :: "string \<Rightarrow> status + string \<times> string \<times> bool" where
  "serve_static path =
     (let name = static_file_name path in
      case find (\<lambda>(f, _). f = name) ASSETS of
        None \<Rightarrow> Inl NOT_FOUND | Some (_, mime) \<Rightarrow> Inr (name, mime, \<not> suffix ''.html'' name))"

datatype page = Redirect string | Page "status + string \<times> string \<times> bool"

definition admin_fallback :: "nat \<Rightarrow> headers \<Rightarrow> string \<Rightarrow> ('n, 'q, 'l) global_state \<Rightarrow> page \<times> ('n, 'q, 'l) global_state" where
  "admin_fallback now headers path g =
     (if requires_auth path then
        (case verify_admin now headers g of
           (True, g1) \<Rightarrow> (Page (serve_static path), g1) | (False, g1) \<Rightarrow> (Redirect ''/login.html'', g1))
      else (Page (serve_static path), g))"

section \<open>Start\<close>

text \<open>\<open>run_server\<close> up to the point where the edge takes requests: a context for the stored domain, and
  a route for each enabled resource once the server is set up.\<close>

definition boot :: "'n libs \<Rightarrow> ('q, 'l) governor \<Rightarrow> app_state option \<Rightarrow> app_state \<Rightarrow> ('n, 'q, 'l) global_state" where
  "boot libs gov d st =
     (let c = proxy_context_new gov (domain st) registry_default in
      \<lparr>app = st, disk = d, auth_svc = [],
       proxy_ctx = (if \<not> initialized st \<or> domain st = [] then c
         else foldl (\<lambda>c r. set_resource libs (from_resource libs r) c) c (filter res_enabled (resources st)))\<rparr>)"

text \<open>\<open>set_last_seen\<close>, stamped by the transports.\<close>

definition set_last_seen :: "nat \<Rightarrow> string \<Rightarrow> ('n, 'q, 'l) global_state \<Rightarrow> ('n, 'q, 'l) global_state" where
  "set_last_seen now cid g = (case map_of (connectors (app g)) cid of
     None \<Rightarrow> g
   | Some c \<Rightarrow> g\<lparr>app := (app g)\<lparr>connectors := AList.update cid (c\<lparr>conn_last_seen := Some now\<rparr>) (connectors (app g))\<rparr>\<rparr>)"

section \<open>The invariant\<close>

lemma valid_domain_ascii: "is_valid_domain d \<Longrightarrow> \<forall>c \<in> set d. is_ascii c"
proof
  fix c
  assume "is_valid_domain d" "c \<in> set d"
  then have "c = CHR ''.'' \<or> is_ascii_alphanumeric c \<or> c = CHR ''-''" using host_labels by (auto simp: is_valid_domain_def)
  then show "is_ascii c"
    by (auto simp: is_ascii_def is_ascii_alphanumeric_def is_ascii_digit_def is_ascii_upper_def is_ascii_lower_def byte_of_def)
qed

lemma valid_domain_trim: "is_valid_domain d \<Longrightarrow> trim d = d"
proof (rule trim_printable, intro ballI)
  fix c
  assume "is_valid_domain d" "c \<in> set d"
  then have "c = CHR ''.'' \<or> is_ascii_alphanumeric c \<or> c = CHR ''-''" using host_labels by (auto simp: is_valid_domain_def)
  then show "printable c"
    by (auto simp: printable_def is_ascii_alphanumeric_def is_ascii_digit_def is_ascii_upper_def is_ascii_lower_def byte_of_def)
qed

lemma normalize_idem: "is_valid_domain (normalize_domain d) \<Longrightarrow> normalize_domain (normalize_domain d) = normalize_domain d"
  using valid_domain_trim [of "normalize_domain d"] by (simp add: normalize_domain_def)

lemma setup_check_ok:
  "setup_check a j req s = Inr (d, h) \<Longrightarrow> is_valid_domain d \<and> normalize_domain d = d"
  using normalize_idem by (auto simp: setup_check_def Let_def split: if_splits sum.splits)

lemma setup_locked_ok:
  assumes ok: "global_ok libs g" and c: "setup_check a j req s = Inr checked"
    and res: "setup_locked out secret req checked g = (res, g')"
  shows "global_ok libs g'"
proof (cases "initialized (app g)")
  case True
  then show ?thesis using ok res by (simp add: setup_locked_def split: prod.splits)
next
  case False
  obtain d h where ch: "checked = (d, h)" by (cases checked)
  let ?st = "(app g)\<lparr>domain := d, admin_password_hash := Some h,
    config := \<lparr>cf_api_token = (case sr_cf_api_token req of Some t \<Rightarrow> t | None \<Rightarrow> []), obfuscation_secret = secret\<rparr>,
    initialized := True\<rparr>"
  have st: "state_ok ?st"
    using global_okD(1) [OF ok] setup_check_ok [OF c [unfolded ch]] False by (simp add: state_ok_def)
  obtain b g2 where sv: "save_state out (g\<lparr>app := ?st\<rparr>) = (b, g2)" by fastforce
  have "g' = g2" using res False sv ch by (cases b) (simp_all add: setup_locked_def Let_def)
  then show ?thesis using save_changed_ok [OF ok sv st] by simp
qed

lemma foldl_routed:
  assumes "ascii_domain c" and "distinct (map subdomain rs)" and "\<forall>r \<in> set rs. resource_ok r \<and> res_enabled r"
    and "routed libs R c" and "\<And>r x. r \<in> set rs \<Longrightarrow> x \<in> R \<Longrightarrow> resource_ok x \<and> subdomain x \<noteq> subdomain r"
  shows "routed libs (set rs \<union> R) (foldl (\<lambda>c r. set_resource libs (from_resource libs r) c) c rs)
    \<and> ctx_domain (foldl (\<lambda>c r. set_resource libs (from_resource libs r) c) c rs) = ctx_domain c"
  using assms
proof (induction rs arbitrary: c R)
  case (Cons r rs)
  let ?c = "set_resource libs (from_resource libs r) c"
  have "fqdn libs c (subdomain x) \<noteq> fqdn libs c (subdomain r)" if "x \<in> R" for x
    using Cons.prems(3,5) fqdn_inj [of x r c libs] Cons.prems(1) that by auto
  then have "routed libs (insert r R) ?c"
    using routed_publish [OF Cons.prems(4), of r] Cons.prems(3) by simp
  then have "routed libs (set rs \<union> insert r R) (foldl (\<lambda>c r. set_resource libs (from_resource libs r) c) ?c rs)
    \<and> ctx_domain (foldl (\<lambda>c r. set_resource libs (from_resource libs r) c) ?c rs) = ctx_domain ?c"
    using Cons.prems by (intro Cons.IH) auto
  then show ?case by simp
qed simp

lemma boot_ok:
  assumes st: "state_ok st" and d: "\<forall>x. d = Some x \<longrightarrow> state_ok x"
  shows "global_ok libs (boot libs gov d st)"
proof -
  let ?c = "proxy_context_new gov (domain st) registry_default :: ('a, 'b, 'c) proxy_context"
  have "normalize_domain [] = []" using trim_printable [of "[]"] by (simp add: normalize_domain_def)
  then have dom: "ctx_domain ?c = domain st"
    using st by (auto simp: proxy_context_new_def state_ok_def split: if_splits)
  have asc: "ascii_domain ?c"
    using st valid_domain_ascii by (auto simp: ascii_domain_def dom state_ok_def split: if_splits)
  have empty: "routed libs {} ?c" by (simp add: routed_def proxy_context_new_def)
  show ?thesis
  proof (cases "initialized st \<and> domain st \<noteq> []")
    case True
    let ?en = "filter res_enabled (resources st)"
    have "routed libs (set ?en \<union> {}) (foldl (\<lambda>c r. set_resource libs (from_resource libs r) c) ?c ?en)
      \<and> ctx_domain (foldl (\<lambda>c r. set_resource libs (from_resource libs r) c) ?c ?en) = ctx_domain ?c"
      using st by (intro foldl_routed [OF asc _ _ empty]) (auto simp: state_ok_def distinct_map_filter)
    then show ?thesis
      using True st d asc by (auto simp: global_ok_def boot_def Let_def routed_def ascii_domain_def)
  next
    case False
    then have "resources st = []" using st by (auto simp: state_ok_def is_valid_domain_def split: if_splits)
    then show ?thesis using False st d asc empty by (auto simp: global_ok_def boot_def Let_def)
  qed
qed

lemma set_last_seen_ok: "global_ok libs g \<Longrightarrow> global_ok libs (set_last_seen now cid g)"
proof (cases "map_of (connectors (app g)) cid")
  case (Some c)
  assume ok: "global_ok libs g"
  have "conn_id c = cid" using global_okD(1) [OF ok] Some by (simp add: state_ok_def)
  then have "state_ok ((app g)\<lparr>connectors := AList.update cid (c\<lparr>conn_last_seen := Some now\<rparr>) (connectors (app g))\<rparr>)"
    by (intro state_ok_put [OF global_okD(1) [OF ok]]) simp
  then show ?thesis using ok Some by (simp add: set_last_seen_def global_ok_def)
qed (simp add: set_last_seen_def)

end
