(* ===== verification/Api_Runs.thy ===== *)
theory Api_Runs
  imports Admin_Api
begin

text \<open>
  Whole runs of the API: its locked sections in any order, interleaved with logins, traffic and
  connector sessions, with saves that fail and a server that stops at any point and starts again
  from its state file.
\<close>

declare map_of_eq_Some_iff [simp del] and Some_eq_map_of_iff [simp del]

datatype api_event = Create_resource | Update_resource string | Delete_resource string
  | Create_connector | Update_connector string | Delete_connector string | Rotate_token string
  | Setup | Sessions_changed | Edge_changed | Stamp string | Restart

text \<open>An update is prepared on a state read earlier; ids are drawn at random and do not repeat. A
  request that passed its admin check finds the server initialized, which it stays.\<close>

inductive api_step :: "'n libs \<Rightarrow> ('q, 'l) governor \<Rightarrow> ('n, 'q, 'l) global_state \<Rightarrow> api_event
    \<Rightarrow> ('n, 'q, 'l) global_state \<Rightarrow> bool" for libs gov where
  create: "initialized (app g) \<Longrightarrow> create_check libs dns req = Inr checked \<Longrightarrow>
    random \<notin> res_id ` set (resources (app g)) \<Longrightarrow>
    create_locked libs random out (cr_target req) checked g = (res, g') \<Longrightarrow> api_step libs gov g Create_resource g'"
| update: "state_ok earlier \<Longrightarrow> update_prepare libs dns i req earlier = Inr r \<Longrightarrow>
    update_commit libs out i r g = (res, g') \<Longrightarrow> api_step libs gov g (Update_resource i) g'"
| delete: "delete_locked libs out i g = (res, g') \<Longrightarrow> api_step libs gov g (Delete_resource i) g'"
| new_connector: "new_id \<notin> keys (connectors (app g)) \<Longrightarrow> connector_name_ok libs name \<Longrightarrow>
    create_connector_locked libs repo version new_id token out name g = (res, g') \<Longrightarrow>
    api_step libs gov g Create_connector g'"
| change_connector: "update_connector_locked out now cid wss g = (res, g') \<Longrightarrow>
    api_step libs gov g (Update_connector cid) g'"
| drop_connector: "delete_connector_locked out cid g = (res, g') \<Longrightarrow> api_step libs gov g (Delete_connector cid) g'"
| rotate: "regenerate_locked libs repo version token out cid g = (res, g') \<Longrightarrow>
    api_step libs gov g (Rotate_token cid) g'"
| set_up: "setup_check a j req earlier = Inr checked \<Longrightarrow> setup_locked out secret req checked g = (res, g') \<Longrightarrow>
    api_step libs gov g Setup g'"
| sessions: "api_step libs gov g Sessions_changed (g\<lparr>auth_svc := svc\<rparr>)"
| edge: "api_step libs gov g Edge_changed (g\<lparr>proxy_ctx := (proxy_ctx g)\<lparr>dns_cache := dns, limits := lim,
    ctx_connectors := conns\<rparr>\<rparr>)"
| stamp: "api_step libs gov g (Stamp cid) (set_last_seen now cid g)"
| restart: "st = (case disk g of Some d \<Rightarrow> d | None \<Rightarrow> app_state_default) \<Longrightarrow>
    api_step libs gov g Restart (boot libs gov (disk g) (st\<lparr>domain := normalize_domain (domain st)\<rparr>))"

lemma update_prepare_ok:
  assumes "state_ok s" and "update_prepare libs dns i req s = Inr r"
  shows "resource_ok r \<and> res_id r = i \<and> validate_target libs dns (res_target r) (res_connector r) = Inr ()"
proof -
  obtain cur cidrs where cur: "find (\<lambda>r. res_id r = i) (resources s) = Some cur"
    and r: "r = merge_update req (map_option normalize_subdomain (ur_subdomain req)) cidrs cur"
    and v: "validate_target libs dns (res_target r) (res_connector r) = Inr ()"
    and sub: "(case map_option normalize_subdomain (ur_subdomain req) of Some d \<Rightarrow> validate_subdomain d | None \<Rightarrow> Inr ()) = Inr ()"
    using assms(2) by (auto simp: update_prepare_def Let_def and_then_eq_Inr ok_or_eq_Inr)
  have c: "resource_ok cur" "res_id cur = i" using find_Some_sat [OF cur] assms(1) by (auto simp: state_ok_def)
  then have "resource_ok r"
    using sub validate_subdomain_ok normalize_subdomain_lower
    by (cases "ur_subdomain req") (auto simp: r merge_update_def resource_ok_def)
  then show ?thesis using v c(2) by (simp add: r merge_update_def)
qed

lemma state_ok_default: "state_ok app_state_default"
  by (simp add: state_ok_def app_state_default_def)

lemma state_ok_normalized: "state_ok st \<Longrightarrow> st\<lparr>domain := normalize_domain (domain st)\<rparr> = st"
proof -
  assume "state_ok st"
  moreover have "normalize_domain [] = []" using trim_printable [of "[]"] by (simp add: normalize_domain_def)
  ultimately have "normalize_domain (domain st) = domain st" by (auto simp: state_ok_def split: if_splits)
  then show ?thesis by simp
qed

lemma restart_ok: "global_ok libs g \<Longrightarrow> st = (case disk g of Some d \<Rightarrow> d | None \<Rightarrow> app_state_default) \<Longrightarrow>
    global_ok libs (boot libs gov (disk g) (st\<lparr>domain := normalize_domain (domain st)\<rparr>))"
proof -
  assume ok: "global_ok libs g" and st: "st = (case disk g of Some d \<Rightarrow> d | None \<Rightarrow> app_state_default)"
  have "state_ok st" using global_okD(4) [OF ok] state_ok_default by (auto simp: st split: option.splits)
  then show ?thesis
    using boot_ok [of st "disk g"] global_okD(4) [OF ok] by (simp add: state_ok_normalized)
qed

lemma edge_ok: "global_ok libs (g\<lparr>proxy_ctx := (proxy_ctx g)\<lparr>dns_cache := dns, limits := lim, ctx_connectors := conns\<rparr>\<rparr>)
    = global_ok libs g"
proof -
  let ?c = "(proxy_ctx g)\<lparr>dns_cache := dns, limits := lim, ctx_connectors := conns\<rparr>"
  have "routed libs R ?c = routed libs R (proxy_ctx g)" for R by (rule routed_cong) simp_all
  then show ?thesis by (simp add: global_ok_def ascii_domain_def)
qed

lemma api_step_ok: "global_ok libs g \<Longrightarrow> api_step libs gov g e g' \<Longrightarrow> global_ok libs g'"
proof -
  assume ok: "global_ok libs g" and step: "api_step libs gov g e g'"
  from step show "global_ok libs g'"
  proof cases
    case (create dns req checked random out res)
    obtain sub cid cidrs where ch: "checked = (sub, cid, cidrs)" by (cases checked)
    show ?thesis
      using create_locked_ok [OF ok create(2) _ _ _ create(4) create(5) [unfolded ch]]
        create_check_ok [OF create(3) [unfolded ch]] by blast
  next
    case (update earlier dns i req r out res)
    then show ?thesis using update_commit_ok [OF ok] update_prepare_ok by blast
  next
    case (delete out i res)
    then show ?thesis using delete_locked_ok [OF ok] by blast
  next
    case (new_connector new_id name repo version token out res)
    then show ?thesis using create_connector_ok [OF ok] by blast
  next
    case (change_connector out now cid wss res)
    then show ?thesis using update_connector_ok [OF ok] by blast
  next
    case (drop_connector out cid res)
    then show ?thesis using delete_connector_ok [OF ok] by blast
  next
    case (rotate repo version token out cid res)
    then show ?thesis using regenerate_ok [OF ok] by blast
  next
    case (set_up a j req earlier checked out secret res)
    then show ?thesis using setup_locked_ok [OF ok] by blast
  next
    case (sessions svc)
    then show ?thesis using ok by (simp add: global_ok_def)
  next
    case (edge dns lim conns)
    then show ?thesis using ok by (simp add: edge_ok)
  next
    case (stamp cid now)
    then show ?thesis using set_last_seen_ok [OF ok] by simp
  next
    case (restart st)
    then show ?thesis using restart_ok [OF ok] by simp
  qed
qed

interpretation api_runs: step_invariant "api_step libs gov" "global_ok libs" for libs gov
  by unfold_locales (rule api_step_ok)

lemma first_boot_ok: "global_ok libs (boot libs gov None app_state_default)"
  by (intro boot_ok state_ok_default) simp

text \<open>What the CSRF check establishes of a request that changes something.\<close>

lemma csrf_token_checked:
  assumes "\<And>a b. ct_eq a b \<longleftrightarrow> a = b" and "\<not> safe_method m" and "\<not> csrf_exempt path"
    and "enforce_api_csrf ct_eq now m path headers g"
  shows "\<exists>sid s. session_cookie headers = Some sid \<and> map_of (auth_svc g) sid = Some s
    \<and> \<not> admin_session_expired now s \<and> headers ''x-csrf-token'' = Some (csrf_token s)"
proof -
  have inj: "as_bytes s = as_bytes t \<Longrightarrow> s = t" for s t by (metis of_bytes_as_bytes)
  show ?thesis
    using assms by (auto simp: enforce_api_csrf_def validate_admin_csrf_def constant_time_eq_def
        split: option.splits dest!: inj)
qed

section \<open>A concrete run\<close>

definition demo_argon2 :: argon2 where
  "demo_argon2 = \<lparr>argon2_hash = (\<lambda>_. Inr ''h''), argon2_verify = (\<lambda>_ _. True)\<rparr>"

definition demo_request :: setup_request where
  "demo_request = \<lparr>sr_domain = ''a.b'', sr_password = ''correct horse'', sr_cf_api_token = None\<rparr>"

definition demo_fresh :: "(ip_addr, unit, unit) global_state" where
  "demo_fresh = boot demo_libs demo_gov None app_state_default"

definition demo_up :: "(ip_addr, unit, unit) global_state" where
  "demo_up = snd (setup_locked Saved ''s'' demo_request (''a.b'', ''h'') demo_fresh)"

definition demo_created :: "(ip_addr, unit, unit) global_state" where
  "demo_created = snd (create_locked demo_libs ''r1'' Saved ''http://h'' (''w'', None, []) demo_up)"

lemma demo_domain: "is_valid_domain ''a.b'' \<and> normalize_domain ''a.b'' = ''a.b''"
proof -
  have "is_valid_domain ''a.b''"
    by (simp add: is_valid_domain_def is_valid_host_def is_valid_label_def is_ascii_alphanumeric_def is_ascii_lower_def
        byte_of_def suffix_def Cons_eq_append_conv)
  moreover have "to_ascii_lowercase ''a.b'' = ''a.b''"
    by (simp add: to_ascii_lowercase_def ascii_lower_def is_ascii_upper_def byte_of_def)
  ultimately show ?thesis using valid_domain_trim by (simp add: normalize_domain_def)
qed

lemma demo_up_run: "run (api_step demo_libs demo_gov) (boot demo_libs demo_gov None app_state_default) [Setup] demo_up"
proof -
  have "setup_check demo_argon2 None demo_request app_state_default = Inr (''a.b'', ''h'')"
    using demo_domain by (simp add: setup_check_def demo_request_def app_state_default_def demo_argon2_def
        hash_password_async_def hash_password_def ADMIN_PASSWORD_MIN_LEN_def ADMIN_PASSWORD_MAX_LEN_def)
  then have "api_step demo_libs demo_gov demo_fresh Setup demo_up"
    unfolding demo_up_def by (rule api_step.set_up) (rule prod.collapse [symmetric])
  then show ?thesis unfolding demo_fresh_def by (rule run_single)
qed

lemma demo_up_state: "initialized (app demo_up)" "resources (app demo_up) = []" "connectors (app demo_up) = []"
  by (simp_all add: demo_up_def setup_locked_def demo_fresh_def boot_def app_state_default_def save_state_def persist_def)

lemma demo_created_run:
  "run (api_step demo_libs demo_gov) (boot demo_libs demo_gov None app_state_default) [Setup, Create_resource] demo_created"
proof -
  let ?req = "\<lparr>cr_subdomain = ''w'', cr_target = ''http://h'', cr_connector_id = None, cr_allowed = []\<rparr>"
  let ?dns = "\<lambda>_. Some [(V4 (Ipv4 127 0 0 1), 3000)]"
  have lab: "is_valid_label ''w''"
    by (simp add: is_valid_label_def is_ascii_alphanumeric_def is_ascii_lower_def byte_of_def suffix_def
        Cons_eq_append_conv)
  then have sub: "normalize_subdomain ''w'' = ''w''"
    by (simp add: normalize_subdomain_def label_trim to_ascii_lowercase_def ascii_lower_def is_ascii_upper_def byte_of_def)
  have ip: "parse_ip ''127.0.0.1'' = Some (V4 (Ipv4 127 0 0 1))"
    using parse_show_ip [of "V4 (Ipv4 127 0 0 1)"] by (simp add: show_radix.simps digit_char_def char_of_def bit_Suc_0_iff)
  have "create_check demo_libs ?dns ?req = Inr (''w'', None, [])"
    using lab sub ip
    by (simp add: create_check_def validate_subdomain_def parse_client_cidrs_def parse_allowlist_def
        validate_target_def parse_http_target_host_port_def demo_libs_def normalize_connector_id_def
        check_ssrf_local_def ADMIN_API_PORT_def unbracket_def strip_prefix_def is_local_direct_target_ip_def)
  then have "api_step demo_libs demo_gov demo_up Create_resource demo_created"
    unfolding demo_created_def
    by (rule api_step.create [OF demo_up_state(1), where random = "''r1''" and out = Saved])
      (simp add: demo_up_state, simp add: prod_eq_iff)
  then show ?thesis using run_snoc [OF demo_up_run] by simp
qed

lemma demo_created_state: "resources (app demo_created) = [\<lparr>res_id = ''r1'', subdomain = ''w'', res_target = ''http://h'',
    res_enabled = True, res_connector = None, allowed_client_cidrs = []\<rparr>]"
  by (simp add: demo_created_def create_locked_def subdomain_in_use_def unknown_connector_def demo_up_state
      save_state_def persist_def Let_def)

section \<open>Properties\<close>

text \<open>(C6) The API keeps its state consistent through every run, failed saves, crashes and restarts
  included: ids and subdomains of resources are unique, no resource names a connector that does not
  exist, and the edge routes exactly the enabled resources, each under its own name. The state on
  disk is always one the server can start from.\<close>

theorem api_state_consistent:
  assumes "run (api_step libs gov) (boot libs gov None app_state_default) tr g"
  shows "state_ok (app g) \<and> routed libs (set (resources (app g))) (proxy_ctx g) \<and>
    (\<forall>st. disk g = Some st \<longrightarrow> state_ok st)"
  using api_runs.run_inv [OF assms first_boot_ok] by (simp add: global_ok_def)

theorem api_state_consistent_witness:
  "length (resources (app demo_created)) = 1 \<and> state_ok (app demo_created) \<and>
   routed demo_libs (set (resources (app demo_created))) (proxy_ctx demo_created)"
  using api_state_consistent [OF demo_created_run] by (simp add: demo_created_state)



text \<open>The same for the connectors handlers that report a failure, up to the order in which the
  connectors are iterated.\<close>

theorem failed_connector_change_undone:
  assumes "run (api_step libs gov) (boot libs gov None app_state_default) tr g" and "out \<noteq> Saved_unsynced"
    and "new_id \<notin> keys (connectors (app g))"
    and "create_connector_locked libs repo version new_id token out name g = (Inl e, g') \<or>
         delete_connector_locked out cid g = (Inl e, g') \<or>
         regenerate_locked libs repo version token out cid g = (Inl e, g')"
  shows "same_state (app g) (app g') \<and> proxy_ctx g' = proxy_ctx g \<and> disk g' = disk g"
proof -
  have ok: "global_ok libs g" by (rule api_runs.run_inv [OF assms(1) first_boot_ok])
  have "disk g' = disk g"
    using assms(2,4) by (auto simp: create_connector_locked_def delete_connector_locked_def regenerate_locked_def
        save_state_def persist_def Let_def split: if_splits option.splits save_outcome.splits prod.splits)
  moreover have "same_state (app g) (app g') \<and> proxy_ctx g' = proxy_ctx g"
    using assms(4) create_connector_ok [OF ok assms(3)] delete_connector_ok [OF ok] regenerate_ok [OF ok]
    by (metis same_state_refl)
  ultimately show ?thesis by simp
qed

theorem failed_connector_change_undone_witness:
  "\<exists>g'. delete_connector_locked Saved ''x'' demo_up = (Inl NOT_FOUND, g') \<and> same_state (app demo_up) (app g')"
proof -
  have d: "delete_connector_locked Saved ''x'' demo_up = (Inl NOT_FOUND, demo_up)"
    by (simp add: delete_connector_locked_def demo_up_state)
  then show ?thesis
    using failed_connector_change_undone [OF demo_up_run, of Saved "''y''"] by (auto simp: demo_up_state)
qed

text \<open>When the save fails only after the new state is on disk, the rollback makes memory and disk
  differ: a resource whose deletion was answered with an error is served until the next restart and
  gone afterwards.\<close>

theorem rollback_diverges_from_disk:
  assumes "position (\<lambda>r. res_id r = i) (resources (app g)) = Some idx"
    and "delete_locked libs Saved_unsynced i g = (res, g')"
  shows "res = Inl INTERNAL_SERVER_ERROR \<and> app g' = app g \<and>
    disk g' = Some (stored ((app g)\<lparr>resources := take idx (resources (app g)) @ drop (Suc idx) (resources (app g))\<rparr>))"
proof -
  note idx = position_Some [OF assms(1)]
  let ?rs = "resources (app g)"
  let ?del = "take idx ?rs @ drop (Suc idx) ?rs"
  have "take idx ?del @ ?rs ! idx # drop idx ?del = ?rs"
    using idx by (simp add: min_def id_take_nth_drop [symmetric])
  then show ?thesis
    using assms by (auto simp: delete_locked_def save_state_def persist_def Let_def)
qed

theorem rollback_diverges_from_disk_witness:
  "fst (delete_locked demo_libs Saved_unsynced ''r1'' demo_created) = Inl INTERNAL_SERVER_ERROR \<and>
   length (resources (app (snd (delete_locked demo_libs Saved_unsynced ''r1'' demo_created)))) = 1 \<and>
   map_option resources (disk (snd (delete_locked demo_libs Saved_unsynced ''r1'' demo_created))) = Some []"
proof -
  have pos: "position (\<lambda>r. res_id r = ''r1'') (resources (app demo_created)) = Some 0"
    by (simp add: position_def demo_created_state)
  show ?thesis
    using rollback_diverges_from_disk [OF pos prod.collapse [symmetric]]
    by (simp add: demo_created_state stored_def)
qed

text \<open>A setup whose save fails is answered with an error but leaves the server initialized in
  memory only: every further setup is refused, and a restart forgets it.\<close>

theorem failed_setup_sticks:
  assumes "\<not> initialized (app g)" and "setup_locked Not_saved secret req checked g = (res, g')"
  shows "res = Inl INTERNAL_SERVER_ERROR \<and> initialized (app g') \<and> disk g' = disk g \<and>
    post_setup a j out secret' req' g' = (Inl CONFLICT, g')"
  using assms by (auto simp: setup_locked_def save_state_def persist_def post_setup_def setup_check_def Let_def
      split: prod.splits)

theorem failed_setup_sticks_witness:
  "fst (setup_locked Not_saved ''s'' demo_request (''a.b'', ''h'') demo_fresh) = Inl INTERNAL_SERVER_ERROR \<and>
   initialized (app (snd (setup_locked Not_saved ''s'' demo_request (''a.b'', ''h'') demo_fresh)))"
  using failed_setup_sticks [OF _ prod.collapse [symmetric], of demo_fresh "''s''" demo_request "(''a.b'', ''h'')"]
  by (simp add: demo_fresh_def boot_def app_state_default_def)

text \<open>Nothing behind the admin check happens without a live session of an initialized server:
  every handler answers 401 and leaves the state, the disk, the routes and the connected sessions
  as they were.\<close>

theorem admin_handlers_need_session:
  assumes "\<not> fst (verify_admin now headers g)"
  shows "list_resources now headers g = (Inl UNAUTHORIZED, snd (verify_admin now headers g)) \<and>
    create_resource libs dns random out now headers cr g = (Inl UNAUTHORIZED, snd (verify_admin now headers g)) \<and>
    update_resource libs dns out now headers i ur g = (Inl UNAUTHORIZED, snd (verify_admin now headers g)) \<and>
    delete_resource libs out now headers i g = (Inl UNAUTHORIZED, snd (verify_admin now headers g)) \<and>
    list_connectors now headers g = (Inl UNAUTHORIZED, snd (verify_admin now headers g)) \<and>
    create_connector libs repo version new_id token out now headers name g =
      (Inl UNAUTHORIZED, snd (verify_admin now headers g)) \<and>
    update_connector out now headers cid wss g = (Inl UNAUTHORIZED, snd (verify_admin now headers g)) \<and>
    delete_connector out now headers cid g = (Inl UNAUTHORIZED, snd (verify_admin now headers g)) \<and>
    regenerate_connector_token libs repo version token out now headers cid g =
      (Inl UNAUTHORIZED, snd (verify_admin now headers g)) \<and>
    app (snd (verify_admin now headers g)) = app g \<and> disk (snd (verify_admin now headers g)) = disk g \<and>
    proxy_ctx (snd (verify_admin now headers g)) = proxy_ctx g"
  using verify_admin_keeps [OF prod.collapse [symmetric], of now headers g]
  by (simp add: admin_only_denied [OF assms] list_resources_def create_resource_def update_resource_def delete_resource_def list_connectors_def
      create_connector_def update_connector_def delete_connector_def regenerate_connector_token_def)

theorem admin_handlers_need_session_witness:
  "fst (delete_resource demo_libs Saved 0 (\<lambda>_. None) ''r1'' demo_created) = Inl UNAUTHORIZED"
proof -
  have "\<not> fst (verify_admin 0 (\<lambda>_. None) demo_created)" by (simp add: verify_admin_def session_cookie_def)
  then show ?thesis using admin_handlers_need_session [of 0 "\<lambda>_. None" demo_created] by simp
qed

text \<open>A request that changes something passes the CSRF check only with the token issued for the
  session of its own cookie, still live, unless its path is one of the three that need none.\<close>

theorem csrf_protects_mutations:
  assumes "\<And>a b. ct_eq a b \<longleftrightarrow> a = b" and "\<not> safe_method m" and "\<not> csrf_exempt path"
    and "enforce_api_csrf ct_eq now m path headers g"
  shows "\<exists>sid s. session_cookie headers = Some sid \<and> map_of (auth_svc g) sid = Some s
    \<and> \<not> admin_session_expired now s \<and> headers ''x-csrf-token'' = Some (csrf_token s)"
  by (rule csrf_token_checked [OF assms])

theorem csrf_protects_mutations_witness:
  "\<exists>sid s. session_cookie [''cookie'' \<mapsto> ''__Host-x2rp_session=k'', ''x-csrf-token'' \<mapsto> ''t''] = Some sid \<and>
     map_of [(''k'', \<lparr>csrf_token = ''t'', created_at = 0, last_access = 0\<rparr>)] sid = Some s \<and> csrf_token s = ''t''"
proof -
  let ?h = "[''cookie'' \<mapsto> ''__Host-x2rp_session=k'', ''x-csrf-token'' \<mapsto> ''t'']"
  let ?g = "demo_up\<lparr>auth_svc := [(''k'', \<lparr>csrf_token = ''t'', created_at = 0, last_access = 0\<rparr>)]\<rparr>"
  have "trim ''__Host-x2rp_session=k'' = ''__Host-x2rp_session=k''"
    by (rule trim_printable) (simp add: printable_def byte_of_def)
  then have sid: "session_cookie ?h = Some ''k''"
    by (simp add: session_cookie_def extract_cookie_def ADMIN_SESSION_COOKIE_def)
  have "enforce_api_csrf (=) 0 ''POST'' ''/resources'' ?h ?g"
    using sid by (simp add: enforce_api_csrf_def validate_admin_csrf_def constant_time_eq_def admin_session_expired_def
        elapsed_secs_since_def)
  then show ?thesis
    using csrf_protects_mutations [of "(=)" "''POST''" "''/resources''" 0 ?h ?g]
    by (auto simp: safe_method_def csrf_exempt_def split: if_splits)
qed

end
