(* ===== verification/Edge.thy ===== *)
theory Edge
  imports Global "HOL-Library.Monad_Syntax"
begin

text \<open>
  The HTTPS edge (\<open>Gateway\<close>, \<open>crates/server/src/proxy.rs\<close>) and the headers it sets
  (\<open>crates/server/src/security_headers.rs\<close>): what happens to a request before it is forwarded,
  where it is forwarded to, and what its origin and its client see. The header map of the HTTP
  library is a parameter; Pingora itself, the timeouts of a peer and logging are not modelled.
\<close>

declare map_of_eq_Some_iff [simp del] and Some_eq_map_of_iff [simp del]

section \<open>Header maps\<close>

text \<open>The header map of the HTTP library: the values of a name, in order; removing a name; setting a
  name to one value, which fails on a value that is not \<open>valid\<close>. Names are written in lower case. What
  the edge relies on is \<open>header_laws\<close>.\<close>

record 'h header_ops =
  get_all :: "string \<Rightarrow> 'h \<Rightarrow> string list"
  remove_header :: "string \<Rightarrow> 'h \<Rightarrow> 'h"
  insert_header :: "string \<Rightarrow> string \<Rightarrow> 'h \<Rightarrow> 'h option"
  valid_value :: "string \<Rightarrow> bool"
  no_headers :: 'h

definition header_laws :: "'h header_ops \<Rightarrow> bool" where
  "header_laws H \<longleftrightarrow>
     (\<forall>n. get_all H n (no_headers H) = [])
   \<and> (\<forall>n m hs. get_all H m (remove_header H n hs) = (if m = n then [] else get_all H m hs))
   \<and> (\<forall>n v hs. valid_value H v \<longrightarrow> insert_header H n v hs \<noteq> None)
   \<and> (\<forall>n v hs hs' m. insert_header H n v hs = Some hs' \<longrightarrow>
        get_all H m hs' = (if m = n then [v] else get_all H m hs))
   \<and> (\<forall>n hs. list_all (valid_value H) (get_all H n hs))
   \<and> (\<forall>v. list_all (\<lambda>c. 32 \<le> byte_of c \<and> byte_of c < 127) v \<longrightarrow> valid_value H v)"

definition contains_key :: "'h header_ops \<Rightarrow> string \<Rightarrow> 'h \<Rightarrow> bool" where
  "contains_key H name hs \<longleftrightarrow> get_all H name hs \<noteq> []"

section \<open>Security headers\<close>

definition STANDARD_RESPONSE_HEADERS :: "(string \<times> string) list" where
  "STANDARD_RESPONSE_HEADERS =
     [(''strict-transport-security'', ''max-age=63072000; includeSubDomains''),
      (''x-content-type-options'', ''nosniff''), (''referrer-policy'', ''no-referrer''),
      (''x-frame-options'', ''SAMEORIGIN'')]"

text \<open>One turn of the loop: a failed insertion is ignored.\<close>

definition append_header :: "'h header_ops \<Rightarrow> 'h \<Rightarrow> string \<times> string \<Rightarrow> 'h" where
  "append_header H hs nv = (if contains_key H (fst nv) hs then hs
     else case insert_header H (fst nv) (snd nv) hs of Some hs' \<Rightarrow> hs' | None \<Rightarrow> hs)"

definition append_standard_security_headers :: "'h header_ops \<Rightarrow> 'h \<Rightarrow> 'h" where
  "append_standard_security_headers H hs = foldl (append_header H) hs STANDARD_RESPONSE_HEADERS"

section \<open>Requests\<close>

record request =
  rq_headers :: headers
  rq_path :: string
  rq_peer :: "sockaddr option"

definition request_id_ok :: "string \<Rightarrow> bool" where
  "request_id_ok v \<longleftrightarrow> 1 \<le> length v \<and> length v \<le> 128
     \<and> (\<forall>c \<in> set v. is_ascii_alphanumeric c \<or> c = CHR ''-'' \<or> c = CHR ''_'')"

definition request_id_from_headers :: "string \<Rightarrow> headers \<Rightarrow> string" where
  "request_id_from_headers random headers = (case headers ''x-request-id'' of
     Some v \<Rightarrow> if request_id_ok (trim v) then trim v else random | None \<Rightarrow> random)"

definition client_ip_from_peer :: "sockaddr option \<Rightarrow> string" where
  "client_ip_from_peer peer = (case peer of Some (ip, _) \<Rightarrow> show_ip (to_canonical ip) | None \<Rightarrow> ''unknown'')"

text \<open>Pingora's error, as far as the edge looks at it.\<close>

datatype error_type = HTTPStatus nat | WriteError | ReadError | ConnectionClosed | ConnectError
  | ConnectRefused | InternalError | OtherError

datatype error_source = Upstream | Downstream | Internal | Unset

definition default_fail_status_code :: "error_type \<Rightarrow> error_source \<Rightarrow> nat" where
  "default_fail_status_code ty src = (case ty of
       HTTPStatus code \<Rightarrow> code
     | _ \<Rightarrow> (case src of
         Upstream \<Rightarrow> 502
       | Downstream \<Rightarrow> if ty \<in> {WriteError, ReadError, ConnectionClosed} then 0 else 400
       | Internal \<Rightarrow> 500
       | Unset \<Rightarrow> 500))"

text \<open>An answer of the edge itself (\<open>send_error_response\<close>): headers and body, or none when a header is
  refused. \<open>status_text\<close> is the library's text of a status code.\<close>

definition error_response :: "'h header_ops \<Rightarrow> (nat \<Rightarrow> string) \<Rightarrow> string \<Rightarrow> nat \<Rightarrow> ('h \<times> string) option" where
  "error_response H status_text request_id code =
     (let body = status_text code in do {
        h1 \<leftarrow> insert_header H ''content-type'' ''text/plain; charset=utf-8'' (no_headers H);
        h2 \<leftarrow> insert_header H ''content-length'' (show_nat (length body)) h1;
        h3 \<leftarrow> insert_header H ''connection'' ''close'' h2;
        h4 \<leftarrow> insert_header H ''cache-control'' ''no-store'' h3;
        h5 \<leftarrow> insert_header H ''x-request-id'' request_id h4;
        h6 \<leftarrow> (if code = 429 then insert_header H ''retry-after'' ''60'' h5 else Some h5);
        Some (append_standard_security_headers H h6, body)
      })"

section \<open>Filtering a request\<close>

record 'n request_ctx =
  rc_resource :: "'n proxy_resource option"
  rc_client_ip :: string
  rc_request_id :: string
  rc_relay :: "(nat \<times> string) option"

definition request_ctx_new :: "'n request_ctx" where
  "request_ctx_new = \<lparr>rc_resource = None, rc_client_ip = [], rc_request_id = [], rc_relay = None\<rparr>"

definition admin_resource :: "'n proxy_resource" where
  "admin_resource = \<lparr>pr_subdomain = ADMIN_SUBDOMAIN, pr_target = ADMIN_API_TARGET, pr_connector = None,
     allowed_clients = Some []\<rparr>"

definition request_host :: "request \<Rightarrow> string" where
  "request_host rq = to_ascii_lowercase (case rq_headers rq ''host'' of
     Some h \<Rightarrow> host_header_hostname h | None \<Rightarrow> [])"

definition is_admin_host :: "('n, 'q, 'l) proxy_context \<Rightarrow> string \<Rightarrow> bool" where
  "is_admin_host c host \<longleftrightarrow> strip_prefix ''x2rp.'' host = Some (ctx_domain c)"

definition limit_check ::
  "('q, 'l) governor \<Rightarrow> nat \<Rightarrow> bool \<Rightarrow> string \<Rightarrow> ('q, 'l) rate_limiter \<Rightarrow> bool \<times> ('q, 'l) rate_limiter" where
  "limit_check gov now strict key lim =
     (if strict then (case rate_check gov now key (auth_tier lim) of (ok, t) \<Rightarrow> (ok, lim\<lparr>auth_tier := t\<rparr>))
      else (case rate_check gov now key (general lim) of (ok, t) \<Rightarrow> (ok, lim\<lparr>general := t\<rparr>)))"

definition client_admitted :: "'n libs \<Rightarrow> 'n proxy_resource \<Rightarrow> string \<Rightarrow> bool" where
  "client_admitted libs r client_ip = (case allowed_clients r of
     None \<Rightarrow> False
   | Some nets \<Rightarrow> (case parse_ip client_ip of Some ip \<Rightarrow> admits (lib_net libs) nets ip | None \<Rightarrow> False))"

text \<open>\<open>request_filter\<close>: a status when the edge answers itself, none when the request goes on.\<close>

definition request_filter ::
  "'n libs \<Rightarrow> ('q, 'l) governor \<Rightarrow> nat \<Rightarrow> string \<Rightarrow> request \<Rightarrow> ('n, 'q, 'l) proxy_context
     \<Rightarrow> status option \<times> 'n request_ctx \<times> ('n, 'q, 'l) proxy_context" where
  "request_filter libs gov now random rq c =
     (let client_ip = client_ip_from_peer (rq_peer rq);
          ctx = request_ctx_new\<lparr>rc_request_id := request_id_from_headers random (rq_headers rq),
                                rc_client_ip := client_ip\<rparr>;
          host = request_host rq;
          admin = is_admin_host c host
      in case limit_check gov now (admin \<and> is_auth_sensitive_path (rq_path rq)) (client_key client_ip) (limits c) of
        (False, lim) \<Rightarrow> (Some TOO_MANY_REQUESTS, ctx, c\<lparr>limits := lim\<rparr>)
      | (True, lim) \<Rightarrow>
          let c1 = c\<lparr>limits := lim\<rparr> in
          case (if admin then Some admin_resource else map_of (routes c1) host) of
            None \<Rightarrow> (Some NOT_FOUND, ctx, c1)
          | Some r \<Rightarrow>
              if \<not> client_admitted libs r client_ip then (Some FORBIDDEN, ctx, c1)
              else case pr_connector r of
                None \<Rightarrow> (None, ctx\<lparr>rc_resource := Some r\<rparr>, c1)
              | Some cid \<Rightarrow> (case registry_get cid (ctx_connectors c1) of
                  None \<Rightarrow> (Some SERVICE_UNAVAILABLE, ctx, c1)
                | Some p \<Rightarrow> (None, ctx\<lparr>rc_relay := Some (p, pr_target r), rc_resource := Some r\<rparr>, c1)))"

section \<open>Choosing the peer\<close>

datatype peer = Relay_peer string nat string | Direct_peer sockaddr bool string

definition upstream_peer ::
  "'n libs \<Rightarrow> nat \<Rightarrow> (string \<Rightarrow> sockaddr list option) \<Rightarrow> 'n request_ctx \<Rightarrow> ('n, 'q, 'l) proxy_context
     \<Rightarrow> (error_type + peer) \<times> ('n, 'q, 'l) proxy_context" where
  "upstream_peer libs now lookup ctx c = (case rc_resource ctx of
       None \<Rightarrow> (Inl InternalError, c)
     | Some r \<Rightarrow> (case rc_relay ctx of
         Some (p, tgt) \<Rightarrow> (Inr (Relay_peer (''/x2rp-relay/'' @ pr_subdomain r) p tgt), c)
       | None \<Rightarrow> (case parse_target_url libs (pr_target r) of
           None \<Rightarrow> (Inl ConnectError, c)
         | Some (host, port, tls) \<Rightarrow>
             if \<not> is_admin r \<and> port = ADMIN_API_PORT then (Inl ConnectError, c)
             else (case resolve_host now lookup host port is_local_direct_target_ip c of
               (None, c1) \<Rightarrow> (Inl ConnectError, c1)
             | (Some addr, c1) \<Rightarrow> (Inr (Direct_peer addr tls host), c1)))))"

text \<open>A relay peer is connected by a bridge of the connector's session to the target; a refusal is
  \<open>ConnectRefused\<close>.\<close>

definition relay_connect :: "nat \<Rightarrow> nat \<Rightarrow> string \<Rightarrow> registry \<Rightarrow> (error_type + unit) \<times> registry" where
  "relay_connect t p tgt reg = (case sessions reg p of
       None \<Rightarrow> (Inl ConnectRefused, reg)
     | Some m \<Rightarrow> (case bridge t tgt m of
         (Inl _, m') \<Rightarrow> (Inl ConnectRefused, reg\<lparr>sessions := (sessions reg)(p \<mapsto> m')\<rparr>)
       | (Inr _, m') \<Rightarrow> (Inr (), reg\<lparr>sessions := (sessions reg)(p \<mapsto> m')\<rparr>)))"

section \<open>Headers to the origin and to the client\<close>

definition upstream_request_filter :: "'h header_ops \<Rightarrow> 'n request_ctx \<Rightarrow> 'h \<Rightarrow> 'h option" where
  "upstream_request_filter H ctx hs = do {
     h2 \<leftarrow> insert_header H ''x-forwarded-for'' (rc_client_ip ctx) (remove_header H ''forwarded'' hs);
     h3 \<leftarrow> insert_header H ''x-real-ip'' (rc_client_ip ctx) h2;
     h4 \<leftarrow> insert_header H ''x-forwarded-proto'' ''https'' h3;
     h5 \<leftarrow> (case get_all H ''host'' h4 of h # _ \<Rightarrow> insert_header H ''x-forwarded-host'' h h4 | [] \<Rightarrow> Some h4);
     if rc_relay ctx \<noteq> None \<and> \<not> contains_key H ''upgrade'' h5
     then insert_header H ''connection'' ''close'' h5 else Some h5
   }"

definition upstream_response_filter :: "'h header_ops \<Rightarrow> 'n request_ctx \<Rightarrow> 'h \<Rightarrow> 'h option" where
  "upstream_response_filter H ctx hs =
     insert_header H ''x-request-id'' (rc_request_id ctx) (append_standard_security_headers H hs)"

text \<open>\<open>fail_to_proxy\<close>: the answer to the client, if one is sent, and the code recorded.
  \<open>valid_code\<close> says which codes \<open>StatusCode::from_u16\<close> accepts.\<close>

definition fail_to_proxy ::
  "'h header_ops \<Rightarrow> (nat \<Rightarrow> string) \<Rightarrow> (nat \<Rightarrow> bool) \<Rightarrow> 'n request_ctx \<Rightarrow> error_type \<Rightarrow> error_source
     \<Rightarrow> ('h \<times> string) option \<times> nat" where
  "fail_to_proxy H status_text valid_code ctx ty src =
     (let code = default_fail_status_code ty src in
      (if 0 < code then error_response H status_text (rc_request_id ctx) (if valid_code code then code else 500)
       else None, code))"

section \<open>Lemmas\<close>

lemma to_canonical_idem [simp]: "to_canonical (to_canonical ip) = to_canonical ip"
  by (cases ip) (auto split: option.splits)

lemma admits_canonical [simp]: "admits net nets (to_canonical ip) = admits net nets ip"
  by (simp add: admits_def)

lemma parse_ip_letter:
  assumes "to_digit 16 c = None" and "c \<noteq> CHR '':''"
  shows "parse_ip (c # s) = None"
proof -
  have "to_digit 10 c = None" using assms(1) by (auto simp: to_digit_def Let_def split: if_splits)
  then have no: "read_number r n z b (c # s) = None" if "r \<in> {10, 16}" for r n z b
    using that assms(1) by (auto simp: read_number_def)
  then have v4: "read_ipv4 (c # s) = None" by (simp add: read_ipv4_def read_octet_def read_separator_def)
  then have "read_groups k 0 (c # s) = ([], False, c # s)" for k
    by (cases k) (simp_all add: no read_separator_def)
  with v4 show ?thesis using assms(2) by (simp add: parse_ip_def read_ipv6_def read_given_char_def)
qed

lemma unknown_no_ip: "parse_ip ''unknown'' = None"
  by (rule parse_ip_letter) (simp_all add: to_digit_def byte_of_def)

lemma client_admitted_peer:
  "client_admitted libs r (client_ip_from_peer peer) \<longleftrightarrow> (\<exists>ip port nets. peer = Some (ip, port)
     \<and> allowed_clients r = Some nets \<and> admits (lib_net libs) nets ip)"
  by (cases peer) (auto simp: client_admitted_def client_ip_from_peer_def unknown_no_ip split: option.splits)

lemma limit_check_fst: "limit_check gov now strict key lim = (ok, lim') \<Longrightarrow> ok = fst (limit_check gov now strict key lim)"
  by simp

lemma header_lawsD:
  assumes "header_laws H"
  shows "get_all H n (no_headers H) = []"
    and "get_all H m (remove_header H n hs) = (if m = n then [] else get_all H m hs)"
    and "valid_value H v \<Longrightarrow> \<exists>hs'. insert_header H n v hs = Some hs'"
    and "insert_header H n v hs = Some hs' \<Longrightarrow> get_all H m hs' = (if m = n then [v] else get_all H m hs)"
    and "v \<in> set (get_all H n hs) \<Longrightarrow> valid_value H v"
    and "list_all (\<lambda>c. 32 \<le> byte_of c \<and> byte_of c < 127) v \<Longrightarrow> valid_value H v"
  using assms unfolding header_laws_def by (auto simp: list_all_iff)

lemma insert_valid:
  assumes "header_laws H" and "valid_value H v"
  obtains hs' where "insert_header H n v hs = Some hs'"
    and "\<And>m. get_all H m hs' = (if m = n then [v] else get_all H m hs)"
  using header_lawsD(3,4) [OF assms(1)] assms(2) by metis

lemma append_header_get:
  assumes "header_laws H" and "valid_value H (snd nv)"
  shows "get_all H m (append_header H hs nv)
    = (if m = fst nv \<and> get_all H m hs = [] then [snd nv] else get_all H m hs)"
  by (rule insert_valid [OF assms, of "fst nv" hs]) (auto simp: append_header_def contains_key_def)

lemma append_headers_get:
  assumes "header_laws H" and "distinct (map fst nvs)" and "\<And>nv. nv \<in> set nvs \<Longrightarrow> valid_value H (snd nv)"
  shows "get_all H m (foldl (append_header H) hs nvs)
    = (case map_of nvs m of Some v \<Rightarrow> if get_all H m hs = [] then [v] else get_all H m hs | None \<Rightarrow> get_all H m hs)"
  using assms(2,3)
proof (induction nvs arbitrary: hs)
  case (Cons nv nvs)
  have "map_of nvs (fst nv) = None" using Cons.prems(1) by (simp add: map_of_eq_None_iff)
  moreover have "get_all H m (append_header H hs nv)
      = (if m = fst nv \<and> get_all H m hs = [] then [snd nv] else get_all H m hs)"
    using append_header_get [OF assms(1)] Cons.prems(2) by simp
  ultimately show ?case using Cons by (cases nv) (auto split: option.splits)
qed simp

lemma visible_valid: "header_laws H \<Longrightarrow> (\<And>c. c \<in> set v \<Longrightarrow> 32 \<le> byte_of c \<and> byte_of c < 127) \<Longrightarrow> valid_value H v"
  using header_lawsD(6) by (auto simp: list_all_iff)

lemma standard_valid: "header_laws H \<Longrightarrow> nv \<in> set STANDARD_RESPONSE_HEADERS \<Longrightarrow> valid_value H (snd nv)"
  by (rule visible_valid) (auto simp: STANDARD_RESPONSE_HEADERS_def byte_of_def)

lemma standard_headers_get:
  assumes "header_laws H"
  shows "get_all H m (append_standard_security_headers H hs)
    = (case map_of STANDARD_RESPONSE_HEADERS m of
         Some v \<Rightarrow> if get_all H m hs = [] then [v] else get_all H m hs | None \<Rightarrow> get_all H m hs)"
  unfolding append_standard_security_headers_def
  by (rule append_headers_get [OF assms]) (simp_all add: standard_valid [OF assms], simp add: STANDARD_RESPONSE_HEADERS_def)

lemma standard_names: "(n, v) \<in> set STANDARD_RESPONSE_HEADERS \<Longrightarrow>
    map_of STANDARD_RESPONSE_HEADERS n = Some v \<and> n \<noteq> ''x-request-id''"
  by (auto simp: STANDARD_RESPONSE_HEADERS_def)

lemma digits_visible: "radix \<le> 16 \<Longrightarrow> 2 \<le> radix \<Longrightarrow> c \<in> set (show_radix radix n) \<Longrightarrow> 32 \<le> byte_of c \<and> byte_of c < 127"
proof -
  assume "radix \<le> 16" and "2 \<le> radix" and "c \<in> set (show_radix radix n)"
  then obtain d where "d < radix" "c = digit_char d" using set_show_radix [of radix n] by blast
  then have "d < 16" "c = digit_char d" using \<open>radix \<le> 16\<close> by simp_all
  then show ?thesis by (auto simp: digit_char_def)
qed

lemma request_id_visible: "request_id_ok v \<Longrightarrow> c \<in> set v \<Longrightarrow> 32 \<le> byte_of c \<and> byte_of c < 127"
  by (auto simp: request_id_ok_def is_ascii_alphanumeric_def is_ascii_digit_def is_ascii_upper_def
      is_ascii_lower_def byte_of_def)

lemma request_id_safe: "request_id_ok random \<Longrightarrow> request_id_ok (request_id_from_headers random headers)"
  by (simp add: request_id_from_headers_def split: option.splits)

lemma join_groups_visible: "c \<in> set (join_groups gs) \<Longrightarrow> 32 \<le> byte_of c \<and> byte_of c < 127"
  by (induction gs rule: join_groups.induct) (auto simp: byte_of_def dest: digits_visible [rotated 2])

lemma show_ipv4_visible: "c \<in> set (show_ipv4 a) \<Longrightarrow> 32 \<le> byte_of c \<and> byte_of c < 127"
  by (cases a) (auto simp: byte_of_def dest: digits_visible [rotated 2])

lemma show_ipv6_visible: "c \<in> set (show_ipv6 a) \<Longrightarrow> 32 \<le> byte_of c \<and> byte_of c < 127"
  by (auto simp: show_ipv6_def Let_def byte_of_def split: option.splits prod.splits if_splits
      dest: join_groups_visible show_ipv4_visible)

lemma client_ip_visible: "c \<in> set (client_ip_from_peer peer) \<Longrightarrow> 32 \<le> byte_of c \<and> byte_of c < 127"
proof -
  assume c: "c \<in> set (client_ip_from_peer peer)"
  show ?thesis
  proof (cases peer)
    case None
    with c show ?thesis by (auto simp: client_ip_from_peer_def byte_of_def)
  next
    case (Some a)
    then obtain ip where "c \<in> set (show_ip ip)" using c by (cases a) (auto simp: client_ip_from_peer_def)
    then show ?thesis by (cases ip) (auto dest: show_ipv4_visible show_ipv6_visible)
  qed
qed

lemma request_filter_ids:
  assumes "request_filter libs gov now random rq c = (res, ctx, c')"
  shows "rc_client_ip ctx = client_ip_from_peer (rq_peer rq)
    \<and> rc_request_id ctx = request_id_from_headers random (rq_headers rq)
    \<and> routes c' = routes c \<and> ctx_domain c' = ctx_domain c \<and> dns_cache c' = dns_cache c
    \<and> ctx_connectors c' = ctx_connectors c"
  using assms by (auto simp: request_filter_def Let_def split: prod.splits bool.splits option.splits if_splits)

lemma request_filter_forwards:
  assumes "request_filter libs gov now random rq c = (None, ctx, c')"
  obtains r where "rc_resource ctx = Some r" and "client_admitted libs r (client_ip_from_peer (rq_peer rq))"
    and "if is_admin_host c (request_host rq) then r = admin_resource else map_of (routes c) (request_host rq) = Some r"
    and "rc_relay ctx = (case pr_connector r of None \<Rightarrow> None
      | Some cid \<Rightarrow> map_option (\<lambda>p. (p, pr_target r)) (registry_get cid (ctx_connectors c)))"
    and "pr_connector r = None \<or> rc_relay ctx \<noteq> None"
  using assms by (auto simp: request_filter_def request_ctx_new_def Let_def
      split: prod.splits bool.splits option.splits if_splits)

lemma error_response_sent:
  assumes "header_laws H" and "request_id_ok rid"
  shows "\<exists>hs body. error_response H status_text rid code = Some (hs, body)
    \<and> get_all H ''content-length'' hs = [show_nat (length body)] \<and> get_all H ''connection'' hs = [''close'']
    \<and> get_all H ''cache-control'' hs = [''no-store''] \<and> get_all H ''x-request-id'' hs = [rid]
    \<and> list_all (\<lambda>(n, v). get_all H n hs = [v]) STANDARD_RESPONSE_HEADERS"
proof -
  note laws = header_lawsD [OF assms(1)]
  have v: "valid_value H ''text/plain; charset=utf-8''" "valid_value H (show_nat n)" "valid_value H ''close''"
    "valid_value H ''no-store''" "valid_value H rid" "valid_value H ''60''" for n
    by (rule visible_valid [OF assms(1)],
        auto simp: byte_of_def dest: digits_visible [rotated 2] request_id_visible [OF assms(2)])+
  let ?body = "status_text code"
  obtain h1 where h1: "insert_header H ''content-type'' ''text/plain; charset=utf-8'' (no_headers H) = Some h1"
    using laws(3) [OF v(1)] by blast
  obtain h2 where h2: "insert_header H ''content-length'' (show_nat (length ?body)) h1 = Some h2"
    using laws(3) [OF v(2)] by blast
  obtain h3 where h3: "insert_header H ''connection'' ''close'' h2 = Some h3" using laws(3) [OF v(3)] by blast
  obtain h4 where h4: "insert_header H ''cache-control'' ''no-store'' h3 = Some h4" using laws(3) [OF v(4)] by blast
  obtain h5 where h5: "insert_header H ''x-request-id'' rid h4 = Some h5" using laws(3) [OF v(5)] by blast
  obtain h6 where h6: "(if code = 429 then insert_header H ''retry-after'' ''60'' h5 else Some h5) = Some h6"
    using laws(3) [OF v(6)] by force
  have get: "m \<noteq> ''retry-after'' \<Longrightarrow> get_all H m h6 = (if m = ''x-request-id'' then [rid]
      else if m = ''cache-control'' then [''no-store''] else if m = ''connection'' then [''close'']
      else if m = ''content-length'' then [show_nat (length ?body)]
      else if m = ''content-type'' then [''text/plain; charset=utf-8''] else [])" for m
    using h6 laws(1) laws(4) [OF h1] laws(4) [OF h2] laws(4) [OF h3] laws(4) [OF h4] laws(4) [OF h5]
      laws(4) [of "''retry-after''" "''60''" h5 h6] by (simp split: if_splits)
  have "error_response H status_text rid code = Some (append_standard_security_headers H h6, ?body)"
    using h6 by (simp add: error_response_def Let_def h1 h2 h3 h4 h5)
  then show ?thesis
    by (simp add: standard_headers_get [OF assms(1)], simp add: STANDARD_RESPONSE_HEADERS_def get)
qed

section \<open>A concrete request\<close>

text \<open>Headers as a list, and a request to the admin console.\<close>

definition list_headers :: "(string \<times> string) list header_ops" where
  "list_headers = \<lparr>get_all = (\<lambda>n hs. map snd (filter (\<lambda>h. fst h = n) hs)),
     remove_header = (\<lambda>n. filter (\<lambda>h. fst h \<noteq> n)),
     insert_header = (\<lambda>n v hs. Some (filter (\<lambda>h. fst h \<noteq> n) hs @ [(n, v)])),
     valid_value = (\<lambda>_. True), no_headers = []\<rparr>"

lemma list_headers_laws: "header_laws list_headers"
proof -
  have "filter (\<lambda>h. fst h \<noteq> n \<and> fst h = m) hs = (if m = n then [] else filter (\<lambda>h. fst h = m) hs)"
    for n m and hs :: "(string \<times> string) list"
    by (auto simp: filter_empty_conv intro: filter_cong)
  then show ?thesis by (auto simp: header_laws_def list_headers_def list_all_iff)
qed

definition demo_edge :: "(ip_addr, unit, unit) proxy_context" where
  "demo_edge = \<lparr>routes = [], dns_cache = [], ctx_domain = ''a.b'', limits = rate_limiter_default demo_gov,
     ctx_connectors = registry_default\<rparr>"

definition demo_visit :: request where
  "demo_visit = \<lparr>rq_headers = [''host'' \<mapsto> ''x2rp.a.b''], rq_path = ''/'', rq_peer = Some (V4 (Ipv4 192 0 2 7), 5555)\<rparr>"

definition demo_ctx :: "ip_addr request_ctx" where
  "demo_ctx = \<lparr>rc_resource = Some admin_resource, rc_client_ip = show_ip (V4 (Ipv4 192 0 2 7)), rc_request_id = ''q'',
     rc_relay = None\<rparr>"

lemma demo_visit_forwarded:
  "\<exists>c'. request_filter demo_libs demo_gov 0 ''q'' demo_visit demo_edge = (None, demo_ctx, c')"
proof -
  have host: "request_host demo_visit = ''x2rp.a.b''"
    by (simp add: request_host_def demo_visit_def host_header_hostname_def strip_prefix_def to_ascii_lowercase_def
        ascii_lower_def is_ascii_upper_def byte_of_def)
  have admin: "is_admin_host demo_edge ''x2rp.a.b''" by (simp add: is_admin_host_def demo_edge_def)
  have adm: "client_admitted demo_libs admin_resource (client_ip_from_peer (rq_peer demo_visit))"
    by (simp add: client_admitted_peer admin_resource_def admits_def demo_visit_def)
  have lim: "fst (limit_check demo_gov 0 b k l)" for b k l
    by (auto simp: limit_check_def rate_check_def demo_gov_def Let_def split: prod.splits)
  have rid: "request_id_from_headers ''q'' (rq_headers demo_visit) = ''q''"
    by (simp add: request_id_from_headers_def demo_visit_def)
  let ?ip = "client_ip_from_peer (rq_peer demo_visit)"
  have ip: "show_ip (V4 (Ipv4 192 0 2 7)) = ?ip" by (simp add: client_ip_from_peer_def demo_visit_def)
  obtain l where "limit_check demo_gov 0 (is_auth_sensitive_path (rq_path demo_visit)) (client_key ?ip) (limits demo_edge)
      = (True, l)" using lim by (metis prod.collapse)
  then show ?thesis
    using adm unfolding demo_ctx_def ip
    by (simp add: request_filter_def host admin rid Let_def request_ctx_new_def, simp add: admin_resource_def)
qed

text \<open>A resource of a named origin, whose name has an address of another host and one of this host.\<close>

definition demo_named_libs :: "ip_addr libs" where
  "demo_named_libs = demo_libs\<lparr>parse_uri := (\<lambda>_. Some \<lparr>uri_scheme = Some ''http'', uri_path_query = None,
     uri_host = Some ''h'', uri_port = Some 3000\<rparr>)\<rparr>"

definition demo_dns :: "string \<Rightarrow> sockaddr list option" where
  "demo_dns key = (if key = dns_key ''h'' 3000
     then Some [(V4 (Ipv4 10 0 0 1), 3000), (V4 (Ipv4 127 0 0 1), 3000)] else None)"

definition demo_named_ctx :: "ip_addr request_ctx" where
  "demo_named_ctx = demo_ctx\<lparr>rc_resource := Some (admin_resource\<lparr>pr_subdomain := ''w''\<rparr>)\<rparr>"

lemma demo_dial: "\<exists>c'. upstream_peer demo_named_libs 0 demo_dns demo_named_ctx demo_edge
    = (Inr (Direct_peer (V4 (Ipv4 127 0 0 1), 3000) False ''h''), c')"
proof -
  have ip: "parse_ip ''h'' = None" by (rule parse_ip_letter) (simp_all add: to_digit_def byte_of_def)
  have "parse_target_url demo_named_libs t = Some (''h'', 3000, False)" for t
    by (simp add: parse_target_url_def demo_named_libs_def unbracket_def strip_prefix_def)
  then show ?thesis
    by (simp add: upstream_peer_def demo_named_ctx_def demo_ctx_def resolve_host_def ip demo_edge_def demo_dns_def
        is_local_direct_target_ip_def ADMIN_API_PORT_def Let_def)
qed

section \<open>Properties\<close>


text \<open>(C10) Whatever DNS answers, now or when the cached answer was stored, a resource without a connector is
  dialled on a loopback address of this host only, and only the admin console on the port of the
  admin API.\<close>

theorem direct_peer_local:
  assumes "dns_ok c" and "lookup_ports lookup"
    and "upstream_peer libs now lookup ctx c = (Inr (Direct_peer (ip, port) tls host), c')"
  shows "is_loopback (to_canonical ip) \<and> dns_ok c' \<and>
    (\<exists>r. rc_resource ctx = Some r \<and> (is_admin r \<or> port \<noteq> ADMIN_API_PORT))"
proof -
  obtain r p where r: "rc_resource ctx = Some r" "is_admin r \<or> p \<noteq> ADMIN_API_PORT"
    and res: "resolve_host now lookup host p is_local_direct_target_ip c = (Some (ip, port), c')"
    using assms(3) by (auto simp: upstream_peer_def split: option.splits prod.splits if_splits)
  show ?thesis
    using resolve_host_ok [OF assms(1,2) res] r by (auto simp: is_local_direct_target_ip_def)
qed

theorem direct_peer_local_witness:
  "\<exists>c'. upstream_peer demo_named_libs 0 demo_dns demo_named_ctx demo_edge
      = (Inr (Direct_peer (V4 (Ipv4 127 0 0 1), 3000) False ''h''), c') \<and> dns_ok c'"
proof -
  have ports: "lookup_ports demo_dns" by (auto simp: lookup_ports_def demo_dns_def dest: dns_key_inj split: if_splits)
  have "dns_ok demo_edge" by (simp add: dns_ok_def demo_edge_def)
  moreover obtain c' where "upstream_peer demo_named_libs 0 demo_dns demo_named_ctx demo_edge
      = (Inr (Direct_peer (V4 (Ipv4 127 0 0 1), 3000) False ''h''), c')" using demo_dial by blast
  ultimately show ?thesis using direct_peer_local [OF _ ports] by blast
qed

text \<open>(C22) What an origin is told about the client cannot be forged: the forwarding headers of the request
  are removed or replaced by the address of the connection, the scheme and the routed host. Every
  other header but \<open>Connection\<close> passes unchanged.\<close>

theorem forwarding_headers_replaced:
  assumes "header_laws H" and "request_filter libs gov now random rq c = (None, ctx, c')"
  shows "\<exists>hs'. upstream_request_filter H ctx hs = Some hs' \<and> get_all H ''forwarded'' hs' = []
    \<and> get_all H ''x-forwarded-for'' hs' = [client_ip_from_peer (rq_peer rq)]
    \<and> get_all H ''x-real-ip'' hs' = [client_ip_from_peer (rq_peer rq)]
    \<and> get_all H ''x-forwarded-proto'' hs' = [''https'']
    \<and> (case get_all H ''host'' hs of h # _ \<Rightarrow> get_all H ''x-forwarded-host'' hs' = [h] | [] \<Rightarrow> True)
    \<and> (\<forall>n. n \<in> {''forwarded'', ''x-forwarded-for'', ''x-real-ip'', ''x-forwarded-proto'',
         ''x-forwarded-host'', ''connection''} \<or> get_all H n hs' = get_all H n hs)"
proof -
  note laws = header_lawsD [OF assms(1)]
  have ip: "rc_client_ip ctx = client_ip_from_peer (rq_peer rq)" using request_filter_ids [OF assms(2)] by simp
  have v: "valid_value H (rc_client_ip ctx)" "valid_value H ''https''" "valid_value H ''close''"
    unfolding ip by (rule visible_valid [OF assms(1)], auto simp: byte_of_def dest: client_ip_visible)+
  obtain h2 where h2: "insert_header H ''x-forwarded-for'' (rc_client_ip ctx) (remove_header H ''forwarded'' hs) = Some h2"
    using laws(3) [OF v(1)] by blast
  obtain h3 where h3: "insert_header H ''x-real-ip'' (rc_client_ip ctx) h2 = Some h3" using laws(3) [OF v(1)] by blast
  obtain h4 where h4: "insert_header H ''x-forwarded-proto'' ''https'' h3 = Some h4" using laws(3) [OF v(2)] by blast
  have hv: "get_all H ''host'' h4 = h # t \<Longrightarrow> valid_value H h" for h t using laws(5) [of h "''host''" h4] by simp
  obtain h5 where h5: "(case get_all H ''host'' h4 of h # _ \<Rightarrow> insert_header H ''x-forwarded-host'' h h4 | [] \<Rightarrow> Some h4) = Some h5"
    using laws(3) hv by (cases "get_all H ''host'' h4") force+
  obtain h6 where h6: "(if rc_relay ctx \<noteq> None \<and> \<not> contains_key H ''upgrade'' h5
      then insert_header H ''connection'' ''close'' h5 else Some h5) = Some h6"
    using laws(3) [OF v(3)] by force
  have up: "upstream_request_filter H ctx hs = Some h6" using h6 by (simp add: upstream_request_filter_def h2 h3 h4 h5)
  have g4: "get_all H m h4 = (if m = ''x-forwarded-proto'' then [''https'']
      else if m = ''x-real-ip'' \<or> m = ''x-forwarded-for'' then [rc_client_ip ctx]
      else if m = ''forwarded'' then [] else get_all H m hs)" for m
    using laws(4) [OF h2] laws(4) [OF h3] laws(4) [OF h4] laws(2) by simp
  have g5: "get_all H m h5 = (if m = ''x-forwarded-host'' \<and> get_all H ''host'' h4 \<noteq> []
      then [hd (get_all H ''host'' h4)] else get_all H m h4)" for m
    using h5 laws(4) by (cases "get_all H ''host'' h4") auto
  have g6: "m \<noteq> ''connection'' \<Longrightarrow> get_all H m h6 = get_all H m h5" for m
    using h6 laws(4) [of "''connection''" "''close''" h5 h6 m] by (auto split: if_splits)
  have "n \<in> {''forwarded'', ''x-forwarded-for'', ''x-real-ip'', ''x-forwarded-proto'', ''x-forwarded-host'',
      ''connection''} \<or> get_all H n h6 = get_all H n hs" for n
    by (cases "n = ''connection''") (simp_all add: g6 g5 g4)
  then show ?thesis by (intro exI [of _ h6]) (simp add: up g6 g5 g4 ip split: list.splits)
qed

theorem forwarding_headers_replaced_witness:
  "\<exists>hs'. upstream_request_filter list_headers demo_ctx
      [(''host'', ''x2rp.a.b''), (''x-forwarded-for'', ''10.0.0.1''), (''forwarded'', ''for=10.0.0.1'')] = Some hs'
    \<and> get_all list_headers ''x-forwarded-for'' hs' = [client_ip_from_peer (rq_peer demo_visit)]"
proof -
  obtain c' where "request_filter demo_libs demo_gov 0 ''q'' demo_visit demo_edge = (None, demo_ctx, c')"
    using demo_visit_forwarded by blast
  from forwarding_headers_replaced [OF list_headers_laws this] show ?thesis by blast
qed

text \<open>Every answer of an origin leaves the edge with the four standard security headers. One the origin set
  itself is kept, and no other header changes.\<close>

theorem responses_hardened:
  assumes "header_laws H" and "upstream_response_filter H ctx hs = Some hs'"
  shows "get_all H ''x-request-id'' hs' = [rc_request_id ctx] \<and>
    list_all (\<lambda>(n, v). get_all H n hs' = (if get_all H n hs = [] then [v] else get_all H n hs)) STANDARD_RESPONSE_HEADERS
    \<and> (\<forall>n. n = ''x-request-id'' \<or> n \<in> fst ` set STANDARD_RESPONSE_HEADERS \<or> get_all H n hs' = get_all H n hs)"
proof -
  have get: "get_all H m hs' = (if m = ''x-request-id'' then [rc_request_id ctx]
      else get_all H m (append_standard_security_headers H hs))" for m
    using header_lawsD(4) [OF assms(1)] assms(2) unfolding upstream_response_filter_def by simp
  have "list_all (\<lambda>(n, v). get_all H n hs' = (if get_all H n hs = [] then [v] else get_all H n hs)) STANDARD_RESPONSE_HEADERS"
    using standard_names by (auto simp: list_all_iff get standard_headers_get [OF assms(1)])
  moreover have "n = ''x-request-id'' \<or> n \<in> fst ` set STANDARD_RESPONSE_HEADERS \<or> get_all H n hs' = get_all H n hs" for n
    using map_of_eq_None_iff [of STANDARD_RESPONSE_HEADERS n]
    by (cases "map_of STANDARD_RESPONSE_HEADERS n") (simp_all add: get standard_headers_get [OF assms(1)])
  ultimately show ?thesis using get by simp
qed

theorem responses_hardened_witness:
  "\<exists>hs'. upstream_response_filter list_headers demo_ctx [(''x-frame-options'', ''DENY'')] = Some hs'
    \<and> get_all list_headers ''x-request-id'' hs' = [''q'']"
proof -
  obtain hs' where "upstream_response_filter list_headers demo_ctx [(''x-frame-options'', ''DENY'')] = Some hs'"
    by (simp add: upstream_response_filter_def list_headers_def)
  with responses_hardened [OF list_headers_laws this] show ?thesis by (simp add: demo_ctx_def)
qed

text \<open>The brackets of an IPv6 literal are taken off any host, and what follows them is ignored: a host
  wrapped in brackets and followed by any bytes of the client's choice is routed as that host, the
  admin console included.\<close>

theorem bracketed_host_routed:
  assumes "CHR '']'' \<notin> set h" and "rq_headers rq ''host'' = Some (''['' @ h @ '']'' @ junk)"
  shows "request_host rq = to_ascii_lowercase h"
  using assms by (simp add: request_host_def host_header_hostname_def strip_prefix_def split_on_append)

theorem bracketed_host_routed_witness:
  "request_host (demo_visit\<lparr>rq_headers := [''host'' \<mapsto> ''[x2rp.a.b] .evil'']\<rparr>) = to_ascii_lowercase ''x2rp.a.b''"
  by (rule bracketed_host_routed [of _ _ "'' .evil''"]) simp_all

text \<open>Forwarding that fails is always answered unless the client is gone: for every other error the edge
  sends an answer of its own, whose length is that of its body, that is not stored, closes the
  connection, carries the request's id and the security headers.\<close>

theorem failures_answered:
  assumes "header_laws H" and "request_id_ok random"
    and "request_filter libs gov now random rq c = (None, ctx, c')"
    and "0 < default_fail_status_code ty src"
  shows "\<exists>hs body. fst (fail_to_proxy H status_text valid_code ctx ty src) = Some (hs, body)
    \<and> get_all H ''content-length'' hs = [show_nat (length body)] \<and> get_all H ''connection'' hs = [''close'']
    \<and> get_all H ''cache-control'' hs = [''no-store''] \<and> get_all H ''x-request-id'' hs = [rc_request_id ctx]
    \<and> list_all (\<lambda>(n, v). get_all H n hs = [v]) STANDARD_RESPONSE_HEADERS"
proof -
  have "request_id_ok (rc_request_id ctx)" using request_filter_ids [OF assms(3)] request_id_safe [OF assms(2)] by simp
  then obtain hs body where "error_response H status_text (rc_request_id ctx)
      (if valid_code (default_fail_status_code ty src) then default_fail_status_code ty src else 500) = Some (hs, body)"
    and "get_all H ''content-length'' hs = [show_nat (length body)]" "get_all H ''connection'' hs = [''close'']"
      "get_all H ''cache-control'' hs = [''no-store'']" "get_all H ''x-request-id'' hs = [rc_request_id ctx]"
      "list_all (\<lambda>(n, v). get_all H n hs = [v]) STANDARD_RESPONSE_HEADERS"
    using error_response_sent [OF assms(1), of "rc_request_id ctx" status_text
      "if valid_code (default_fail_status_code ty src) then default_fail_status_code ty src else 500"] by blast
  then show ?thesis using assms(4) by (simp add: fail_to_proxy_def Let_def)
qed

theorem failures_answered_witness:
  "\<exists>hs body. fst (fail_to_proxy list_headers (\<lambda>_. ''502 Bad Gateway'') (\<lambda>_. True) demo_ctx ConnectRefused Upstream)
     = Some (hs, body) \<and> get_all list_headers ''connection'' hs = [''close'']"
proof -
  obtain c' where r: "request_filter demo_libs demo_gov 0 ''q'' demo_visit demo_edge = (None, demo_ctx, c')"
    using demo_visit_forwarded by blast
  have "request_id_ok ''q''"
    by (simp add: request_id_ok_def is_ascii_alphanumeric_def is_ascii_lower_def byte_of_def)
  moreover have "0 < default_fail_status_code ConnectRefused Upstream" by (simp add: default_fail_status_code_def)
  ultimately show ?thesis using failures_answered [OF list_headers_laws _ r] by blast
qed

end
