(* ===== verification/Session_Manager.thy ===== *)
theory Session_Manager
  imports Wire Send_Credit Tables
begin

text \<open>
  The connector's side of a WebSocket session, \<open>SessionManager\<close> and \<open>stream_handler\<close> of
  \<open>crates/connector/src/session_manager.rs\<close>. A stream's task is a record \<open>stream_task\<close>; the map
  \<open>backends\<close> holds the task a stream id belongs to. Dropping an entry of the map drops the sender of
  the task's queue and aborts the task, which ends when it next yields; until then it may still
  take steps. \<open>session_step\<close> interleaves the mux loop, the tasks and the end of the session.
\<close>

declare map_of_eq_Some_iff [simp del] and Some_eq_map_of_iff [simp del]

section \<open>State\<close>

datatype stream_phase = Dialing | Answering "string + unit" | Running | Ended

record stream_task =
  k_sid :: u32
  k_target :: string
  k_phase :: stream_phase
  k_queue :: "byte list list"          \<comment> \<open>\<open>request_rx\<close>, oldest first\<close>
  k_open :: bool                       \<comment> \<open>\<open>request_tx\<close> is not dropped\<close>
  k_credit :: int                      \<comment> \<open>\<open>send_credit\<close>\<close>
  k_read :: "byte list option"         \<comment> \<open>read from the backend, waiting for credit\<close>
  k_ready :: "byte list option"        \<comment> \<open>credit taken, being sent\<close>
  k_eof :: bool                        \<comment> \<open>the read loop ended, \<open>Close\<close> being sent\<close>
  k_uploading :: bool
  k_writing :: "byte list option"
  k_drained :: nat                     \<comment> \<open>\<open>drained_since_grant\<close>\<close>
  k_grant :: "nat option"              \<comment> \<open>a grant being sent\<close>
  k_aborted :: bool

record session =
  backends :: "(u32 \<times> nat) list"
  stream_tasks :: "nat \<Rightarrow> stream_task option"
  refusals :: "message list"           \<comment> \<open>refusals whose task has not sent them yet\<close>
  outbound :: "message list"           \<comment> \<open>sent to the server, oldest first\<close>
  outbound_closed :: bool

definition session_new :: session where
  "session_new = \<lparr>backends = [], stream_tasks = (\<lambda>_. None), refusals = [], outbound = [], outbound_closed = False\<rparr>"

definition stream_task_new :: "u32 \<Rightarrow> string \<Rightarrow> stream_task" where
  "stream_task_new sid url = \<lparr>k_sid = sid, k_target = url, k_phase = Dialing, k_queue = [], k_open = True,
     k_credit = int STREAM_RECV_WINDOW, k_read = None, k_ready = None, k_eof = False, k_uploading = True,
     k_writing = None, k_drained = 0, k_grant = None, k_aborted = False\<rparr>"

definition upd_task :: "nat \<Rightarrow> (stream_task \<Rightarrow> stream_task) \<Rightarrow> session \<Rightarrow> session" where
  "upd_task t f s = s\<lparr>stream_tasks := (stream_tasks s)(t := map_option f (stream_tasks s t))\<rparr>"

section \<open>The mux loop\<close>

definition drop_state :: "nat \<Rightarrow> session \<Rightarrow> session" where
  "drop_state t = upd_task t (\<lambda>x. x\<lparr>k_open := False, k_aborted := True\<rparr>)"

definition remove_backend :: "u32 \<Rightarrow> session \<Rightarrow> session" where
  "remove_backend sid s = (case map_of (backends s) sid of
     None \<Rightarrow> s | Some t \<Rightarrow> drop_state t (s\<lparr>backends := AList.delete sid (backends s)\<rparr>))"

definition is_finished :: "session \<Rightarrow> nat \<Rightarrow> bool" where
  "is_finished s t \<longleftrightarrow> (case stream_tasks s t of Some x \<Rightarrow> k_phase x = Ended | None \<Rightarrow> True)"

text \<open>Dropping the entry of a finished task has no effect on it. \<open>t\<close> is the task that is spawned.\<close>

definition handle_connect :: "nat \<Rightarrow> u32 \<Rightarrow> string \<Rightarrow> session \<Rightarrow> session" where
  "handle_connect t sid url s =
     (let s1 = remove_backend sid (s\<lparr>backends := filter (\<lambda>(_, u). \<not> is_finished s u) (backends s)\<rparr>) in
      if MAX_ACTIVE_STREAMS \<le> length (backends s1)
      then s1\<lparr>refusals := refusals s1 @ [ConnectErr sid ''connector overloaded'']\<rparr>
      else s1\<lparr>stream_tasks := (stream_tasks s1)(t \<mapsto> stream_task_new sid url),
              backends := AList.update sid t (backends s1)\<rparr>)"

definition session_message :: "nat \<Rightarrow> message \<Rightarrow> session \<Rightarrow> session" where
  "session_message t msg s = (case msg of
       Connect sid url \<Rightarrow> handle_connect t sid url s
     | Data sid payload \<Rightarrow>
         (case map_of (backends s) sid of
            None \<Rightarrow> s
          | Some u \<Rightarrow> (case stream_tasks s u of
              None \<Rightarrow> s
            | Some x \<Rightarrow>
                if \<not> k_open x then s
                else if is_finished s u then remove_backend sid s
                else upd_task u (\<lambda>x. x\<lparr>k_queue := k_queue x @ [payload]\<rparr>) s))
     | Close sid \<Rightarrow>
         (case map_of (backends s) sid of None \<Rightarrow> s | Some u \<Rightarrow> upd_task u (\<lambda>x. x\<lparr>k_open := False\<rparr>) s)
     | Reset sid \<Rightarrow> remove_backend sid s
     | WindowUpdate sid bytes \<Rightarrow>
         (case map_of (backends s) sid of
            None \<Rightarrow> s
          | Some u \<Rightarrow> upd_task u (\<lambda>x. x\<lparr>k_credit :=
               (case credit_added (int STREAM_RECV_WINDOW) (as_i64 (unat bytes)) (k_credit x) of
                  Some c \<Rightarrow> c | None \<Rightarrow> k_credit x)\<rparr>) s)
     | _ \<Rightarrow> s)"

section \<open>The tasks\<close>

text \<open>The steps of \<open>stream_handler\<close>, one per await point. While it dials, the queue is looked at first.
  A read is not empty and no longer than an allocation can be. \<open>Unsent\<close> is a send that fails,
  which it does once the session is over. The credit is never closed.\<close>

datatype task_event = Skip_data | Abandoned | Dialed "string + unit" | Answer_sent
  | Backend_read "byte list" | Backend_eof | Credit_acquired | Data_sent "byte list" | Close_sent
  | Take_data | Backend_written | Backend_write_failed | Grant_sent u32 | Request_eof | Unsent | Cancelled

definition idle_download :: "stream_task \<Rightarrow> bool" where
  "idle_download x \<longleftrightarrow> k_phase x = Running \<and> k_read x = None \<and> k_ready x = None \<and> \<not> k_eof x"

definition idle_upload :: "stream_task \<Rightarrow> bool" where
  "idle_upload x \<longleftrightarrow> k_phase x = Running \<and> k_uploading x \<and> k_writing x = None \<and> k_grant x = None"

definition backend_written :: "byte list \<Rightarrow> stream_task \<Rightarrow> stream_task" where
  "backend_written data x =
     (let drained = k_drained x + length data in
      if WINDOW_UPDATE_THRESHOLD \<le> drained then x\<lparr>k_writing := None, k_drained := 0, k_grant := Some drained\<rparr>
      else x\<lparr>k_writing := None, k_drained := drained\<rparr>)"

text \<open>The task after the step and what it sends.\<close>

definition stream_handler :: "bool \<Rightarrow> task_event \<Rightarrow> stream_task \<Rightarrow> (stream_task \<times> message list) option" where
  "stream_handler closed e x = (case e of
       Skip_data \<Rightarrow> (case (k_phase x, k_queue x) of
           (Dialing, _ # rest) \<Rightarrow> Some (x\<lparr>k_queue := rest\<rparr>, []) | _ \<Rightarrow> None)
     | Abandoned \<Rightarrow> if k_phase x = Dialing \<and> k_queue x = [] \<and> \<not> k_open x
         then Some (x\<lparr>k_phase := Answering (Inl ''stream abandoned'')\<rparr>, []) else None
     | Dialed r \<Rightarrow> if k_phase x = Dialing \<and> k_queue x = [] \<and> k_open x
         then Some (x\<lparr>k_phase := Answering r\<rparr>, []) else None
     | Answer_sent \<Rightarrow> if closed then None else (case k_phase x of
           Answering (Inr _) \<Rightarrow> Some (x\<lparr>k_phase := Running\<rparr>, [ConnectOk (k_sid x)])
         | Answering (Inl error) \<Rightarrow> Some (x\<lparr>k_phase := Ended\<rparr>, [ConnectErr (k_sid x) error])
         | _ \<Rightarrow> None)
     | Backend_read payload \<Rightarrow> if idle_download x \<and> payload \<noteq> [] \<and> length payload < 2 ^ 63
         then Some (x\<lparr>k_read := Some payload\<rparr>, []) else None
     | Backend_eof \<Rightarrow> if idle_download x then Some (x\<lparr>k_eof := True\<rparr>, []) else None
     | Credit_acquired \<Rightarrow> if k_phase x \<noteq> Running then None else (case k_read x of
           None \<Rightarrow> None
         | Some payload \<Rightarrow> (case credit_taken (as_i64 (length payload)) (k_credit x) of
             None \<Rightarrow> None
           | Some c \<Rightarrow> Some (x\<lparr>k_credit := c, k_read := None, k_ready := Some payload\<rparr>, [])))
     | Data_sent payload \<Rightarrow> if \<not> closed \<and> k_phase x = Running \<and> k_ready x = Some payload
         then Some (x\<lparr>k_ready := None\<rparr>, [Data (k_sid x) payload]) else None
     | Close_sent \<Rightarrow> if \<not> closed \<and> k_phase x = Running \<and> k_eof x
         then Some (x\<lparr>k_phase := Ended\<rparr>, [Close (k_sid x)]) else None
     | Take_data \<Rightarrow> if idle_upload x then (case k_queue x of
           [] \<Rightarrow> None | data # rest \<Rightarrow> Some (x\<lparr>k_queue := rest, k_writing := Some data\<rparr>, [])) else None
     | Backend_written \<Rightarrow> if k_phase x \<noteq> Running then None else (case k_writing x of
           None \<Rightarrow> None | Some data \<Rightarrow> Some (backend_written data x, []))
     | Backend_write_failed \<Rightarrow> if k_phase x = Running \<and> k_writing x \<noteq> None
         then Some (x\<lparr>k_writing := None, k_uploading := False\<rparr>, []) else None
     | Grant_sent bytes \<Rightarrow> if \<not> closed \<and> k_phase x = Running \<and> map_option of_nat (k_grant x) = Some bytes
         then Some (x\<lparr>k_grant := None\<rparr>, [WindowUpdate (k_sid x) bytes]) else None
     | Request_eof \<Rightarrow> if idle_upload x \<and> k_queue x = [] \<and> \<not> k_open x
         then Some (x\<lparr>k_uploading := False\<rparr>, []) else None
     | Unsent \<Rightarrow> if \<not> closed then None
         else if (\<exists>r. k_phase x = Answering r) \<or> k_phase x = Running \<and> (k_ready x \<noteq> None \<or> k_eof x)
         then Some (x\<lparr>k_phase := Ended\<rparr>, [])
         else if k_phase x = Running \<and> k_grant x \<noteq> None then Some (x\<lparr>k_grant := None, k_uploading := False\<rparr>, [])
         else None
     | Cancelled \<Rightarrow> if k_aborted x then Some (x\<lparr>k_phase := Ended\<rparr>, []) else None)"

section \<open>Steps of a session\<close>

datatype session_event = From_server message | Refused | Task nat task_event | Session_end

definition end_session :: "session \<Rightarrow> session" where
  "end_session s = (foldl (\<lambda>s (_, t). drop_state t s) s (backends s))\<lparr>backends := [], outbound_closed := True\<rparr>"

inductive session_step :: "session \<Rightarrow> session_event \<Rightarrow> session \<Rightarrow> bool" where
  message: "\<not> outbound_closed s \<Longrightarrow> stream_tasks s t = None \<Longrightarrow>
    session_step s (From_server msg) (session_message t msg s)"
| refusal: "\<not> outbound_closed s \<Longrightarrow> refusals s = ms @ msg # ms' \<Longrightarrow>
    session_step s Refused (s\<lparr>refusals := ms @ ms', outbound := outbound s @ [msg]\<rparr>)"
| task: "stream_tasks s t = Some x \<Longrightarrow> stream_handler (outbound_closed s) e x = Some (y, msgs) \<Longrightarrow>
    session_step s (Task t e) (s\<lparr>stream_tasks := (stream_tasks s)(t \<mapsto> y), outbound := outbound s @ msgs\<rparr>)"
| finish: "session_step s Session_end (end_session s)"

inductive_cases session_taskE: "session_step s (Task t e) s'"

section \<open>Invariant\<close>

definition backends_ok :: "session \<Rightarrow> bool" where
  "backends_ok s \<longleftrightarrow> distinct_keys (backends s) \<and> length (backends s) \<le> MAX_ACTIVE_STREAMS
     \<and> (\<forall>sid t. map_of (backends s) sid = Some t \<longrightarrow> (\<exists>x. stream_tasks s t = Some x \<and> k_sid x = sid))"

definition credit_ok :: "stream_task \<Rightarrow> bool" where
  "credit_ok x \<longleftrightarrow> 0 \<le> k_credit x \<and> k_credit x \<le> int STREAM_RECV_WINDOW
     \<and> (case k_read x of Some p \<Rightarrow> length p < 2 ^ 63 | None \<Rightarrow> True)"

definition session_inv :: "session \<Rightarrow> bool" where
  "session_inv s \<longleftrightarrow> backends_ok s \<and> (\<forall>t x. stream_tasks s t = Some x \<longrightarrow> credit_ok x)"

lemma upd_task_sel [simp]:
  "backends (upd_task t f s) = backends s" "refusals (upd_task t f s) = refusals s"
  "outbound (upd_task t f s) = outbound s" "outbound_closed (upd_task t f s) = outbound_closed s"
  "stream_tasks (upd_task t f s) = (stream_tasks s)(t := map_option f (stream_tasks s t))"
  by (simp_all add: upd_task_def)

lemma upd_task_inv:
  assumes "session_inv s" and "\<And>x. stream_tasks s t = Some x \<Longrightarrow> k_sid (f x) = k_sid x"
    and "\<And>x. stream_tasks s t = Some x \<Longrightarrow> credit_ok x \<Longrightarrow> credit_ok (f x)"
  shows "session_inv (upd_task t f s)"
proof -
  have "\<exists>y. stream_tasks (upd_task t f s) u = Some y \<and> k_sid y = sid" if "map_of (backends s) sid = Some u" for sid u
  proof -
    obtain x where "stream_tasks s u = Some x" "k_sid x = sid"
      using assms(1) \<open>map_of (backends s) sid = Some u\<close> unfolding session_inv_def backends_ok_def by blast
    then show ?thesis using assms(2) by (cases "u = t") auto
  qed
  moreover have "credit_ok y" if "stream_tasks (upd_task t f s) u = Some y" for u y
    using assms(1,3) that unfolding session_inv_def by (cases "u = t") auto
  ultimately show ?thesis using assms(1) unfolding session_inv_def backends_ok_def by simp
qed

lemma subset_inv:
  assumes "session_inv s" and "distinct_keys bs" and "set bs \<subseteq> set (backends s)" and "length bs \<le> length (backends s)"
  shows "session_inv (s\<lparr>backends := bs\<rparr>)"
proof -
  have "map_of (backends s) sid = Some t" if "map_of bs sid = Some t" for sid t
    using that assms(1,3) map_of_SomeD [OF that]
    by (auto simp: session_inv_def backends_ok_def intro!: map_of_is_SomeI)
  then show ?thesis using assms unfolding session_inv_def backends_ok_def by auto
qed

lemma drop_state_inv: "session_inv s \<Longrightarrow> session_inv (drop_state t s)"
  unfolding drop_state_def by (rule upd_task_inv) (auto simp: credit_ok_def)

lemma remove_backend_inv: "session_inv s \<Longrightarrow> session_inv (remove_backend sid s)"
proof (cases "map_of (backends s) sid")
  case (Some t)
  assume inv: "session_inv s"
  then have "distinct_keys (backends s)" by (simp add: session_inv_def backends_ok_def)
  then have "session_inv (s\<lparr>backends := AList.delete sid (backends s)\<rparr>)"
    using inv by (intro subset_inv) (auto simp: AList.distinct_delete length_delete_le AList.delete_eq)
  then show ?thesis using Some drop_state_inv by (simp add: remove_backend_def)
qed (simp add: remove_backend_def)

lemma remove_backend_gone: "map_of (backends (remove_backend sid s)) sid = None"
  by (auto simp: remove_backend_def drop_state_def map_of_delete split: option.splits)

lemma handle_connect_inv:
  assumes inv: "session_inv s" and fresh: "stream_tasks s t = None"
  shows "session_inv (handle_connect t sid url s)"
proof -
  let ?f = "s\<lparr>backends := filter (\<lambda>(_, u). \<not> is_finished s u) (backends s)\<rparr>"
  have "session_inv ?f" using inv by (intro subset_inv) (auto simp: session_inv_def backends_ok_def)
  then have inv1: "session_inv (remove_backend sid ?f)" by (rule remove_backend_inv)
  define s1 where "s1 = remove_backend sid ?f"
  have gone: "map_of (backends s1) sid = None" by (simp add: s1_def remove_backend_gone)
  have free: "stream_tasks s1 t = None"
    using fresh by (auto simp: s1_def remove_backend_def drop_state_def split: option.splits)
  have ok: "backends_ok s1" "\<forall>t x. stream_tasks s1 t = Some x \<longrightarrow> credit_ok x"
    using inv1 by (simp_all add: session_inv_def s1_def)
  show ?thesis
  proof (cases "MAX_ACTIVE_STREAMS \<le> length (backends s1)")
    case True
    then show ?thesis using ok by (auto simp: handle_connect_def Let_def s1_def [symmetric] session_inv_def backends_ok_def)
  next
    case False
    let ?s = "s1\<lparr>stream_tasks := (stream_tasks s1)(t \<mapsto> stream_task_new sid url), backends := AList.update sid t (backends s1)\<rparr>"
    have "\<exists>x. stream_tasks ?s u = Some x \<and> k_sid x = i" if "map_of (backends ?s) i = Some u" for i u
    proof (cases "i = sid")
      case True
      then show ?thesis using that by (simp add: map_of_update stream_task_new_def)
    next
      case False
      then have "map_of (backends s1) i = Some u" using that by (simp add: map_of_update)
      then obtain x where "stream_tasks s1 u = Some x" "k_sid x = i" using ok(1) unfolding backends_ok_def by blast
      then show ?thesis using free by (cases "u = t") auto
    qed
    moreover have "length (AList.update sid t (backends s1)) = Suc (length (backends s1))"
      using gone in_keys_iff [of sid "backends s1"] by (simp add: length_update)
    moreover have "credit_ok (stream_task_new sid url)" by (simp add: credit_ok_def stream_task_new_def)
    ultimately have "session_inv ?s"
      using ok False by (auto simp: session_inv_def backends_ok_def AList.distinct_update)
    then show ?thesis using False by (simp add: handle_connect_def Let_def s1_def)
  qed
qed

lemma grant_ok:
  assumes "credit_ok x"
  shows "credit_ok (x\<lparr>k_credit := (case credit_added (int STREAM_RECV_WINDOW) (as_i64 (unat (b :: u32))) (k_credit x) of
      Some c \<Rightarrow> c | None \<Rightarrow> k_credit x)\<rparr>)"
    and "(case credit_added (int STREAM_RECV_WINDOW) (as_i64 (unat b)) (k_credit x) of
      Some c \<Rightarrow> c | None \<Rightarrow> k_credit x) \<le> k_credit x + int (unat b)"
  using assms credit_added_bounds [of "int STREAM_RECV_WINDOW" "as_i64 (unat b)" "k_credit x"] as_i64_le [of "unat b"]
  by (force simp: credit_ok_def STREAM_RECV_WINDOW_def i64_max_def split: option.splits)+

lemma session_message_inv:
  assumes inv: "session_inv s" and fresh: "stream_tasks s t = None"
  shows "session_inv (session_message t msg s)"
proof (cases msg)
  case (Connect sid url)
  then show ?thesis using handle_connect_inv [OF assms] by (simp add: session_message_def)
next
  case (Data sid payload)
  have "session_inv (upd_task u (\<lambda>x. x\<lparr>k_queue := k_queue x @ [payload]\<rparr>) s)" for u
    by (rule upd_task_inv [OF inv]) (auto simp: credit_ok_def)
  then show ?thesis using Data inv remove_backend_inv [OF inv] by (auto simp: session_message_def split: option.splits)
next
  case (Close sid)
  have "session_inv (upd_task u (\<lambda>x. x\<lparr>k_open := False\<rparr>) s)" for u
    by (rule upd_task_inv [OF inv]) (auto simp: credit_ok_def)
  then show ?thesis using Close inv by (auto simp: session_message_def split: option.splits)
next
  case (WindowUpdate sid bytes)
  let ?f = "\<lambda>x. x\<lparr>k_credit := (case credit_added (int STREAM_RECV_WINDOW) (as_i64 (unat bytes)) (k_credit x) of
      Some c \<Rightarrow> c | None \<Rightarrow> k_credit x)\<rparr>"
  have "session_inv (upd_task u ?f s)" for u
    by (rule upd_task_inv [OF inv]) (simp_all add: grant_ok(1))
  then show ?thesis using WindowUpdate inv by (auto simp: session_message_def split: option.splits)
qed (use inv remove_backend_inv [OF inv] in \<open>simp_all add: session_message_def\<close>)

text \<open>A task's own step, on its credit and on what it has received.\<close>

definition unsent_download :: "stream_task \<Rightarrow> int" where
  "unsent_download x = k_credit x + (case k_ready x of Some p \<Rightarrow> int (length p) | None \<Rightarrow> 0)"

definition ungranted_upload :: "stream_task \<Rightarrow> int" where
  "ungranted_upload x = int (sum_list (map length (k_queue x)) + (case k_writing x of Some d \<Rightarrow> length d | None \<Rightarrow> 0)
     + k_drained x + (case k_grant x of Some n \<Rightarrow> n | None \<Rightarrow> 0))"

fun task_sent :: "task_event \<Rightarrow> nat" where
  "task_sent (Data_sent p) = length p"
| "task_sent _ = 0"

fun task_granted :: "task_event \<Rightarrow> nat" where
  "task_granted (Grant_sent b) = unat b"
| "task_granted _ = 0"

lemma acquired_credit:
  assumes "credit_ok x" and "k_read x = Some p" and "credit_taken (as_i64 (length p)) (k_credit x) = Some c"
  shows "c = k_credit x - int (length p) \<and> 0 \<le> c"
  using assms credit_taken_bounds [of "int (length p)" "k_credit x" c]
  by (simp add: credit_ok_def STREAM_RECV_WINDOW_def i64_max_def)

lemma acquired_step:
  assumes "credit_ok x" and "stream_handler closed Credit_acquired x = Some (y, msgs)"
  obtains p where "k_read x = Some p" and "int (length p) \<le> k_credit x"
    and "y = x\<lparr>k_credit := k_credit x - int (length p), k_read := None, k_ready := Some p\<rparr>"
proof -
  obtain p c where p: "k_read x = Some p" and c: "credit_taken (as_i64 (length p)) (k_credit x) = Some c"
    and y: "y = x\<lparr>k_credit := c, k_read := None, k_ready := Some p\<rparr>"
    using assms(2) by (auto simp: stream_handler_def split: if_splits option.splits)
  then show ?thesis using acquired_credit [OF assms(1) p c] that by simp
qed

lemma stream_handler_ok:
  assumes "credit_ok x" and "stream_handler closed e x = Some (y, msgs)"
  shows "credit_ok y \<and> k_sid y = k_sid x"
proof (cases "e = Credit_acquired")
  case True
  obtain p where "k_read x = Some p" "int (length p) \<le> k_credit x"
    "y = x\<lparr>k_credit := k_credit x - int (length p), k_read := None, k_ready := Some p\<rparr>"
    by (rule acquired_step [OF assms(1) assms(2) [unfolded True]])
  then show ?thesis using assms(1) by (simp add: credit_ok_def)
next
  case False
  then show ?thesis
    using assms by (auto simp: stream_handler_def credit_ok_def backend_written_def idle_download_def Let_def
        split: task_event.splits if_splits option.splits stream_phase.splits list.splits sum.splits)
qed

lemma stream_handler_download:
  assumes "credit_ok x" and "stream_handler closed e x = Some (y, msgs)"
  shows "unsent_download y \<le> unsent_download x - int (task_sent e)"
proof (cases e)
  case Credit_acquired
  obtain p where "k_read x = Some p" "int (length p) \<le> k_credit x"
    "y = x\<lparr>k_credit := k_credit x - int (length p), k_read := None, k_ready := Some p\<rparr>"
    by (rule acquired_step [OF assms(1) assms(2) [unfolded Credit_acquired]])
  then show ?thesis using Credit_acquired by (simp add: unsent_download_def split: option.splits)
qed (use assms in \<open>auto simp: stream_handler_def unsent_download_def backend_written_def Let_def
        split: if_splits option.splits stream_phase.splits list.splits sum.splits\<close>)

lemma stream_handler_upload:
  assumes "stream_handler closed e x = Some (y, msgs)"
  shows "ungranted_upload y \<le> ungranted_upload x - int (task_granted e)"
proof (cases e)
  case (Grant_sent b)
  then obtain n where "k_grant x = Some n" "b = of_nat n" "y = x\<lparr>k_grant := None\<rparr>"
    using assms by (auto simp: stream_handler_def split: if_splits)
  moreover have "int (unat (of_nat n :: u32)) \<le> int n" by (simp only: of_nat_le_iff unat_of_nat mod_less_eq_dividend)
  ultimately show ?thesis using Grant_sent by (simp add: ungranted_upload_def)
qed (use assms in \<open>auto simp: stream_handler_def ungranted_upload_def backend_written_def idle_upload_def Let_def
        split: if_splits option.splits stream_phase.splits list.splits sum.splits\<close>)

section \<open>One task in a run\<close>

fun granted_to :: "u32 \<Rightarrow> session_event \<Rightarrow> nat" where
  "granted_to sid (From_server (WindowUpdate i bytes)) = (if i = sid then unat bytes else 0)"
| "granted_to sid _ = 0"

fun received_for :: "u32 \<Rightarrow> session_event \<Rightarrow> nat" where
  "received_for sid (From_server (Data i payload)) = (if i = sid then length payload else 0)"
| "received_for sid _ = 0"

fun sent_by :: "nat \<Rightarrow> session_event \<Rightarrow> nat" where
  "sent_by t (Task u e) = (if u = t then task_sent e else 0)"
| "sent_by t _ = 0"

fun granted_by :: "nat \<Rightarrow> session_event \<Rightarrow> nat" where
  "granted_by t (Task u e) = (if u = t then task_granted e else 0)"
| "granted_by t _ = 0"

text \<open>A task as it was, but for its channel and its abortion.\<close>

definition same_task :: "stream_task \<Rightarrow> stream_task \<Rightarrow> bool" where
  "same_task x y \<longleftrightarrow> k_sid y = k_sid x \<and> unsent_download y = unsent_download x
     \<and> ungranted_upload y = ungranted_upload x \<and> (credit_ok x \<longrightarrow> credit_ok y)"

lemma same_task_refl [simp]: "same_task x x"
  by (simp add: same_task_def)

lemma drop_state_task: "stream_tasks s t = Some x \<Longrightarrow> \<exists>y. stream_tasks (drop_state u s) t = Some y \<and> same_task x y"
  by (cases "t = u") (auto simp: drop_state_def same_task_def unsent_download_def ungranted_upload_def credit_ok_def)

lemma remove_backend_task:
  "stream_tasks s t = Some x \<Longrightarrow> \<exists>y. stream_tasks (remove_backend sid s) t = Some y \<and> same_task x y"
  using drop_state_task [of "s\<lparr>backends := AList.delete sid (backends s)\<rparr>" t x]
  by (simp add: remove_backend_def split: option.splits)

lemma handle_connect_task:
  assumes x: "stream_tasks s t = Some x" and fresh: "stream_tasks s u = None"
  shows "\<exists>y. stream_tasks (handle_connect u sid url s) t = Some y \<and> same_task x y"
proof -
  have "u \<noteq> t" using assms by auto
  then show ?thesis
    using remove_backend_task [of "s\<lparr>backends := filter (\<lambda>(_, u). \<not> is_finished s u) (backends s)\<rparr>" t x sid] x
    by (simp add: handle_connect_def Let_def)
qed

lemma end_session_task:
  assumes "stream_tasks s t = Some x"
  shows "\<exists>y. stream_tasks (end_session s) t = Some y \<and> same_task x y"
proof -
  have "\<exists>y. stream_tasks (foldl (\<lambda>s (_ :: u32, t). drop_state t s) s bs) t = Some y \<and> same_task x y"
    if "stream_tasks s t = Some x" for s x bs
    using that
  proof (induction bs arbitrary: s x)
    case (Cons b bs)
    obtain y where y: "stream_tasks (drop_state (snd b) s) t = Some y" "same_task x y"
      using drop_state_task [OF Cons.prems] by blast
    then show ?case using Cons.IH [OF y(1)] by (cases b) (auto simp: same_task_def)
  qed simp
  then show ?thesis using assms by (simp add: end_session_def)
qed

lemma session_message_task:
  assumes inv: "session_inv s" and x: "stream_tasks s t = Some x" and fresh: "stream_tasks s u = None"
  shows "\<exists>y. stream_tasks (session_message u msg s) t = Some y \<and> k_sid y = k_sid x
    \<and> unsent_download y \<le> unsent_download x + int (granted_to (k_sid x) (From_server msg))
    \<and> ungranted_upload y \<le> ungranted_upload x + int (received_for (k_sid x) (From_server msg))"
proof -
  have same: ?thesis if "\<exists>y. stream_tasks (session_message u msg s) t = Some y \<and> same_task x y"
    using that by (auto simp: same_task_def)
  have reg: "k_sid x = sid" if "map_of (backends s) sid = Some t" for sid
    using inv that x unfolding session_inv_def backends_ok_def by force
  have ok: "credit_ok x" using inv x by (simp add: session_inv_def)
  show ?thesis
  proof (cases msg)
    case (Connect sid url)
    then show ?thesis using handle_connect_task [OF x fresh] by (intro same) (simp add: session_message_def)
  next
    case (Data sid payload)
    show ?thesis
    proof (cases "map_of (backends s) sid = Some t")
      case True
      then show ?thesis using Data x reg [OF True] remove_backend_task [OF x, of sid]
        by (auto simp: session_message_def ungranted_upload_def unsent_download_def same_task_def)
    next
      case False
      then show ?thesis using Data x remove_backend_task [OF x, of sid]
        by (intro same) (auto simp: session_message_def split: option.splits)
    qed
  next
    case (WindowUpdate sid bytes)
    then show ?thesis using x reg [of sid] grant_ok(2) [OF ok, of bytes]
      by (cases "map_of (backends s) sid = Some t")
        (auto simp: session_message_def unsent_download_def ungranted_upload_def split: option.splits)
  next
    case (Close sid)
    then show ?thesis using x
      by (intro same) (auto simp: session_message_def same_task_def unsent_download_def ungranted_upload_def credit_ok_def
          split: option.splits)
  next
    case (Reset sid)
    then show ?thesis using remove_backend_task [OF x] by (intro same) (simp add: session_message_def)
  qed (intro same, simp add: session_message_def x)+
qed

lemma end_session_inv: "session_inv s \<Longrightarrow> session_inv (end_session s)"
proof -
  assume inv: "session_inv s"
  have "session_inv (foldl (\<lambda>s (_ :: u32, t). drop_state t s) s bs)" if "session_inv s" for s bs
    using that by (induction bs arbitrary: s) (auto simp: drop_state_inv)
  then have "session_inv (foldl (\<lambda>s (_, t). drop_state t s) s (backends s))" using inv by blast
  then show ?thesis by (simp add: end_session_def session_inv_def backends_ok_def)
qed

lemma session_step_inv: "session_inv s \<Longrightarrow> session_step s e s' \<Longrightarrow> session_inv s'"
proof -
  assume inv: "session_inv s" and "session_step s e s'"
  from this(2) show ?thesis
  proof cases
    case (message t msg)
    then show ?thesis using session_message_inv [OF inv] by simp
  next
    case (refusal ms msg ms')
    then show ?thesis using inv by (simp add: session_inv_def backends_ok_def)
  next
    case (task t x ev y msgs)
    have "credit_ok x" using inv task(3) unfolding session_inv_def by blast
    then have "credit_ok y \<and> k_sid y = k_sid x" by (rule stream_handler_ok [OF _ task(4)])
    then have "session_inv (upd_task t (\<lambda>_. y) s)" using task(3) by (intro upd_task_inv [OF inv]) auto
    then show ?thesis using task by (simp add: session_inv_def backends_ok_def)
  next
    case finish
    then show ?thesis using end_session_inv [OF inv] by simp
  qed
qed

lemma session_step_task:
  assumes inv: "session_inv s" and x: "stream_tasks s t = Some x" and "session_step s e s'"
  shows "\<exists>y. stream_tasks s' t = Some y \<and> k_sid y = k_sid x
    \<and> unsent_download y \<le> unsent_download x + int (granted_to (k_sid x) e) - int (sent_by t e)
    \<and> ungranted_upload y \<le> ungranted_upload x + int (received_for (k_sid x) e) - int (granted_by t e)"
  using assms(3)
proof cases
  case (message u msg)
  then show ?thesis using session_message_task [OF inv x] by simp
next
  case (refusal ms msg ms')
  then show ?thesis using x by simp
next
  case (task u z ev y msgs)
  have z: "credit_ok z" using inv task(3) unfolding session_inv_def by blast
  show ?thesis
    using task x stream_handler_ok [OF z task(4)] stream_handler_download [OF z task(4)] stream_handler_upload [OF task(4)]
    by (cases "u = t") simp_all
next
  case finish
  then show ?thesis using end_session_task [OF x] by (auto simp: same_task_def)
qed

lemma session_new_inv: "session_inv session_new"
  by (simp add: session_inv_def backends_ok_def session_new_def)

interpretation session_runs: step_invariant session_step session_inv
  by unfold_locales (rule session_step_inv)

definition task_in :: "nat \<Rightarrow> u32 \<Rightarrow> session \<Rightarrow> bool" where
  "task_in t sid s \<longleftrightarrow> session_inv s \<and> (\<exists>x. stream_tasks s t = Some x \<and> k_sid x = sid)"

lemma task_in_step: "task_in t sid s \<Longrightarrow> session_step s e s' \<Longrightarrow> task_in t sid s'"
  using session_step_task session_step_inv unfolding task_in_def by blast

definition of_task :: "nat \<Rightarrow> (stream_task \<Rightarrow> int) \<Rightarrow> session \<Rightarrow> int" where
  "of_task t f s = (case stream_tasks s t of Some x \<Rightarrow> f x | None \<Rightarrow> 0)"

lemma task_in_levels:
  assumes "task_in t sid s" and "session_step s e s'"
  shows "of_task t unsent_download s' \<le> of_task t unsent_download s + (int (granted_to sid e) - int (sent_by t e))"
    and "of_task t ungranted_upload s' \<le> of_task t ungranted_upload s + (int (received_for sid e) - int (granted_by t e))"
proof -
  obtain x where inv: "session_inv s" and x: "stream_tasks s t = Some x" "k_sid x = sid"
    using assms(1) unfolding task_in_def by blast
  show "of_task t unsent_download s' \<le> of_task t unsent_download s + (int (granted_to sid e) - int (sent_by t e))"
    and "of_task t ungranted_upload s' \<le> of_task t ungranted_upload s + (int (received_for sid e) - int (granted_by t e))"
    using session_step_task [OF inv x(1) assms(2)] x by (auto simp: of_task_def)
qed

interpretation download_runs: step_budget session_step "task_in t sid" "of_task t unsent_download"
  "\<lambda>e. int (granted_to sid e) - int (sent_by t e)" for t sid
  by unfold_locales (fact task_in_step, fact task_in_levels(1))

interpretation upload_grants: step_budget session_step "task_in t sid" "of_task t ungranted_upload"
  "\<lambda>e. int (received_for sid e) - int (granted_by t e)" for t sid
  by unfold_locales (fact task_in_levels(2))

lemma sum_diff: "sum_list (map (\<lambda>e. int (f e) - int (g e)) tr) = int (sum_list (map f tr)) - int (sum_list (map g tr))"
  by (induction tr) auto

lemma of_new_task:
  "of_task t unsent_download s = int STREAM_RECV_WINDOW \<and> of_task t ungranted_upload s = 0"
  if "stream_tasks s t = Some (stream_task_new sid url)"
  using that by (simp add: of_task_def unsent_download_def ungranted_upload_def stream_task_new_def)

lemma new_task_in: "run session_step session_new tr s \<Longrightarrow> stream_tasks s t = Some (stream_task_new sid url) \<Longrightarrow> task_in t sid s"
  using session_runs.run_inv [OF _ session_new_inv] by (auto simp: task_in_def stream_task_new_def)

lemma grants_bound:
  assumes "run session_step session_new tr0 s0" and "stream_tasks s0 t = Some (stream_task_new sid url)"
    and "run session_step s0 tr s" and "stream_tasks s t = Some x"
  shows "sum_list (map length (k_queue x)) + k_drained x + sum_list (map (granted_by t) tr)
    \<le> sum_list (map (received_for sid) tr)"
proof -
  have "of_task t ungranted_upload s \<le> sum_list (map (\<lambda>e. int (received_for sid e) - int (granted_by t e)) tr)"
    using upload_grants.run_level [OF assms(3) new_task_in [OF assms(1,2)]] of_new_task [OF assms(2)] by simp
  then show ?thesis using assms(4) by (simp add: sum_diff of_task_def ungranted_upload_def)
qed

section \<open>A concrete session\<close>

primrec task_replay :: "task_event list \<Rightarrow> stream_task \<Rightarrow> stream_task option" where
  "task_replay [] x = Some x"
| "task_replay (e # es) x = (case stream_handler False e x of None \<Rightarrow> None | Some (y, _) \<Rightarrow> task_replay es y)"

lemma task_replay_run:
  assumes "task_replay es x = Some y" and "stream_tasks s t = Some x" and "\<not> outbound_closed s"
  shows "\<exists>s'. run session_step s (map (Task t) es) s' \<and> stream_tasks s' t = Some y \<and> \<not> outbound_closed s'
    \<and> backends s' = backends s"
  using assms
proof (induction es arbitrary: x s)
  case (Cons e es)
  then obtain z msgs where z: "stream_handler False e x = Some (z, msgs)" "task_replay es z = Some y"
    by (auto split: option.splits)
  let ?s = "s\<lparr>stream_tasks := (stream_tasks s)(t \<mapsto> z), outbound := outbound s @ msgs\<rparr>"
  have step: "session_step s (Task t e) ?s" using Cons.prems z(1) by (intro session_step.task) simp_all
  obtain s' where "run session_step ?s (map (Task t) es) s'" "stream_tasks s' t = Some y" "\<not> outbound_closed s'"
    "backends s' = backends s"
    using Cons.IH [OF z(2), of ?s] Cons.prems(3) by auto
  then show ?case using run_Cons [of session_step, OF step] by auto
qed auto

definition demo_session :: session where
  "demo_session = session_message 0 (Connect 1 ''u'') session_new"

lemma demo_session_run: "run session_step session_new [From_server (Connect 1 ''u'')] demo_session"
  unfolding demo_session_def by (rule run_single, rule session_step.message) (simp_all add: session_new_def)

lemma demo_session_eq: "demo_session = session_new\<lparr>backends := [(1, 0)], stream_tasks := [0 \<mapsto> stream_task_new 1 ''u'']\<rparr>"
  by (simp add: demo_session_def session_message_def handle_connect_def remove_backend_def session_new_def
      MAX_ACTIVE_STREAMS_def)

section \<open>Properties\<close>

text \<open>(C24) Whatever the server sends, a session never has more than \<open>MAX_ACTIVE_STREAMS\<close> streams, each under its
  own id and with the task that was spawned for it.\<close>

theorem backend_streams_capped:
  assumes "run session_step session_new tr s"
  shows "length (backends s) \<le> 128 \<and> distinct_keys (backends s) \<and>
    (\<forall>sid t. map_of (backends s) sid = Some t \<longrightarrow> (\<exists>x. stream_tasks s t = Some x \<and> k_sid x = sid))"
  using session_runs.run_inv [OF assms session_new_inv]
  by (simp add: session_inv_def backends_ok_def MAX_ACTIVE_STREAMS_def)

theorem backend_streams_capped_witness: "length (backends demo_session) = 1 \<and> length (backends demo_session) \<le> 128"
  using backend_streams_capped [OF demo_session_run] by (simp add: demo_session_eq)

text \<open>A stream never sends the server more data than its receive window and what the server granted to
  the stream since it was opened.\<close>

theorem download_within_credit:
  assumes "run session_step session_new tr0 s0" and "stream_tasks s0 t = Some (stream_task_new sid url)"
    and "run session_step s0 tr s"
  shows "sum_list (map (sent_by t) tr) \<le> STREAM_RECV_WINDOW + sum_list (map (granted_to sid) tr)"
proof -
  have inv: "task_in t sid s0" by (rule new_task_in [OF assms(1,2)])
  have "of_task t unsent_download s \<le> int STREAM_RECV_WINDOW + sum_list (map (\<lambda>e. int (granted_to sid e) - int (sent_by t e)) tr)"
    using download_runs.run_level [OF assms(3) inv] of_new_task [OF assms(2)] by simp
  moreover have "0 \<le> of_task t unsent_download s"
    using download_runs.run_inv [OF assms(3) inv]
    by (auto simp: task_in_def session_inv_def of_task_def credit_ok_def unsent_download_def split: option.splits)
  ultimately show ?thesis by (simp add: sum_diff)
qed

theorem download_within_credit_witness:
  "\<exists>s. run session_step demo_session (map (Task 0) [Dialed (Inr ()), Answer_sent, Backend_read [1, 2], Credit_acquired,
      Data_sent [1, 2]]) s
    \<and> sum_list (map (sent_by 0) (map (Task 0) [Dialed (Inr ()), Answer_sent, Backend_read [1, 2], Credit_acquired,
      Data_sent [1, 2]])) \<le> STREAM_RECV_WINDOW + 0"
proof -
  let ?es = "[Dialed (Inr ()), Answer_sent, Backend_read [1, 2], Credit_acquired, Data_sent [1, 2]]"
  have t: "stream_tasks demo_session 0 = Some (stream_task_new 1 ''u'')" by (simp add: demo_session_eq)
  have "credit_taken 2 (int STREAM_RECV_WINDOW) = Some (int STREAM_RECV_WINDOW - 2)"
    by (simp add: credit_taken_def i64_sub_id STREAM_RECV_WINDOW_def i64_max_def)
  then obtain y where y: "task_replay ?es (stream_task_new 1 ''u'') = Some y"
    by (simp add: stream_handler_def stream_task_new_def idle_download_def)
  have "\<not> outbound_closed demo_session" by (simp add: demo_session_eq session_new_def)
  then obtain s where s: "run session_step demo_session (map (Task 0) ?es) s"
    using task_replay_run [OF y t] by blast
  then show ?thesis using download_within_credit [OF demo_session_run t s] by (intro exI [of _ s]) simp
qed

text \<open>A stream grants the server no more than the data it received, less what it still holds: what is
  queued, being written, or written and not yet granted.\<close>

theorem grants_within_received:
  assumes "run session_step session_new tr0 s0" and "stream_tasks s0 t = Some (stream_task_new sid url)"
    and "run session_step s0 tr s" and "stream_tasks s t = Some x"
  shows "sum_list (map length (k_queue x)) + k_drained x + sum_list (map (granted_by t) tr)
    \<le> sum_list (map (received_for sid) tr)"
  by (rule grants_bound [OF assms])

theorem grants_within_received_witness:
  "\<exists>s x. run session_step demo_session [From_server (Data 1 [5, 6])] s \<and> stream_tasks s 0 = Some x
    \<and> k_queue x = [[5, 6]] \<and> sum_list (map length (k_queue x)) + k_drained x
      + sum_list (map (granted_by 0) [From_server (Data 1 [5, 6])]) \<le> 2"
proof -
  have t: "stream_tasks demo_session 0 = Some (stream_task_new 1 ''u'')" by (simp add: demo_session_eq)
  let ?s = "session_message 1 (Data 1 [5, 6]) demo_session"
  have run: "run session_step demo_session [From_server (Data 1 [5, 6])] ?s"
    by (rule run_single, rule session_step.message) (simp_all add: demo_session_eq session_new_def)
  let ?x = "(stream_task_new 1 ''u'')\<lparr>k_queue := [[5, 6]]\<rparr>"
  have x: "stream_tasks ?s 0 = Some ?x"
    by (simp add: demo_session_eq session_message_def is_finished_def stream_task_new_def)
  have "sum_list (map length (k_queue ?x)) + k_drained ?x + sum_list (map (granted_by 0) [From_server (Data 1 [5, 6])])
      \<le> sum_list (map (received_for 1) [From_server (Data 1 [5, 6])])"
    by (rule grants_within_received [OF demo_session_run t run x])
  then show ?thesis using run x by (intro exI [of _ ?s] exI [of _ ?x]) simp
qed

end
