(* ===== verification/Connector_Client.thy ===== *)
theory Connector_Client
  imports Secure_File Ip_Text
begin

text \<open>
  The connector as a client of the server: its configuration, the loop that keeps it connected
  (\<open>crates/connector/src/main.rs\<close>), and how it finds the server and the backends
  (\<open>crates/connector/src/transport.rs\<close>). JSON, \<open>reqwest::Url\<close>, DNS and the sockets are
  parameters; times are seconds.
\<close>

type_synonym u64 = "64 word"

section \<open>Configuration\<close>

record client_config =
  cc_server :: string
  cc_token :: string

definition contains_any :: "string \<Rightarrow> string \<Rightarrow> bool" where
  "contains_any cs s \<longleftrightarrow> (\<exists>c \<in> set s. c \<in> set cs)"

definition normalize_server_origin :: "string \<Rightarrow> string + string" where
  "normalize_server_origin server =
     (let normalized = trim_end_matches CHR ''/'' (trim server) in
      case strip_prefix ''https://'' normalized of
        Some host \<Rightarrow> if host \<noteq> [] \<and> \<not> contains_any ''/?#@'' host then Inr normalized
          else Inl ''Config error: server must be a bare HTTPS origin (https://host[:port])''
      | None \<Rightarrow> Inl ''Config error: server must be a bare HTTPS origin (https://host[:port])'')"

datatype config_error = Config_missing | Config_unsafe io_error | Config_json string | Config_origin string

definition CONFIG_FILE :: string where
  "CONFIG_FILE = ''/etc/x2rp-connector/config.json''"

definition load_config ::
  "(byte list \<Rightarrow> string + client_config) \<Rightarrow> u32 \<Rightarrow> open_file io_result \<Rightarrow> config_error + client_config" where
  "load_config from_json euid opened =
     (case read_secret_file euid CONFIG_FILE 0x1A0 opened of
        Inl e \<Rightarrow> if fst e = NotFound then Inl Config_missing else Inl (Config_unsafe e)
      | Inr data \<Rightarrow> (case from_json data of
          Inl e \<Rightarrow> Inl (Config_json e)
        | Inr c \<Rightarrow> (case normalize_server_origin (cc_server c) of
            Inl e \<Rightarrow> Inl (Config_origin e) | Inr origin \<Rightarrow> Inr (c\<lparr>cc_server := origin\<rparr>))))"

section \<open>Staying connected\<close>

record transport_config =
  tc_server :: string
  tc_token :: string
  tc_obfuscation_secret :: string
  tc_force_wss :: bool

definition STABLE_SESSION :: nat where
  "STABLE_SESSION = 30"

text \<open>\<open>saturating_sub\<close> and \<open>saturating_add\<close> on \<open>u32\<close>.\<close>

definition u32_saturating_sub :: "u32 \<Rightarrow> u32 \<Rightarrow> u32" where
  "u32_saturating_sub a b = (if a < b then 0 else a - b)"

definition u32_saturating_add :: "u32 \<Rightarrow> u32 \<Rightarrow> u32" where
  "u32_saturating_add a b = (if unat a + unat b < 2 ^ 32 then a + b else - 1)"

definition reconnect_backoff_secs :: "u32 \<Rightarrow> u64" where
  "reconnect_backoff_secs attempt = min (push_bit (unat (min (u32_saturating_sub attempt 1) 5)) 1) 30"

text \<open>What the settings request comes to.\<close>

datatype settings_answer = Rejected | Settings string bool | Unparsed | Not_success | Unreachable

definition apply_settings :: "settings_answer \<Rightarrow> transport_config \<Rightarrow> transport_config" where
  "apply_settings a tc = (case a of
     Settings secret wss \<Rightarrow> tc\<lparr>tc_obfuscation_secret := secret, tc_force_wss := wss\<rparr> | _ \<Rightarrow> tc)"

text \<open>\<open>run_session\<close>: \<open>quic\<close> and \<open>wss\<close> give the result of connecting and, once connected, of the
  session. The transports tried are returned with the result.\<close>

datatype transport_kind = Via_quic | Via_wss

definition run_session ::
  "(transport_config \<Rightarrow> (unit io_result) io_result) \<Rightarrow> (transport_config \<Rightarrow> (unit io_result) io_result)
     \<Rightarrow> transport_config \<Rightarrow> unit io_result \<times> transport_kind list" where
  "run_session quic wss tc =
     (let via_wss = (case wss tc of Inl e \<Rightarrow> Inl e | Inr r \<Rightarrow> r) in
      if tc_force_wss tc \<or> tc_obfuscation_secret tc = [] then (via_wss, [Via_wss])
      else case quic tc of
        Inr r \<Rightarrow> (r, [Via_quic]) | Inl _ \<Rightarrow> (via_wss, [Via_quic, Via_wss]))"

text \<open>\<open>reconnect_loop\<close>, one entry per turn: the settings answer and how long the session lasted. The
  loop stops at a rejection, the only answer that stops it; otherwise it goes on with the
  next turn. The waits between the turns are returned, and the state when the turns run out.\<close>

datatype loop_end = Stopped | Going transport_config u32

fun reconnect_loop :: "(settings_answer \<times> nat) list \<Rightarrow> transport_config \<Rightarrow> u32 \<Rightarrow> u64 list \<times> loop_end" where
  "reconnect_loop [] tc retry = ([], Going tc retry)"
| "reconnect_loop ((answer, elapsed) # turns) tc retry =
     (if answer = Rejected then ([], Stopped)
      else let tc' = apply_settings answer tc in
        if STABLE_SESSION \<le> elapsed then
          (case reconnect_loop turns tc' 0 of (waits, r) \<Rightarrow> (0 # waits, r))
        else let retry' = u32_saturating_add retry 1 in
          (case reconnect_loop turns tc' retry' of (waits, r) \<Rightarrow> (reconnect_backoff_secs retry' # waits, r)))"

section \<open>Finding the server and the backends\<close>

text \<open>\<open>url_parse\<close>: the host and the port, or the known default of the scheme, of a URL.\<close>

type_synonym url_lib = "string \<Rightarrow> string + string option \<times> u16 option"

definition trim_brackets :: "string \<Rightarrow> string" where
  "trim_brackets s = (let p = (\<lambda>c. c = CHR ''['' \<or> c = CHR '']'') in rev (dropWhile p (rev (dropWhile p s))))"

definition host_port :: "url_lib \<Rightarrow> string \<Rightarrow> (string \<times> u16) io_result" where
  "host_port url_parse url = (case url_parse url of
       Inl e \<Rightarrow> Inl (InvalidInput, Msg (url @ '': '' @ e))
     | Inr (host, port) \<Rightarrow>
         Inr (trim_brackets (case host of Some h \<Rightarrow> h | None \<Rightarrow> []), case port of Some p \<Rightarrow> p | None \<Rightarrow> 443))"

type_synonym resolver = "string \<times> u16 \<Rightarrow> (ip_addr \<times> u16) list io_result"

fun try_each :: "('a \<Rightarrow> 'b io_result) \<Rightarrow> 'a list \<Rightarrow> io_error \<Rightarrow> 'b io_result" where
  "try_each attempt [] last_error = Inl last_error"
| "try_each attempt (a # as) last_error = (case attempt a of
     Inr v \<Rightarrow> Inr v | Inl e \<Rightarrow> try_each attempt as e)"

definition connect_any ::
  "url_lib \<Rightarrow> resolver \<Rightarrow> (ip_addr \<times> u16 \<Rightarrow> 'b io_result) \<Rightarrow> transport_config \<Rightarrow> 'b io_result" where
  "connect_any url_parse lookup attempt tc =
     and_then (host_port url_parse (tc_server tc)) (\<lambda>(host, port).
     and_then (lookup (host, port)) (\<lambda>addrs.
       try_each attempt addrs (OtherKind, Msg (''Could not resolve '' @ host))))"

text \<open>\<open>connect_backend\<close>. \<open>tcp\<close> connects to the first address of a list it can; \<open>in_time\<close> says whether
  resolving and connecting ended before the deadline, and \<open>show_error\<close> is the text of an error.\<close>

definition connect_backend ::
  "url_lib \<Rightarrow> resolver \<Rightarrow> (io_error \<Rightarrow> string) \<Rightarrow> ((ip_addr \<times> u16) list \<Rightarrow> 's io_result) \<Rightarrow> bool \<Rightarrow> string \<Rightarrow> 's io_result" where
  "connect_backend url_parse lookup show_error tcp in_time url =
     and_then (host_port url_parse url) (\<lambda>(host, port).
       if \<not> in_time then Inl (TimedOut, Msg (''backend connect to '' @ url @ '' timed out after 20s''))
       else case lookup (host, port) of
         Inl e \<Rightarrow> Inl (OtherKind, Msg (''failed to resolve '' @ host @ '': '' @ show_error e))
       | Inr resolved \<Rightarrow>
           let safe = filter (\<lambda>addr. \<not> is_strictly_dangerous_ip (fst addr)) resolved in
           if safe = [] then Inl (PermissionDenied, Msg (host @ '' '' @
             (if resolved = [] then ''did not resolve to any address'' else ''resolved only to restricted addresses'')))
           else tcp safe)"

section \<open>Lemmas\<close>

lemma unat_min: "unat (min a b) = min (unat a) (unat (b :: 'a::len word))"
  by (simp add: min_def word_le_nat_alt)

lemma unat_pred: "unat (u32_saturating_sub n 1) = unat n - 1"
  by (auto simp: u32_saturating_sub_def word_less_nat_alt unat_sub word_le_nat_alt)

lemma backoff_eq: "unat (reconnect_backoff_secs n) = min 30 (2 ^ min 5 (unat n - 1))"
proof -
  define k where "k = min 5 (unat n - 1)"
  have "unat (min (u32_saturating_sub n 1) 5) = k" by (simp add: k_def unat_min unat_pred min.commute)
  moreover have "k \<in> {0, 1, 2, 3, 4, 5}" by (auto simp: k_def min_def)
  ultimately show ?thesis
    unfolding reconnect_backoff_secs_def k_def [symmetric] by (auto simp: unat_min push_bit_eq_mult)
qed

lemma try_each_Inr: "try_each attempt as e = Inr v \<Longrightarrow> \<exists>a \<in> set as. attempt a = Inr v"
  by (induction as arbitrary: e) (auto split: sum.splits)

lemma unat_succ: "unat n < 2 ^ 32 - 1 \<Longrightarrow> unat (u32_saturating_add n 1) = unat n + 1"
  by (simp add: u32_saturating_add_def unat_word_ariths)

text \<open>The waits as they should be: nothing after a session that lasted, else double the last wait, from
  one second to thirty.\<close>

primrec backoff_curve :: "(settings_answer \<times> nat) list \<Rightarrow> nat \<Rightarrow> nat list" where
  "backoff_curve [] failures = []"
| "backoff_curve (turn # turns) failures =
     (if 30 \<le> snd turn then 0 # backoff_curve turns 0
      else min 30 (2 ^ failures) # backoff_curve turns (failures + 1))"

definition demo_transport :: transport_config where
  "demo_transport = \<lparr>tc_server = ''https://h'', tc_token = ''t'', tc_obfuscation_secret = [], tc_force_wss = False\<rparr>"

definition demo_tcp :: "(ip_addr \<times> u16) list \<Rightarrow> (ip_addr \<times> u16) io_result" where
  "demo_tcp addrs = (case addrs of a # _ \<Rightarrow> Inr a | [] \<Rightarrow> Inl (InvalidInput, Msg ''no addresses''))"

lemma wait_of_failures:
  assumes "unat retry = failures \<or> 5 \<le> unat retry \<and> 5 \<le> failures"
  shows "unat (reconnect_backoff_secs (u32_saturating_add retry 1)) = min 30 (2 ^ failures)"
    and "unat (u32_saturating_add retry 1) = failures + 1 \<or> 5 \<le> unat (u32_saturating_add retry 1) \<and> 5 \<le> failures + 1"
proof -
  have succ: "unat (u32_saturating_add retry 1) = unat retry + 1 \<or> 5 \<le> unat retry \<and> 6 \<le> unat (u32_saturating_add retry 1)"
    using unat_succ [of retry] unat_less [of retry]
    by (cases "unat retry < 2 ^ 32 - 1") (auto simp: u32_saturating_add_def unsigned_minus_1_eq_mask mask_eq_exp_minus_1)
  then show "unat (u32_saturating_add retry 1) = failures + 1 \<or> 5 \<le> unat (u32_saturating_add retry 1) \<and> 5 \<le> failures + 1"
    using assms by auto
  have big: "min 30 (2 ^ n) = (30 :: nat)" if "5 \<le> n" for n
  proof -
    have "(2 :: nat) ^ 5 \<le> 2 ^ n" using that by (intro power_increasing) auto
    then show ?thesis by simp
  qed
  show "unat (reconnect_backoff_secs (u32_saturating_add retry 1)) = min 30 (2 ^ failures)"
  proof (cases "5 \<le> failures")
    case True
    then have "5 \<le> unat (u32_saturating_add retry 1) - 1" using succ assms by auto
    then show ?thesis using big [OF True] by (simp add: backoff_eq)
  next
    case False
    then have "unat (u32_saturating_add retry 1) = failures + 1" using succ assms by auto
    then show ?thesis using False by (simp add: backoff_eq)
  qed
qed

lemma reconnect_waits:
  assumes "Rejected \<notin> fst ` set turns" and "unat retry = failures \<or> 5 \<le> unat retry \<and> 5 \<le> failures"
  shows "map unat (fst (reconnect_loop turns tc retry)) = backoff_curve turns failures"
  using assms
proof (induction turns tc retry arbitrary: failures rule: reconnect_loop.induct)
  case (2 answer elapsed turns tc retry)
  show ?case
  proof (cases "STABLE_SESSION \<le> elapsed")
    case True
    then show ?thesis using 2(1) [OF _ refl True, of 0] 2(3)
      by (auto simp: STABLE_SESSION_def split: prod.splits)
  next
    case False
    then show ?thesis using 2(2) [OF _ refl False refl _ wait_of_failures(2) [OF 2(4)]] wait_of_failures(1) [OF 2(4)] 2(3)
      by (auto simp: STABLE_SESSION_def Let_def split: prod.splits)
  qed
qed simp

text \<open>A configuration that loads names a bare origin.\<close>

lemma origin_bare:
  assumes "load_config from_json euid opened = Inr c"
  shows "\<exists>host. cc_server c = ''https://'' @ host \<and> host \<noteq> [] \<and> \<not> contains_any ''/?#@'' host"
proof -
  obtain s where n: "normalize_server_origin s = Inr (cc_server c)"
    using assms by (auto simp: load_config_def split: sum.splits if_splits)
  then obtain host where "strip_prefix ''https://'' (cc_server c) = Some host" "host \<noteq> []" "\<not> contains_any ''/?#@'' host"
    unfolding normalize_server_origin_def Let_def
    by (cases "strip_prefix ''https://'' (trim_end_matches CHR ''/'' (trim s))") (simp_all split: if_splits, metis)
  then show ?thesis by auto
qed

section \<open>Properties\<close>

text \<open>The connector stops for good exactly when a settings request is rejected: no other answer, failed
  session or outage ends its loop.\<close>

theorem reconnect_stops_iff_rejected:
  "snd (reconnect_loop turns tc retry) = Stopped \<longleftrightarrow> Rejected \<in> fst ` set turns"
  by (induction turns tc retry rule: reconnect_loop.induct) (auto simp: Let_def split: prod.splits)

text \<open>(C31) The server is never dialled hot: while it is not rejected, the connector waits between 1 and 30
  seconds after every session that did not last, doubling from one second, and after a session
  that lasted starts over. The count of failures saturates, so an outage of any length keeps
  the wait at its cap.\<close>

theorem reconnect_paced:
  assumes "Rejected \<notin> fst ` set turns"
  shows "map unat (fst (reconnect_loop turns tc retry)) = backoff_curve turns (unat retry)"
  by (rule reconnect_waits [OF assms]) simp

theorem reconnect_paced_witness:
  "map unat (fst (reconnect_loop [(Unreachable, 0), (Unreachable, 2), (Settings ''s'' True, 45), (Not_success, 1)] demo_transport 0))
     = [1, 2, 0, 1]"
proof -
  have "Rejected \<notin> fst ` set [(Unreachable, 0), (Unreachable, 2), (Settings ''s'' True, 45), (Not_success, 1)]" by simp
  from reconnect_paced [OF this] show ?thesis by simp
qed

text \<open>(C30) The connector never opens a connection to a link-local, multicast or metadata address, whatever the
  server asks for and whatever DNS answers: what it connects to is an address its target
  resolved to, and not one of those.\<close>

theorem backend_dial_safe:
  assumes "connect_backend url_parse lookup show_error tcp in_time url = Inr s"
    and "\<And>addrs s. tcp addrs = Inr s \<Longrightarrow> peer_of s \<in> set addrs"
  shows "\<not> is_strictly_dangerous_ip (fst (peer_of s)) \<and>
    (\<exists>host port addrs. host_port url_parse url = Inr (host, port) \<and> lookup (host, port) = Inr addrs
       \<and> peer_of s \<in> set addrs)"
proof -
  obtain host port addrs where hp: "host_port url_parse url = Inr (host, port)" and l: "lookup (host, port) = Inr addrs"
    and t: "tcp (filter (\<lambda>addr. \<not> is_strictly_dangerous_ip (fst addr)) addrs) = Inr s"
    using assms(1) by (auto simp: connect_backend_def and_then_eq_Inr Let_def split: if_splits sum.splits)
  then show ?thesis using assms(2) [OF t] by auto
qed

theorem backend_dial_safe_witness:
  "connect_backend (\<lambda>_. Inr (Some ''h'', Some 80)) (\<lambda>_. Inr [(V4 (Ipv4 169 254 169 254), 80), (V4 (Ipv4 10 0 0 5), 80)])
      (\<lambda>_. []) demo_tcp True ''http://h'' = Inr (V4 (Ipv4 10 0 0 5), 80)
    \<and> \<not> is_strictly_dangerous_ip (V4 (Ipv4 10 0 0 5))"
proof -
  let ?c = "connect_backend (\<lambda>_. Inr (Some ''h'', Some 80))
    (\<lambda>_. Inr [(V4 (Ipv4 169 254 169 254), 80), (V4 (Ipv4 10 0 0 5), 80)]) (\<lambda>_. []) demo_tcp True ''http://h''"
  have c: "?c = Inr (V4 (Ipv4 10 0 0 5), 80)"
    by (simp add: connect_backend_def host_port_def trim_brackets_def demo_tcp_def
        v4_strictly_dangerous_def)
  have tcp: "s \<in> set addrs" if "demo_tcp addrs = Inr s" for addrs s
    using that by (cases addrs) (auto simp: demo_tcp_def)
  have "\<not> is_strictly_dangerous_ip (fst (V4 (Ipv4 10 0 0 5), 80 :: u16))"
    using backend_dial_safe [OF c, of "\<lambda>s. s", OF tcp] by (rule conjunct1)
  then show ?thesis using c by simp
qed

end
