(* ===== verification/Tls.thy ===== *)
theory Tls
  imports Api_State "HOL-Library.Signed_Division"
begin

text \<open>
  Certificates (\<open>crates/server/src/tls.rs\<close>): when one is renewed, how it is obtained and written,
  and how the listeners load it. What the ACME server, Cloudflare and the X.509 and PEM libraries
  answer are parameters; the files are those of \<open>Secure_File\<close>. Times are seconds. An error carries
  the message of its cause, without the layers \<open>context\<close> adds. The log line that shows the first eight
  characters of a DNS value, which always has 43, is left out like every log line.
\<close>

definition CERT_FILE :: string where
  "CERT_FILE = ''/var/lib/x2rp/certs/fullchain.pem''"

definition KEY_FILE :: string where
  "KEY_FILE = ''/var/lib/x2rp/certs/privkey.pem''"

definition ACME_ACCOUNT_FILE :: string where
  "ACME_ACCOUNT_FILE = ''/var/lib/x2rp/acme_account.json''"

definition RENEWAL_THRESHOLD_DAYS :: int where
  "RENEWAL_THRESHOLD_DAYS = 30"

section \<open>Cloudflare\<close>

datatype acme_identifier = Dns string | Other_identifier

definition dns01_record_name :: "acme_identifier \<Rightarrow> string \<Rightarrow> string" where
  "dns01_record_name i fallback_domain = (case i of
     Dns name \<Rightarrow> ''_acme-challenge.'' @ (case strip_prefix ''*.'' name of Some n \<Rightarrow> n | None \<Rightarrow> name)
   | Other_identifier \<Rightarrow> ''_acme-challenge.'' @ fallback_domain)"

record 'a cf_response =
  cf_success :: bool
  cf_result :: 'a
  cf_errors :: "string list"

definition join_with :: "string \<Rightarrow> string list \<Rightarrow> string" where
  "join_with sep xs = (case xs of [] \<Rightarrow> [] | x # rest \<Rightarrow> x @ concat (map (\<lambda>y. sep @ y) rest))"

definition into_result :: "string \<Rightarrow> 'a cf_response \<Rightarrow> string + 'a" where
  "into_result ctx r = (if cf_success r then Inr (cf_result r) else Inl (ctx @ '': '' @ join_with '', '' (cf_errors r)))"

text \<open>\<open>answer\<close> is the response to the request, or the error of sending it or of reading it.\<close>

definition find_zone_id :: "string + string list cf_response \<Rightarrow> string \<Rightarrow> string + string" where
  "find_zone_id answer d =
     and_then answer (\<lambda>resp.
     and_then (into_result ''Cloudflare zone lookup failed'' resp) (\<lambda>ids.
       ok_or (case ids of i # _ \<Rightarrow> Some i | [] \<Rightarrow> None)
         (''No Cloudflare zone found for '' @ [CHR 0x27] @ d @ [CHR 0x27] @ '', check your API token permissions'')))"

definition create_txt_record :: "string + string cf_response \<Rightarrow> string + string" where
  "create_txt_record answer = and_then answer (into_result ''Failed to create TXT record'')"

section \<open>Obtaining a certificate\<close>

record authorization =
  au_identifier :: acme_identifier
  au_dns01 :: "string option"          \<comment> \<open>the value of its DNS-01 challenge\<close>

datatype order_status = Ready | Not_ready string

text \<open>The answers the process gets, in the order it asks.\<close>

record acme =
  ac_stored :: "open_file io_result"              \<comment> \<open>opening the account file\<close>
  ac_restore :: "byte list \<Rightarrow> string + unit"        \<comment> \<open>the account of stored credentials\<close>
  ac_create :: "string + string"                  \<comment> \<open>a new account's credentials as JSON\<close>
  ac_order :: "string + unit"
  ac_zone :: "string + string list cf_response"
  ac_authorizations :: "(string + authorization) list"
  ac_post :: "string \<Rightarrow> string \<Rightarrow> string + string cf_response"
  ac_ready :: "(string + (string + unit) option) list"
  ac_status :: "string + order_status"
  ac_key :: "string + string"
  ac_chain :: "string + string"

fun create_records ::
  "(string \<Rightarrow> string \<Rightarrow> string + string cf_response) \<Rightarrow> string \<Rightarrow> (string + authorization) list \<Rightarrow> string list
     \<Rightarrow> (string + unit) \<times> string list" where
  "create_records post d [] ids = (Inr (), ids)"
| "create_records post d (Inl e # auths) ids = (Inl e, ids)"
| "create_records post d (Inr a # auths) ids = (case au_dns01 a of
       None \<Rightarrow> (Inl ''No DNS-01 challenge in authorization'', ids)
     | Some v \<Rightarrow> (case create_txt_record (post (dns01_record_name (au_identifier a) d) v) of
         Inl e \<Rightarrow> (Inl e, ids)
       | Inr i \<Rightarrow> create_records post d auths (ids @ [i])))"

fun set_all_ready :: "(string + (string + unit) option) list \<Rightarrow> string + unit" where
  "set_all_ready [] = Inr ()"
| "set_all_ready (Inl e # auths) = Inl e"
| "set_all_ready (Inr None # auths) = Inl ''No DNS-01 challenge in authorization''"
| "set_all_ready (Inr (Some (Inl e)) # auths) = Inl e"
| "set_all_ready (Inr (Some (Inr u)) # auths) = set_all_ready auths"

definition validate_order :: "acme \<Rightarrow> string \<Rightarrow> (string + unit) \<times> string list" where
  "validate_order acme d = (case create_records (ac_post acme) d (ac_authorizations acme) [] of
       (Inl e, ids) \<Rightarrow> (Inl e, ids)
     | (Inr _, ids) \<Rightarrow>
         (and_then (set_all_ready (ac_ready acme)) (\<lambda>_.
          and_then (ac_status acme) (\<lambda>st. case st of
            Ready \<Rightarrow> Inr () | Not_ready s \<Rightarrow> Inl (''ACME validation failed (order '' @ s @ '')''))), ids))"

datatype tls_error = Acme_error string | Write_error io_error

text \<open>Each save has its own faults, progress and random name.\<close>

record save_run =
  sv_sys :: "save_call \<Rightarrow> io_error option"
  sv_written :: nat
  sv_random :: string

definition run_save :: "save_run \<Rightarrow> string \<Rightarrow> byte list \<Rightarrow> fs \<Rightarrow> unit io_result \<times> fs" where
  "run_save v path data fs = save_secure_file (sv_sys v) (sv_written v) (sv_random v) path data fs"

definition write_pair :: "save_run \<Rightarrow> save_run \<Rightarrow> string \<Rightarrow> string \<Rightarrow> fs \<Rightarrow> (tls_error + unit) \<times> fs" where
  "write_pair v w key_pem cert_chain_pem fs = (case run_save v KEY_FILE (as_bytes key_pem) fs of
       (Inl e, fs1) \<Rightarrow> (Inl (Write_error e), fs1)
     | (Inr _, fs1) \<Rightarrow> (case run_save w CERT_FILE (as_bytes cert_chain_pem) fs1 of
         (Inl e, fs2) \<Rightarrow> (Inl (Write_error e), fs2) | (Inr _, fs2) \<Rightarrow> (Inr (), fs2)))"

definition load_or_create_account :: "acme \<Rightarrow> u32 \<Rightarrow> save_run \<Rightarrow> fs \<Rightarrow> (tls_error + unit) \<times> fs" where
  "load_or_create_account acme euid v fs =
     (if fs ACME_ACCOUNT_FILE \<noteq> None then
        (case read_secret_file euid ACME_ACCOUNT_FILE 0x180 (ac_stored acme) of
           Inl e \<Rightarrow> (Inl (Write_error e), fs)
         | Inr data \<Rightarrow> (case ac_restore acme data of Inl e \<Rightarrow> (Inl (Acme_error e), fs) | Inr _ \<Rightarrow> (Inr (), fs)))
      else case ac_create acme of
        Inl e \<Rightarrow> (Inl (Acme_error e), fs)
      | Inr creds \<Rightarrow> (case run_save v ACME_ACCOUNT_FILE (as_bytes creds) fs of
          (Inl e, fs1) \<Rightarrow> (Inl (Write_error e), fs1) | (Inr _, fs1) \<Rightarrow> (Inr (), fs1)))"

text \<open>\<open>obtain_certificate\<close>: the result, the records whose deletion is asked for, and the files.\<close>

record tls_saves =
  ts_account :: save_run
  ts_key :: save_run
  ts_cert :: save_run

definition obtain_certificate ::
  "acme \<Rightarrow> u32 \<Rightarrow> tls_saves \<Rightarrow> string \<Rightarrow> fs \<Rightarrow> (tls_error + unit) \<times> string list \<times> fs" where
  "obtain_certificate acme euid v d fs = (case load_or_create_account acme euid (ts_account v) fs of
       (Inl e, fs1) \<Rightarrow> (Inl e, [], fs1)
     | (Inr _, fs1) \<Rightarrow> (case and_then (ac_order acme) (\<lambda>_. find_zone_id (ac_zone acme) d) of
         Inl e \<Rightarrow> (Inl (Acme_error e), [], fs1)
       | Inr _ \<Rightarrow> (case validate_order acme d of
           (Inl e, ids) \<Rightarrow> (Inl (Acme_error e), ids, fs1)
         | (Inr _, ids) \<Rightarrow> (case and_then (ac_key acme) (\<lambda>k. and_then (ac_chain acme) (\<lambda>c. Inr (k, c))) of
             Inl e \<Rightarrow> (Inl (Acme_error e), ids, fs1)
           | Inr (k, c) \<Rightarrow> (case write_pair (ts_key v) (ts_cert v) k c fs1 of (r, fs2) \<Rightarrow> (r, ids, fs2))))))"

section \<open>Renewal\<close>

text \<open>\<open>not_after\<close> is the end of validity of the leaf of a PEM file, if it parses. The division of \<open>i64\<close>
  truncates.\<close>

definition days_until_expiry :: "(byte list \<Rightarrow> int option) \<Rightarrow> int \<Rightarrow> fs \<Rightarrow> int option" where
  "days_until_expiry not_after now fs = (case fs CERT_FILE of
     None \<Rightarrow> None
   | Some pem \<Rightarrow> map_option (\<lambda>t. (t - now) sdiv 86400) (not_after pem))"

definition ensure_certs ::
  "(byte list \<Rightarrow> int option) \<Rightarrow> int \<Rightarrow> acme \<Rightarrow> u32 \<Rightarrow> tls_saves \<Rightarrow> string \<Rightarrow> fs
     \<Rightarrow> (tls_error + bool) \<times> string list \<times> fs" where
  "ensure_certs not_after now acme euid v d fs =
     (if (case days_until_expiry not_after now fs of
            Some days \<Rightarrow> RENEWAL_THRESHOLD_DAYS \<le> days \<and> fs KEY_FILE \<noteq> None | None \<Rightarrow> False)
      then (Inr False, [], fs)
      else case obtain_certificate acme euid v d fs of
        (r, ids, fs') \<Rightarrow> (and_then r (\<lambda>_. Inr True), ids, fs'))"

section \<open>The certificate in service\<close>

record ('c, 'k, 'p) pem_libs =
  pem_certs :: "byte list \<Rightarrow> (string + 'c) list"
  pem_key :: "byte list \<Rightarrow> string + 'k"
  certified_key :: "'c list \<Rightarrow> 'k \<Rightarrow> string + 'p"

text \<open>\<open>load_certified_key\<close>; \<open>cert\<close> and \<open>key\<close> are what opening the two files gives.\<close>

definition load_certified_key ::
  "('c, 'k, 'p) pem_libs \<Rightarrow> u32 \<Rightarrow> string \<Rightarrow> byte list io_result \<Rightarrow> open_file io_result \<Rightarrow> (io_error + string) + 'p" where
  "load_certified_key pem euid key_path cert key =
     and_then (case cert of Inl e \<Rightarrow> Inl (Inl e) | Inr b \<Rightarrow> Inr b) (\<lambda>cert_pem.
     and_then (case read_secret_file euid key_path 0x180 key of Inl e \<Rightarrow> Inl (Inl e) | Inr b \<Rightarrow> Inr b) (\<lambda>key_pem.
     and_then (case collect_results (pem_certs pem cert_pem) of Inl e \<Rightarrow> Inl (Inr e) | Inr c \<Rightarrow> Inr c) (\<lambda>chain.
     and_then (case pem_key pem key_pem of Inl e \<Rightarrow> Inl (Inr e) | Inr k \<Rightarrow> Inr k) (\<lambda>k.
       case certified_key pem chain k of Inl e \<Rightarrow> Inl (Inr e) | Inr p \<Rightarrow> Inr p))))"

text \<open>\<open>CertStore::reload\<close> on the certificate in service.\<close>

definition cert_reload :: "(io_error + string) + 'p \<Rightarrow> 'p \<Rightarrow> ((io_error + string) + unit) \<times> 'p" where
  "cert_reload loaded current = (case loaded of Inl e \<Rightarrow> (Inl e, current) | Inr fresh \<Rightarrow> (Inr (), fresh))"

text \<open>The daily check of \<open>main.rs\<close>: what is served after it; \<open>None\<close> when the process exits to be restarted.\<close>

definition renewal_tick :: "tls_error + bool \<Rightarrow> (io_error + string) + 'p \<Rightarrow> 'p \<Rightarrow> 'p option" where
  "renewal_tick ensured loaded current = (case ensured of
     Inr renewed \<Rightarrow> if renewed then (case cert_reload loaded current of (Inr _, p) \<Rightarrow> Some p | (Inl _, _) \<Rightarrow> None)
                    else Some current
   | Inl _ \<Rightarrow> Some current)"

text \<open>The start of the TLS listeners in \<open>run_server\<close>.\<close>

datatype start_error = No_cf_token | Provisioning tls_error | Not_loaded "io_error + string"

definition start_tls ::
  "string \<Rightarrow> (tls_error + bool) \<Rightarrow> (io_error + string) + 'p \<Rightarrow> start_error + 'p" where
  "start_tls cf_token ensured loaded =
     (if cf_token = [] then Inl No_cf_token
      else case ensured of
        Inl e \<Rightarrow> Inl (Provisioning e)
      | Inr _ \<Rightarrow> (case loaded of Inl e \<Rightarrow> Inl (Not_loaded e) | Inr p \<Rightarrow> Inr p))"

section \<open>Lemmas\<close>

text \<open>The temporary names are not those of the files.\<close>

lemma tmp_names:
  "with_extension KEY_FILE (''tmp.'' @ r) = ''/var/lib/x2rp/certs/privkey.tmp.'' @ r"
  "with_extension CERT_FILE (''tmp.'' @ r) = ''/var/lib/x2rp/certs/fullchain.tmp.'' @ r"
  "with_extension ACME_ACCOUNT_FILE (''tmp.'' @ r) = ''/var/lib/x2rp/acme_account.tmp.'' @ r"
  by (simp_all add: with_extension_def file_name_def file_stem_def KEY_FILE_def CERT_FILE_def ACME_ACCOUNT_FILE_def)

lemma run_save_cases:
  assumes "run_save v path data fs = (r, fs')"
  shows "p \<noteq> path \<Longrightarrow> p \<noteq> with_extension path (''tmp.'' @ sv_random v) \<Longrightarrow> fs' p = fs p"
    and "with_extension path (''tmp.'' @ sv_random v) \<noteq> path \<Longrightarrow>
      fs' path \<in> {fs path, Some data} \<and> (r = Inr () \<longrightarrow> fs' path = Some data)"
  using assms by (auto simp: run_save_def save_secure_file_def Let_def split: option.splits if_splits)

lemma account_keeps_pair:
  assumes "load_or_create_account acme euid v fs = (r, fs')"
  shows "fs' CERT_FILE = fs CERT_FILE \<and> fs' KEY_FILE = fs KEY_FILE"
proof -
  have "fs1 CERT_FILE = fs CERT_FILE \<and> fs1 KEY_FILE = fs KEY_FILE"
    if "run_save v ACME_ACCOUNT_FILE data fs = (r1, fs1)" for data r1 fs1
    using run_save_cases(1) [OF that, of CERT_FILE] run_save_cases(1) [OF that, of KEY_FILE] tmp_names(3)
    by (simp add: CERT_FILE_def KEY_FILE_def ACME_ACCOUNT_FILE_def)
  then show ?thesis
    using assms by (auto simp: load_or_create_account_def split: if_splits sum.splits prod.splits)
qed

lemma write_pair_cases:
  assumes "write_pair v w k c fs = (r, fs')"
  shows "fs' KEY_FILE \<in> {fs KEY_FILE, Some (as_bytes k)}
    \<and> (fs' CERT_FILE = fs CERT_FILE \<or> fs' CERT_FILE = Some (as_bytes c) \<and> fs' KEY_FILE = Some (as_bytes k))
    \<and> (r = Inr () \<longrightarrow> fs' CERT_FILE = Some (as_bytes c) \<and> fs' KEY_FILE = Some (as_bytes k))"
proof -
  obtain r1 fs1 where k: "run_save v KEY_FILE (as_bytes k) fs = (r1, fs1)" by fastforce
  have k1: "fs1 CERT_FILE = fs CERT_FILE" "fs1 KEY_FILE \<in> {fs KEY_FILE, Some (as_bytes k)}"
    "r1 = Inr () \<Longrightarrow> fs1 KEY_FILE = Some (as_bytes k)"
    using run_save_cases [OF k] tmp_names(1) by (simp_all add: CERT_FILE_def KEY_FILE_def)
  show ?thesis
  proof (cases r1)
    case (Inl e)
    then show ?thesis using assms k k1 by (auto simp: write_pair_def)
  next
    case (Inr u)
    obtain r2 fs2 where c: "run_save w CERT_FILE (as_bytes c) fs1 = (r2, fs2)" by fastforce
    have "fs2 KEY_FILE = fs1 KEY_FILE" "fs2 CERT_FILE \<in> {fs1 CERT_FILE, Some (as_bytes c)}"
      "r2 = Inr () \<Longrightarrow> fs2 CERT_FILE = Some (as_bytes c)"
      using run_save_cases [OF c] tmp_names(2) by (simp_all add: CERT_FILE_def KEY_FILE_def)
    then show ?thesis using assms k k1 c Inr by (auto simp: write_pair_def split: sum.splits)
  qed
qed

lemma obtain_key:
  assumes "obtain_certificate acme euid v d fs = (r, ids, fs')"
  shows "fs' KEY_FILE = fs KEY_FILE \<or> (\<exists>k. ac_key acme = Inr k \<and> fs' KEY_FILE = Some (as_bytes k))"
proof -
  obtain r1 fs1 where a: "load_or_create_account acme euid (ts_account v) fs = (r1, fs1)" by fastforce
  have keep: "fs1 KEY_FILE = fs KEY_FILE" using account_keeps_pair [OF a] by simp
  have pair: "fs2 KEY_FILE \<in> {fs KEY_FILE, Some (as_bytes k)}"
    if "write_pair (ts_key v) (ts_cert v) k c fs1 = (r2, fs2)" for k c r2 fs2
    using write_pair_cases [OF that] keep by simp
  show ?thesis
    using assms a keep pair by (fastforce simp: obtain_certificate_def and_then_eq_Inr split: sum.splits prod.splits)
qed

section \<open>A concrete renewal\<close>

text \<open>An authority that issues at once, a save that succeeds, and one that runs out of space.\<close>

definition demo_acme :: acme where
  "demo_acme = \<lparr>ac_stored = Inl (NotFound, Msg ''n''), ac_restore = (\<lambda>_. Inr ()), ac_create = Inr ''{}'', ac_order = Inr (),
     ac_zone = Inr \<lparr>cf_success = True, cf_result = [''z''], cf_errors = []\<rparr>,
     ac_authorizations = [Inr \<lparr>au_identifier = Dns ''*.a.b'', au_dns01 = Some ''v''\<rparr>],
     ac_post = (\<lambda>_ _. Inr \<lparr>cf_success = True, cf_result = ''rec'', cf_errors = []\<rparr>),
     ac_ready = [Inr (Some (Inr ()))], ac_status = Inr Ready, ac_key = Inr ''K'', ac_chain = Inr ''C''\<rparr>"

definition demo_save :: save_run where
  "demo_save = \<lparr>sv_sys = (\<lambda>_. None), sv_written = 0, sv_random = ''00''\<rparr>"

definition demo_full :: save_run where
  "demo_full = demo_save\<lparr>sv_sys := (\<lambda>c. if c = Write_all then Some (OtherKind, Msg ''ENOSPC'') else None)\<rparr>"

definition demo_saves :: tls_saves where
  "demo_saves = \<lparr>ts_account = demo_save, ts_key = demo_save, ts_cert = demo_save\<rparr>"

lemmas demo_tls = demo_acme_def demo_save_def demo_full_def demo_saves_def obtain_certificate_def load_or_create_account_def
  find_zone_id_def into_result_def validate_order_def create_txt_record_def write_pair_def run_save_def
  save_secure_file_def Let_def with_extension_def file_name_def file_stem_def

section \<open>Properties\<close>

text \<open>(C25) A renewal commits with the certificate: whatever fails, the certificate file holds what it held,
  or the new certificate with the key file holding its key. Success means both are new.\<close>

theorem renewal_commits:
  assumes "obtain_certificate acme euid v d fs = (r, ids, fs')"
  shows "(fs' CERT_FILE = fs CERT_FILE \<or> (\<exists>k c. ac_key acme = Inr k \<and> ac_chain acme = Inr c
      \<and> fs' CERT_FILE = Some (as_bytes c) \<and> fs' KEY_FILE = Some (as_bytes k)))
    \<and> (r = Inr () \<longrightarrow> (\<exists>k c. ac_key acme = Inr k \<and> ac_chain acme = Inr c
      \<and> fs' CERT_FILE = Some (as_bytes c) \<and> fs' KEY_FILE = Some (as_bytes k)))"
proof -
  obtain r1 fs1 where a: "load_or_create_account acme euid (ts_account v) fs = (r1, fs1)" by fastforce
  have keep: "fs1 CERT_FILE = fs CERT_FILE" using account_keeps_pair [OF a] by simp
  show ?thesis
  proof (cases "\<exists>k c fs2. ac_key acme = Inr k \<and> ac_chain acme = Inr c \<and>
      write_pair (ts_key v) (ts_cert v) k c fs1 = (r, fs2) \<and> fs' = fs2")
    case True
    then show ?thesis using write_pair_cases keep by metis
  next
    case False
    then have "fs' = fs1 \<and> r \<noteq> Inr ()"
      using assms a by (auto simp: obtain_certificate_def and_then_eq_Inr split: sum.splits prod.splits)
    then show ?thesis using keep by simp
  qed
qed

theorem renewal_commits_witness:
  "\<exists>ids fs'. obtain_certificate demo_acme 0 demo_saves ''a.b'' (\<lambda>_. None) = (Inr (), ids, fs')
    \<and> fs' CERT_FILE = Some (as_bytes ''C'') \<and> fs' KEY_FILE = Some (as_bytes ''K'')"
proof -
  have ok: "fst (obtain_certificate demo_acme 0 demo_saves ''a.b'' (\<lambda>_. None)) = Inr ()"
    by (simp add: demo_tls KEY_FILE_def CERT_FILE_def ACME_ACCOUNT_FILE_def)
  obtain r ids fs' where run: "obtain_certificate demo_acme 0 demo_saves ''a.b'' (\<lambda>_. None) = (r, ids, fs')"
    using prod_cases3 by blast
  then have "r = Inr ()" using ok by simp
  then show ?thesis using run renewal_commits [OF run] by (simp add: demo_acme_def)
qed

text \<open>(C40) When the key is lost while the certificate is still fresh, a renewal that fails at the
  certificate leaves the key of the abandoned order beside the old certificate. From then on
  the pair counts as valid, whatever the authority would answer: no start and no daily check renews it
  before the certificate is about to expire, and every start fails as long as the pair does not load.\<close>

theorem lost_key_renewal_stuck:
  assumes "fs KEY_FILE = None" and "ensure_certs not_after now acme euid v d fs = (Inl e, ids, fs')"
    and "fs' KEY_FILE \<noteq> None" and "fs' CERT_FILE = fs CERT_FILE"
    and "days_until_expiry not_after later fs = Some days" and "30 \<le> days"
  shows "(\<exists>k. ac_key acme = Inr k \<and> fs' KEY_FILE = Some (as_bytes k))
    \<and> ensure_certs not_after later acme' euid' v' d' fs' = (Inr False, [], fs')
    \<and> start_tls cf (fst (ensure_certs not_after later acme' euid' v' d' fs')) (Inl reason) =
        Inl (if cf = [] then No_cf_token else Not_loaded reason)"
proof -
  obtain r where run: "obtain_certificate acme euid v d fs = (r, ids, fs')"
    using assms(1,2) by (auto simp: ensure_certs_def split: option.splits if_splits prod.splits)
  have "\<exists>k. ac_key acme = Inr k \<and> fs' KEY_FILE = Some (as_bytes k)"
    using obtain_key [OF run] assms(1,3) by simp
  moreover have "days_until_expiry not_after later fs' = Some days"
    using assms(4,5) by (simp add: days_until_expiry_def)
  ultimately show ?thesis
    using assms(3,6) by (simp add: ensure_certs_def RENEWAL_THRESHOLD_DAYS_def start_tls_def)
qed

theorem lost_key_renewal_stuck_witness:
  "\<exists>e ids fs'. ensure_certs (\<lambda>_. Some 7776000) 0 demo_acme 0 (demo_saves\<lparr>ts_cert := demo_full\<rparr>) ''a.b''
      [CERT_FILE \<mapsto> as_bytes ''old''] = (Inl e, ids, fs')
    \<and> fs' CERT_FILE = Some (as_bytes ''old'') \<and> fs' KEY_FILE = Some (as_bytes ''K'')
    \<and> ensure_certs (\<lambda>_. Some 7776000) 0 demo_acme 0 demo_saves ''a.b'' fs' = (Inr False, [], fs')"
proof -
  let ?fs = "[CERT_FILE \<mapsto> as_bytes ''old'']"
  let ?run = "ensure_certs (\<lambda>_. Some 7776000) 0 demo_acme 0 (demo_saves\<lparr>ts_cert := demo_full\<rparr>) ''a.b'' ?fs"
  have days: "days_until_expiry (\<lambda>_. Some 7776000) 0 ?fs = Some 90"
    by (simp add: days_until_expiry_def signed_divide_int_def)
  have fs: "?fs KEY_FILE = None" by (simp add: KEY_FILE_def CERT_FILE_def)
  have res: "\<exists>e ids fs'. ?run = (Inl e, ids, fs') \<and> fs' KEY_FILE \<noteq> None \<and> fs' CERT_FILE = ?fs CERT_FILE"
    unfolding ensure_certs_def days by (simp add: demo_tls KEY_FILE_def CERT_FILE_def ACME_ACCOUNT_FILE_def)
  then obtain e ids fs' where run: "?run = (Inl e, ids, fs')" "fs' KEY_FILE \<noteq> None" "fs' CERT_FILE = ?fs CERT_FILE"
    by blast
  show ?thesis
    using lost_key_renewal_stuck [OF fs run days, of demo_acme 0 demo_saves "''a.b''"] run by (auto simp: demo_acme_def)
qed

text \<open>Whatever the daily check finds, the pair in service stays, or is replaced after a renewal by a
  chain and a key that were parsed from the files and certified together, the key's file owned by the
  server's user and closed to everyone else. The process exits only when a renewed pair does not load.\<close>

theorem served_pair_checked:
  "case renewal_tick ensured (load_certified_key pem euid key_path cert key) current of
     None \<Rightarrow> ensured = Inr True \<and> (\<exists>e. load_certified_key pem euid key_path cert key = Inl e)
   | Some served \<Rightarrow> served = current \<or> (ensured = Inr True \<and>
       (\<exists>cert_pem f perm key_pem chain k. cert = Inr cert_pem \<and> key = Inr f
         \<and> file_metadata f = Inr (perm, euid) \<and> perm AND 0x7F = 0 \<and> file_content f = Inr key_pem
         \<and> collect_results (pem_certs pem cert_pem) = Inr chain \<and> pem_key pem key_pem = Inr k
         \<and> certified_key pem chain k = Inr served))"
proof (cases "load_certified_key pem euid key_path cert key")
  case (Inr p)
  then obtain cert_pem key_pem chain k where parts: "cert = Inr cert_pem"
      "read_secret_file euid key_path 0x180 key = Inr key_pem" "collect_results (pem_certs pem cert_pem) = Inr chain"
      "pem_key pem key_pem = Inr k" "certified_key pem chain k = Inr p"
    by (auto simp: load_certified_key_def and_then_eq_Inr split: sum.splits)
  then obtain f perm where "key = Inr f" "file_metadata f = Inr (perm, euid)" "perm AND 0x7F = 0"
      "file_content f = Inr key_pem"
    using read_private [of euid key_path key key_pem] by auto
  then show ?thesis using Inr parts by (auto simp: renewal_tick_def cert_reload_def split: sum.splits)
qed (auto simp: renewal_tick_def cert_reload_def split: sum.splits)

end
