(* ===== verification/Quic_Tunnel.thy ===== *)
theory Quic_Tunnel
  imports Wire Connector_Client
begin

text \<open>
  Tunnels over QUIC, at both ends: \<open>quic_tunnel\<close> of the server
  (\<open>crates/server/src/connector_manager.rs\<close>) and the connection and its streams on the connector
  (\<open>crates/connector/src/transport_quic.rs\<close>). A stream delivers its bytes in order, so that a side is a
  function of the bytes that arrive and of how its writes and its deadline turn out; quinn's answers
  and the copying of the spliced bytes are parameters.
\<close>

section \<open>The server's end\<close>

text \<open>How \<open>write_all\<close> ends: with every byte sent, or with the first \<open>n\<close>. \<open>late\<close> is the number of bytes sent
  when the deadline strikes, if it does.\<close>

datatype write_end = Sent_all | Sent_part nat string

definition CONNECT_TIMEOUT :: nat where
  "CONNECT_TIMEOUT = 30"

text \<open>What was sent, and what the splice starts on: the bytes that follow the answer.\<close>

definition quic_tunnel ::
  "(io_error \<Rightarrow> string) \<Rightarrow> (string \<Rightarrow> string) \<Rightarrow> string + nat \<Rightarrow> write_end \<Rightarrow> nat option \<Rightarrow> string \<Rightarrow> byte list
     \<Rightarrow> byte list \<times> (string + byte list)" where
  "quic_tunnel show_error dbg opened wr late url recv =
     (let timed_out = Inl (''connection timed out ('' @ show_nat CONNECT_TIMEOUT @ ''s)'') in
      case opened of
        Inl e \<Rightarrow> ([], if late = None then Inl e else timed_out)
      | Inr index \<Rightarrow>
          let stream_id = of_nat index :: u32 in
          case frame (Connect stream_id url) of
            Inl e \<Rightarrow> ([], Inl (show_error e))
          | Inr connect \<Rightarrow> (case late of
              Some n \<Rightarrow> (take n connect, timed_out)
            | None \<Rightarrow> (case wr of
                Sent_part n e \<Rightarrow> (take n connect, Inl e)
              | Sent_all \<Rightarrow> (connect, case read_frame recv of
                    Inl e \<Rightarrow> Inl (show_error e)
                  | Inr (answer, rest) \<Rightarrow> (case answer of
                      ConnectOk _ \<Rightarrow> Inr rest
                    | ConnectErr _ error \<Rightarrow> Inl (''connection failed: '' @ error)
                    | _ \<Rightarrow> Inl (''unexpected '' @ debug_message dbg answer))))))"

section \<open>The connector's end\<close>

text \<open>\<open>splice_data_stream\<close>: what it sends, and how it leaves the stream. \<open>dial\<close> is \<open>connect_backend\<close>.\<close>

datatype 's splice_end = Dropped | Closed_stream | Spliced 's "byte list"

definition splice_data_stream ::
  "(io_error \<Rightarrow> string) \<Rightarrow> (string \<Rightarrow> 's io_result) \<Rightarrow> bool \<Rightarrow> write_end \<Rightarrow> byte list \<Rightarrow> byte list \<times> 's splice_end" where
  "splice_data_stream show_error dial in_time wr recv =
     (if \<not> in_time then ([], Dropped)
      else case read_frame recv of
        Inr (Connect stream_id url, rest) \<Rightarrow>
          let backend = dial url;
              reply = (case backend of Inr _ \<Rightarrow> ConnectOk stream_id | Inl e \<Rightarrow> ConnectErr stream_id (show_error e))
          in (case frame reply of
                Inl _ \<Rightarrow> ([], Dropped)
              | Inr reply_bytes \<Rightarrow> (case wr of
                  Sent_part n _ \<Rightarrow> (take n reply_bytes, Dropped)
                | Sent_all \<Rightarrow> (reply_bytes, case backend of Inl _ \<Rightarrow> Closed_stream | Inr s \<Rightarrow> Spliced s rest)))
      | _ \<Rightarrow> ([], Dropped))"

text \<open>\<open>QuicSession::run\<close> on what \<open>accept_bi\<close> gives: the streams served, and the result once the connection
  ends.\<close>

datatype connection_error = ApplicationClosed | Connection_lost string

fun quic_session_run :: "(connection_error + 'a) list \<Rightarrow> 'a list \<times> unit io_result option" where
  "quic_session_run [] = ([], None)"
| "quic_session_run (Inr s # accepts) = (case quic_session_run accepts of (served, r) \<Rightarrow> (s # served, r))"
| "quic_session_run (Inl ApplicationClosed # _) = ([], Some (Inr ()))"
| "quic_session_run (Inl (Connection_lost e) # _) = ([], Some (Inl (OtherKind, Msg e)))"

text \<open>\<open>connect_to_addr\<close>: the socket is bound for the family of the server's address; the first stream
  carries the token. What is written on it is returned with the connection.\<close>

record 'c quic_lib =
  bind_socket :: "bool \<Rightarrow> byte list \<Rightarrow> unit io_result"       \<comment> \<open>for IPv6 or not, with the secret\<close>
  handshake :: "ip_addr \<times> u16 \<Rightarrow> string \<Rightarrow> 'c io_result"
  open_control :: "unit io_result"
  write_control :: "byte list \<Rightarrow> unit io_result"

definition is_ipv6 :: "ip_addr \<Rightarrow> bool" where
  "is_ipv6 ip = (case ip of V6 _ \<Rightarrow> True | V4 _ \<Rightarrow> False)"

definition connect_to_addr ::
  "'c quic_lib \<Rightarrow> string \<Rightarrow> string \<Rightarrow> byte list \<Rightarrow> ip_addr \<times> u16 \<Rightarrow> ('c \<times> byte list) io_result" where
  "connect_to_addr q server_name token secret server_addr =
     and_then (bind_socket q (is_ipv6 (fst server_addr)) secret) (\<lambda>_.
     and_then (handshake q server_addr server_name) (\<lambda>connection.
     and_then (open_control q) (\<lambda>_.
     and_then (frame (Auth token)) (\<lambda>auth.
     and_then (write_control q auth) (\<lambda>_. Inr (connection, auth))))))"

text \<open>\<open>connect_with\<close>; \<open>hex\<close> decodes hexadecimal text.\<close>

definition connect_with ::
  "'c quic_lib \<Rightarrow> (string \<Rightarrow> byte list option) \<Rightarrow> url_lib \<Rightarrow> resolver \<Rightarrow> transport_config \<Rightarrow> ('c \<times> byte list) io_result" where
  "connect_with q hex url_parse lookup tc =
     and_then (case hex (tc_obfuscation_secret tc) of
         Some bytes \<Rightarrow> if length bytes = 32 then Inr bytes else Inl (OtherKind, Msg ''invalid obfuscation secret'')
       | None \<Rightarrow> Inl (OtherKind, Msg ''invalid obfuscation secret'')) (\<lambda>secret.
     and_then (host_port url_parse (tc_server tc)) (\<lambda>(server_name, _).
       connect_any url_parse lookup (connect_to_addr q server_name (tc_token tc) secret) tc))"

section \<open>Lemmas\<close>

lemma control_frame:
  assumes "wf_message m" and "encodable m" and "\<not> is_data m"
  shows "\<exists>f. frame m = Inr f \<and> (\<forall>r. read_frame (f @ r) = Inr (wire_form m, r))"
  using assms control_body_le read_frame_put by (fastforce simp: frame_Inr frame_fits_def on_wire_def)

lemma connect_frame:
  assumes "is_str url" and "length url \<le> MAX_CONNECT_TARGET_LEN"
  shows "\<exists>f. frame (Connect sid url) = Inr f \<and> (\<forall>r. read_frame (f @ r) = Inr (Connect sid url, r))"
  using control_frame [of "Connect sid url"] assms by simp

text \<open>The text of an error as the other side gets it.\<close>

definition error_text :: "string \<Rightarrow> string" where
  "error_text e = take (floor_char_boundary e MAX_CONNECT_ERR_LEN) e"

lemma connect_ok_frame: "\<exists>f. frame (ConnectOk sid) = Inr f \<and> (\<forall>r. read_frame (f @ r) = Inr (ConnectOk sid, r))"
  using control_frame [of "ConnectOk sid"] by simp

lemma connect_err_frame:
  "is_str e \<Longrightarrow> \<exists>f. frame (ConnectErr sid e) = Inr f \<and> (\<forall>r. read_frame (f @ r) = Inr (ConnectErr sid (error_text e), r))"
  using control_frame [of "ConnectErr sid e"] by (simp add: error_text_def)

section \<open>Properties\<close>

text \<open>(C19) The two ends of a QUIC tunnel agree. Unless a write fails or a deadline strikes, what the server
  sends for a target makes the connector dial exactly that target, and the server splices exactly when
  the connector does: each side's splice starts with the first byte the other side's splice sent, none
  lost and none of the handshake let through. When the dial fails, the server reports the connector's
  error, cut to its limit, and neither side splices.\<close>

theorem tunnel_ends_agree:
  assumes "is_str url" and "length url \<le> 2048" and "\<forall>e. is_str (show_err e)"
    and "quic_tunnel show_err dbg (Inr i) Sent_all None url (answer @ down) = (sent, opened)"
    and "splice_data_stream show_err dial True Sent_all (sent @ up) = (answer, spliced)"
  shows "case dial url of
      Inr s \<Rightarrow> opened = Inr down \<and> spliced = Spliced s up
    | Inl e \<Rightarrow> opened = Inl (''connection failed: '' @ error_text (show_err e)) \<and> spliced = Closed_stream"
proof -
  obtain c where c: "frame (Connect (of_nat i) url) = Inr c" "read_frame (c @ up) = Inr (Connect (of_nat i) url, up)"
    using connect_frame [of url "of_nat i"] assms(1,2) unfolding MAX_CONNECT_TARGET_LEN_def by blast
  have sent: "sent = c" using assms(4) c by (simp add: quic_tunnel_def)
  show ?thesis
  proof (cases "dial url")
    case (Inr s)
    obtain f where f: "frame (ConnectOk (of_nat i)) = Inr f" "\<And>r. read_frame (f @ r) = Inr (ConnectOk (of_nat i), r)"
      using connect_ok_frame by blast
    then show ?thesis using assms(4,5) c sent Inr by (auto simp: quic_tunnel_def splice_data_stream_def)
  next
    case (Inl e)
    obtain f where f: "frame (ConnectErr (of_nat i) (show_err e)) = Inr f"
        "\<And>r. read_frame (f @ r) = Inr (ConnectErr (of_nat i) (error_text (show_err e)), r)"
      using connect_err_frame assms(3) by blast
    then show ?thesis using assms(4,5) c sent Inl by (auto simp: quic_tunnel_def splice_data_stream_def)
  qed
qed

theorem tunnel_ends_agree_witness:
  "splice_data_stream (\<lambda>_. []) (\<lambda>_. Inr ()) True Sent_all (frame_bytes (Connect 0 ''http://h'') @ [1, 2])
     = (frame_bytes (ConnectOk 0), Spliced () [1, 2]) \<and>
   snd (quic_tunnel (\<lambda>_. []) id (Inr 0) Sent_all None ''http://h'' (frame_bytes (ConnectOk 0) @ [3])) = Inr [3]"
proof -
  let ?c = "frame_bytes (Connect 0 ''http://h'')" and ?a = "frame_bytes (ConnectOk 0)"
  have url: "is_str ''http://h''" by (simp add: is_str_def utf8_valid_ascii as_bytes_def)
  have c: "frame (Connect 0 ''http://h'') = Inr ?c" "frame (ConnectOk 0) = Inr ?a"
    by (simp_all add: frame_Inr wire_limits)
  obtain opened where q: "quic_tunnel (\<lambda>_. []) id (Inr 0) Sent_all None ''http://h'' (?a @ [3]) = (?c, opened)"
    using c by (auto simp: quic_tunnel_def)
  have "read_frame (?c @ [1, 2]) = Inr (Connect 0 ''http://h'', [1, 2])"
    using connect_frame [OF url, of 0] c(1) by (simp add: wire_limits)
  then obtain spliced where s: "splice_data_stream (\<lambda>_. []) (\<lambda>_. Inr ()) True Sent_all (?c @ [1, 2]) = (?a, spliced)"
    using c(2) by (auto simp: splice_data_stream_def)
  have "\<forall>e :: io_error. is_str ((\<lambda>_. []) e)" by (simp add: is_str_def utf8_valid_ascii as_bytes_def)
  from tunnel_ends_agree [OF url _ this q s] q s show ?thesis by simp
qed

end
