(* ===== verification/Wss_Link.thy ===== *)
theory Wss_Link
  imports Wire Names Resources_Api Connector_Client
begin

text \<open>
  The WebSocket that carries every tunnel of a session when QUIC is not available: how the connector
  opens it (\<open>crates/connector/src/transport_wss.rs\<close>), and the reading and writing loops at both ends
  (there and in \<open>crates/server/src/transport/websocket.rs\<close>). The WebSocket library's answers are
  parameters; what a read gives is a frame, an error, the end of the stream, or nothing in time.
\<close>

datatype ws_frame = Binary "byte list" | Close_frame | Control_frame
datatype ws_read = Frame ws_frame | Ws_error string | Stream_end | Idle

section \<open>Opening\<close>

text \<open>\<open>str::replacen\<close> with a count of one.\<close>

fun replace_first :: "string \<Rightarrow> string \<Rightarrow> string \<Rightarrow> string" where
  "replace_first pat new [] = (if pat = [] then new else [])"
| "replace_first pat new (c # cs) =
     (if prefix pat (c # cs) then new @ drop (length pat) (c # cs) else c # replace_first pat new cs)"

definition wss_url :: "transport_config \<Rightarrow> string" where
  "wss_url tc = replace_first ''https://'' ''wss://'' (tc_server tc) @ ''/api/connector/connect''"

definition wss_authorization :: "transport_config \<Rightarrow> string" where
  "wss_authorization tc = ''Bearer '' @ tc_token tc"

definition timed_out :: "string \<Rightarrow> io_error" where
  "timed_out what = (TimedOut, Msg (what @ '' timed out''))"

record 'c ws_lib =
  client_request :: "string \<Rightarrow> string + unit"
  header_value :: "string \<Rightarrow> string + unit"
  tcp_connect :: "ip_addr \<times> u16 \<Rightarrow> unit io_result option"             \<comment> \<open>\<open>None\<close>: not in time\<close>
  set_nodelay :: "ip_addr \<times> u16 \<Rightarrow> unit io_result"
  upgrade :: "ip_addr \<times> u16 \<Rightarrow> string \<Rightarrow> string \<Rightarrow> (string + 'c) option"

definition other_error :: "string + 'a \<Rightarrow> 'a io_result" where
  "other_error r = (case r of Inl e \<Rightarrow> Inl (OtherKind, Msg e) | Inr x \<Rightarrow> Inr x)"

definition wss_connect :: "'c ws_lib \<Rightarrow> url_lib \<Rightarrow> resolver \<Rightarrow> transport_config \<Rightarrow> 'c io_result" where
  "wss_connect ws url_parse lookup tc =
     and_then (other_error (client_request ws (wss_url tc))) (\<lambda>_.
     and_then (other_error (header_value ws (wss_authorization tc))) (\<lambda>_.
       connect_any url_parse lookup (\<lambda>addr.
         and_then (case tcp_connect ws addr of None \<Rightarrow> Inl (timed_out ''WSS TCP connect'') | Some r \<Rightarrow> r) (\<lambda>_.
         and_then (set_nodelay ws addr) (\<lambda>_.
           case upgrade ws addr (wss_url tc) (wss_authorization tc) of
             None \<Rightarrow> Inl (timed_out ''WSS handshake'') | Some r \<Rightarrow> other_error r))) tc))"

section \<open>The connector's loops\<close>

text \<open>\<open>WssSession::recv\<close>: the next message and the reads left; \<open>None\<close> while it waits.\<close>

fun wss_recv :: "ws_read list \<Rightarrow> (message option io_result \<times> ws_read list) option" where
  "wss_recv [] = None"
| "wss_recv (Frame f # reads) = (case f of
       Binary data \<Rightarrow> Some (and_then (decode data) (\<lambda>m. Inr (Some m)), reads)
     | Close_frame \<Rightarrow> Some (Inr None, reads)
     | Control_frame \<Rightarrow> wss_recv reads)"
| "wss_recv (Stream_end # reads) = Some (Inr None, reads)"
| "wss_recv (Ws_error e # reads) = Some (Inl (OtherKind, Msg e), reads)"
| "wss_recv (Idle # reads) = Some (Inl (timed_out ''WSS read waiting for ping or data''), reads)"

text \<open>The reading side of \<open>WssSession::run\<close>: the messages handed to the \<open>SessionManager\<close>, in order, and
  the result once the session ends.\<close>

lemma wss_recv_shorter [termination_simp]: "wss_recv reads = Some (r, reads') \<Longrightarrow> length reads' < length reads"
proof (induction reads rule: wss_recv.induct)
  case (2 f reads)
  then show ?case by (cases f) auto
qed auto

function wss_run_reads :: "ws_read list \<Rightarrow> message list \<times> unit io_result option" where
  "wss_run_reads reads = (case wss_recv reads of
       None \<Rightarrow> ([], None)
     | Some (Inl e, _) \<Rightarrow> ([], Some (Inl e))
     | Some (Inr None, _) \<Rightarrow> ([], Some (Inr ()))
     | Some (Inr (Some m), reads') \<Rightarrow> (case wss_run_reads reads' of (ms, r) \<Rightarrow> (m # ms, r)))"
  by pat_completeness auto
termination
  by (relation "measure length") (auto dest: wss_recv_shorter)

declare wss_run_reads.simps [simp del]

text \<open>The writing side: a message of the outbound queue as a frame for the writer.\<close>

definition connector_frame :: "message \<Rightarrow> ws_frame io_result" where
  "connector_frame msg = and_then (encode msg) (\<lambda>b. Inr (Binary b))"

section \<open>The server's loops\<close>

text \<open>One turn of the reading loop: a message to handle, nothing, or the end with the problem logged.\<close>

datatype read_turn = Handle message | Go_on | Over "string option"

definition read_turn :: "(io_error \<Rightarrow> string) \<Rightarrow> ws_read \<Rightarrow> read_turn" where
  "read_turn show_error r = (case r of
       Frame (Binary data) \<Rightarrow> (case decode data of
           Inr msg \<Rightarrow> Handle msg | Inl e \<Rightarrow> Over (Some (''bad message: '' @ show_error e)))
     | Frame Close_frame \<Rightarrow> Over None
     | Stream_end \<Rightarrow> Over None
     | Frame Control_frame \<Rightarrow> Go_on
     | Ws_error e \<Rightarrow> Over (Some e)
     | Idle \<Rightarrow> Over (Some ''idle timeout''))"

text \<open>One turn of the writing loop: what the \<open>select!\<close> picked, and the frame to send or \<open>None\<close> to stop. A ping
  is a control frame.\<close>

datatype write_pick = From_queue "message option" | Ping_due | Shut_down

definition write_turn :: "write_pick \<Rightarrow> ws_frame option" where
  "write_turn p = (case p of
       From_queue (Some msg) \<Rightarrow> (case encode msg of Inr body \<Rightarrow> Some (Binary body) | Inl _ \<Rightarrow> None)
     | From_queue None \<Rightarrow> None
     | Ping_due \<Rightarrow> Some Control_frame
     | Shut_down \<Rightarrow> None)"

text \<open>The reading loop over what arrives: the messages handled, and the problem once it is over.\<close>

fun server_reads :: "(io_error \<Rightarrow> string) \<Rightarrow> ws_read list \<Rightarrow> message list \<times> string option option" where
  "server_reads show_error [] = ([], None)"
| "server_reads show_error (r # reads) = (case read_turn show_error r of
       Handle msg \<Rightarrow> (case server_reads show_error reads of (ms, e) \<Rightarrow> (msg # ms, e))
     | Go_on \<Rightarrow> server_reads show_error reads
     | Over e \<Rightarrow> ([], Some e))"

section \<open>Lemmas\<close>

lemma wire_decoded: "wf_message m \<Longrightarrow> encode m = Inr b \<Longrightarrow> decode b = Inr (wire_form m)"
  by (auto simp: encode_Inr decode_Inr on_wire_def)

text \<open>A frame sequence that carries some messages: their encodings in order, with control frames in
  between.\<close>

fun carries :: "ws_frame list \<Rightarrow> message list \<Rightarrow> bool" where
  "carries [] ms \<longleftrightarrow> ms = []"
| "carries (Control_frame # fs) ms \<longleftrightarrow> carries fs ms"
| "carries (Close_frame # fs) ms \<longleftrightarrow> False"
| "carries (Binary b # fs) ms \<longleftrightarrow>
     (case ms of [] \<Rightarrow> False | m # ms' \<Rightarrow> connector_frame m = Inr (Binary b) \<and> carries fs ms')"

lemma carries_Cons:
  assumes "carries (f # fs) ms" and "list_all wf_message ms"
  obtains "f = Control_frame" "carries fs ms"
  | b m ms' where "f = Binary b" "ms = m # ms'" "decode b = Inr (wire_form m)" "carries fs ms'" "list_all wf_message ms'"
proof (cases f)
  case (Binary b)
  then obtain m ms' where "ms = m # ms'" "encode m = Inr b" "carries fs ms'"
    using assms by (auto simp: connector_frame_def and_then_eq_Inr split: list.splits)
  then show ?thesis using that(2) [OF Binary] assms(2) wire_decoded by simp
qed (use assms that(1) in simp_all)

lemma server_reads_carried:
  "carries fs ms \<Longrightarrow> list_all wf_message ms \<Longrightarrow>
   server_reads show_error (map Frame fs @ reads) =
     (map wire_form ms @ fst (server_reads show_error reads), snd (server_reads show_error reads))"
proof (induction fs arbitrary: ms)
  case (Cons f fs)
  from carries_Cons [OF Cons(2,3)] show ?case
  proof cases
    case 1
    then show ?thesis using Cons(1) [OF 1(2) Cons(3)] by (simp add: read_turn_def)
  next
    case (2 b m ms')
    then show ?thesis using Cons(1) [OF 2(4,5)] by (simp add: read_turn_def)
  qed
qed simp

lemma wss_run_control: "wss_run_reads (Frame Control_frame # reads) = wss_run_reads reads"
  by (subst (1 2) wss_run_reads.simps) simp

lemma wss_run_binary:
  "decode b = Inr m \<Longrightarrow> wss_run_reads (Frame (Binary b) # reads) = (m # fst (wss_run_reads reads), snd (wss_run_reads reads))"
  by (subst (1) wss_run_reads.simps) (simp add: split_def)

lemma wss_run_carried:
  "carries fs ms \<Longrightarrow> list_all wf_message ms \<Longrightarrow>
   wss_run_reads (map Frame fs @ reads) = (map wire_form ms @ fst (wss_run_reads reads), snd (wss_run_reads reads))"
proof (induction fs arbitrary: ms)
  case (Cons f fs)
  from carries_Cons [OF Cons(2,3)] show ?case
  proof cases
    case 1
    then show ?thesis using Cons(1) [OF 1(2) Cons(3)] by (simp add: wss_run_control)
  next
    case (2 b m ms')
    then show ?thesis using Cons(1) [OF 2(4,5)] by (simp add: wss_run_binary)
  qed
qed simp

lemma wss_run_over: "wss_run_reads (Frame Close_frame # reads) = ([], Some (Inr ()))"
  "wss_run_reads (Idle # reads) = ([], Some (Inl (timed_out ''WSS read waiting for ping or data'')))"
  "wss_run_reads [] = ([], None)"
  by (simp_all add: wss_run_reads.simps)

section \<open>Properties\<close>



text \<open>(C39) A target that passes the checks can be too long for a \<open>Connect\<close>: a user name in the authority of a
  URL is not part of its host, which is all that is checked. The writer stops at the first \<open>Connect\<close> for
  such a target, which ends the session and with it every tunnel of the connector.\<close>

theorem long_target_ends_session:
  assumes "url = ''http://'' @ user @ ''@10.0.0.5''" and "2048 \<le> length user"
    and "parse_uri libs url = Some \<lparr>uri_scheme = Some ''http'', uri_path_query = Some (''/'', None),
      uri_host = Some ''10.0.0.5'', uri_port = None\<rparr>"
  shows "create_check libs dns \<lparr>cr_subdomain = ''w'', cr_target = url, cr_connector_id = Some ''c'', cr_allowed = []\<rparr>
      = Inr (''w'', Some ''c'', [])
    \<and> write_turn (From_queue (Some (Connect sid url))) = None"
proof -
  have ip: "parse_ip ''10.0.0.5'' = Some (V4 (Ipv4 10 0 0 5))"
    using parse_show_ip [of "V4 (Ipv4 10 0 0 5)"] by (simp add: show_radix.simps digit_char_def char_of_def bit_Suc_0_iff)
  have lab: "is_valid_label ''w''" "is_valid_label ''c''"
    by (simp_all add: is_valid_label_def is_ascii_alphanumeric_def is_ascii_lower_def byte_of_def suffix_def
        Cons_eq_append_conv)
  then have names: "normalize_subdomain ''w'' = ''w''" "normalize_connector_id (Some ''c'') = Some ''c''"
    by (simp_all add: normalize_subdomain_def normalize_connector_id_def label_trim to_ascii_lowercase_def
        ascii_lower_def is_ascii_upper_def byte_of_def)
  have "validate_target libs dns url (Some ''c'') = Inr ()"
    using ip assms(3) by (simp add: validate_target_def parse_http_target_host_port_def unbracket_def strip_prefix_def
        check_ssrf_strict_def v4_strictly_dangerous_def)
  moreover have "\<not> is_ok (encode (Connect sid url))"
    using assms(1,2) by (simp add: encode_def encode_into_is_ok wire_limits)
  ultimately show ?thesis
    using lab names by (auto simp: create_check_def validate_subdomain_def parse_client_cidrs_def parse_allowlist_def
        write_turn_def is_ok_def split: sum.splits)
qed

theorem long_target_ends_session_witness:
  "let url = ''http://'' @ replicate 2048 CHR ''a'' @ ''@10.0.0.5'';
       libs = demo_libs\<lparr>parse_uri := (\<lambda>_. Some \<lparr>uri_scheme = Some ''http'', uri_path_query = Some (''/'', None),
         uri_host = Some ''10.0.0.5'', uri_port = None\<rparr>)\<rparr>
   in is_ok (create_check libs (\<lambda>_. None)
        \<lparr>cr_subdomain = ''w'', cr_target = url, cr_connector_id = Some ''c'', cr_allowed = []\<rparr>)
    \<and> write_turn (From_queue (Some (Connect 1 url))) = None"
proof -
  let ?url = "''http://'' @ replicate 2048 CHR ''a'' @ ''@10.0.0.5''"
  let ?libs = "demo_libs\<lparr>parse_uri := (\<lambda>_. Some \<lparr>uri_scheme = Some ''http'', uri_path_query = Some (''/'', None),
         uri_host = Some ''10.0.0.5'', uri_port = None\<rparr>)\<rparr>"
  have "parse_uri ?libs ?url = Some \<lparr>uri_scheme = Some ''http'', uri_path_query = Some (''/'', None),
         uri_host = Some ''10.0.0.5'', uri_port = None\<rparr>" by simp
  from long_target_ends_session [OF refl _ this, of "\<lambda>_. None" 1] show ?thesis
    by (simp only: Let_def length_replicate order_refl simp_thms is_ok_simps)
qed

end
