(* ===== verification/Transport.thy ===== *)
theory Transport
  imports Api_Runs Wss_Link Quic_Tunnel
begin

text \<open>
  The connectors' sessions on the server (\<open>crates/server/src/transport/\<close>): how one is admitted with its
  token over QUIC or a WebSocket, registered, stamped, served and taken out again, with the API, the
  tunnels and restarts interleaved. A token is checked under the read lock and the session registered
  later, so these are separate steps.
\<close>

declare map_of_eq_Some_iff [simp del] and Some_eq_map_of_iff [simp del]

definition MAX_CONNECTOR_SESSIONS :: nat where
  "MAX_CONNECTOR_SESSIONS = 64"

text \<open>Where a session is: its token was accepted, it is registered, its connect was stamped and it is
  served, it ended and is no longer registered.\<close>

datatype session_phase = Admitted | Registered | Served | Unregistered

record ('n, 'q, 'l) transports =
  tr_state :: "('n, 'q, 'l) global_state"
  quic_free :: nat
  wss_free :: nat
  links :: "nat \<Rightarrow> (link \<times> string \<times> session_phase) option"

definition transports_new :: "('n, 'q, 'l) global_state \<Rightarrow> ('n, 'q, 'l) transports" where
  "transports_new g = \<lparr>tr_state = g, quic_free = MAX_CONNECTOR_SESSIONS, wss_free = MAX_CONNECTOR_SESSIONS,
     links = (\<lambda>_. None)\<rparr>"

abbreviation registry_of :: "('n, 'q, 'l) transports \<Rightarrow> registry" where
  "registry_of t \<equiv> ctx_connectors (proxy_ctx (tr_state t))"

definition set_registry :: "registry \<Rightarrow> ('n, 'q, 'l) transports \<Rightarrow> ('n, 'q, 'l) transports" where
  "set_registry r t = t\<lparr>tr_state := (tr_state t)\<lparr>proxy_ctx := (proxy_ctx (tr_state t))\<lparr>ctx_connectors := r\<rparr>\<rparr>\<rparr>"

section \<open>Admission\<close>

text \<open>The token of a QUIC connection: \<open>control\<close> is what its first stream delivers, or why there is none.\<close>

definition quic_token :: "(io_error \<Rightarrow> string) \<Rightarrow> bool \<Rightarrow> string + byte list \<Rightarrow> string + string" where
  "quic_token show_error in_time control =
     (if \<not> in_time then Inl ''auth timed out''
      else and_then control (\<lambda>recv. case read_frame recv of
        Inl e \<Rightarrow> Inl (show_error e)
      | Inr (Auth token, _) \<Rightarrow> Inr token
      | Inr _ \<Rightarrow> Inl ''first frame was not Auth''))"

definition quic_auth ::
  "(io_error \<Rightarrow> string) \<Rightarrow> 'n libs \<Rightarrow> bool \<Rightarrow> string + byte list \<Rightarrow> app_state \<Rightarrow> string + string" where
  "quic_auth show_error libs in_time control st =
     and_then (quic_token show_error in_time control) (\<lambda>token.
       ok_or (map_option conn_id (connector_from_token libs st token)) ''invalid token'')"

definition connector_connect ::
  "'n libs \<Rightarrow> headers \<Rightarrow> ('n, 'q, 'l) transports \<Rightarrow> (status \<times> string) + string" where
  "connector_connect libs headers t =
     (case (case bearer_token headers of
              Some token \<Rightarrow> map_option conn_id (connector_from_token libs (app (tr_state t)) token) | None \<Rightarrow> None) of
        None \<Rightarrow> Inl (UNAUTHORIZED, ''Invalid token'')
      | Some cid \<Rightarrow>
          if wss_free t = 0 then Inl (SERVICE_UNAVAILABLE, ''Too many connector connections'') else Inr cid)"

section \<open>Sessions\<close>

definition admit :: "nat \<Rightarrow> link \<Rightarrow> string \<Rightarrow> ('n, 'q, 'l) transports \<Rightarrow> ('n, 'q, 'l) transports" where
  "admit p l cid t = t\<lparr>links := (links t)(p \<mapsto> (l, cid, Admitted)),
     wss_free := (if l = Wss then wss_free t - 1 else wss_free t)\<rparr>"

definition enter :: "nat \<Rightarrow> link \<Rightarrow> string \<Rightarrow> ('n, 'q, 'l) transports \<Rightarrow> ('n, 'q, 'l) transports" where
  "enter p l cid t = set_registry (session_up p cid l (registry_of t)) (t\<lparr>links := (links t)(p \<mapsto> (l, cid, Registered))\<rparr>)"

text \<open>The start of \<open>run_session\<close>. A QUIC session takes its permit here and is refused without one.\<close>

definition go_live :: "nat \<Rightarrow> ('n, 'q, 'l) transports \<Rightarrow> ('n, 'q, 'l) transports option" where
  "go_live p t = (case links t p of
       Some (l, cid, Admitted) \<Rightarrow> Some
         (if l = Wss then enter p l cid t
          else if quic_free t = 0 then t\<lparr>links := (links t)(p := None)\<rparr>
          else (enter p l cid t)\<lparr>quic_free := quic_free t - 1\<rparr>)
     | _ \<Rightarrow> None)"

definition stamped :: "nat \<Rightarrow> nat \<Rightarrow> ('n, 'q, 'l) transports \<Rightarrow> ('n, 'q, 'l) transports option" where
  "stamped now p t = (case links t p of
       Some (l, cid, Registered) \<Rightarrow>
         Some (t\<lparr>tr_state := set_last_seen now cid (tr_state t), links := (links t)(p \<mapsto> (l, cid, Served))\<rparr>)
     | Some (l, cid, Unregistered) \<Rightarrow>
         Some (t\<lparr>tr_state := set_last_seen now cid (tr_state t), links := (links t)(p := None),
           quic_free := (if l = Quic then quic_free t + 1 else quic_free t),
           wss_free := (if l = Wss then wss_free t + 1 else wss_free t)\<rparr>)
     | _ \<Rightarrow> None)"

definition session_over :: "nat \<Rightarrow> ('n, 'q, 'l) transports \<Rightarrow> ('n, 'q, 'l) transports option" where
  "session_over p t = (case (links t p, sessions (registry_of t) p) of
       (Some (l, cid, Served), Some m) \<Rightarrow>
         Some (set_registry (unregister_manager p m (registry_of t)) (t\<lparr>links := (links t)(p \<mapsto> (l, cid, Unregistered))\<rparr>))
     | _ \<Rightarrow> None)"

text \<open>A message read from the WebSocket goes to the session's \<open>handle_message\<close>.\<close>

definition deliver :: "nat \<Rightarrow> message \<Rightarrow> ('n, 'q, 'l) transports \<Rightarrow> ('n, 'q, 'l) transports option" where
  "deliver p msg t = (case (links t p, sessions (registry_of t) p) of
       (Some (Wss, cid, Served), Some m) \<Rightarrow>
         Some (set_registry ((registry_of t)\<lparr>sessions := (sessions (registry_of t))(p \<mapsto> handle_message msg m)\<rparr>) t)
     | _ \<Rightarrow> None)"

section \<open>Runs of the whole server\<close>

datatype transport_event = Token_ok nat link string | Upgrade_failed nat | Go_live nat | Stamped nat | Session_over nat
  | From_connector nat message | Tunnel nat manager_event | Api api_event | Disconnect | Edge_traffic | Server_restart

inductive transport_step :: "(io_error \<Rightarrow> string) \<Rightarrow> 'n libs \<Rightarrow> ('q, 'l) governor \<Rightarrow> ('n, 'q, 'l) transports
    \<Rightarrow> transport_event \<Rightarrow> ('n, 'q, 'l) transports \<Rightarrow> bool" for show_error libs gov where
  quic: "links t p = None \<Longrightarrow> sessions (registry_of t) p = None \<Longrightarrow>
    quic_auth show_error libs in_time control (app (tr_state t)) = Inr cid \<Longrightarrow>
    transport_step show_error libs gov t (Token_ok p Quic cid) (admit p Quic cid t)"
| wss: "links t p = None \<Longrightarrow> sessions (registry_of t) p = None \<Longrightarrow> connector_connect libs headers t = Inr cid \<Longrightarrow>
    transport_step show_error libs gov t (Token_ok p Wss cid) (admit p Wss cid t)"
| no_upgrade: "links t p = Some (Wss, cid, Admitted) \<Longrightarrow>
    transport_step show_error libs gov t (Upgrade_failed p) (t\<lparr>links := (links t)(p := None), wss_free := wss_free t + 1\<rparr>)"
| live: "go_live p t = Some t' \<Longrightarrow> transport_step show_error libs gov t (Go_live p) t'"
| stamp: "stamped now p t = Some t' \<Longrightarrow> transport_step show_error libs gov t (Stamped p) t'"
| over: "session_over p t = Some t' \<Longrightarrow> transport_step show_error libs gov t (Session_over p) t'"
| frame: "read_turn show_error r = Handle msg \<Longrightarrow> deliver p msg t = Some t' \<Longrightarrow>
    transport_step show_error libs gov t (From_connector p msg) t'"
| tunnel: "registry_step (registry_of t) (Session_step p e) r' \<Longrightarrow> e \<noteq> Shutdown \<Longrightarrow> \<forall>msg. e \<noteq> Receive msg \<Longrightarrow>
    transport_step show_error libs gov t (Tunnel p e) (set_registry r' t)"
| api: "api_step libs gov (tr_state t) e g' \<Longrightarrow> e \<noteq> Edge_changed \<Longrightarrow> e \<noteq> Restart \<Longrightarrow>
    transport_step show_error libs gov t (Api e) (t\<lparr>tr_state := g'\<rparr>)"
| disconnect: "Connectors_Api.connector_disconnect libs headers (tr_state t) = (res, g') \<Longrightarrow>
    transport_step show_error libs gov t Disconnect (t\<lparr>tr_state := g'\<rparr>)"
| traffic: "transport_step show_error libs gov t Edge_traffic (t\<lparr>tr_state := (tr_state t)\<lparr>proxy_ctx :=
    (proxy_ctx (tr_state t))\<lparr>dns_cache := dns, limits := lim\<rparr>\<rparr>\<rparr>)"
| restart: "api_step libs gov (tr_state t) Restart g' \<Longrightarrow>
    transport_step show_error libs gov t Server_restart (transports_new g')"

inductive_cases transport_stepE: "transport_step show_error libs gov t e t'"

section \<open>Invariant\<close>

text \<open>The sessions that hold a permit of a transport.\<close>

definition held :: "link \<Rightarrow> ('n, 'q, 'l) transports \<Rightarrow> nat set" where
  "held l t = {p. \<exists>cid ph. links t p = Some (l, cid, ph) \<and> (l = Wss \<or> ph \<noteq> Admitted)}"

definition permits_ok :: "('n, 'q, 'l) transports \<Rightarrow> bool" where
  "permits_ok t \<longleftrightarrow> finite (dom (links t))
     \<and> quic_free t + card (held Quic t) = MAX_CONNECTOR_SESSIONS \<and> wss_free t + card (held Wss t) = MAX_CONNECTOR_SESSIONS"

text \<open>A session is in the heap once it is registered, under its connector; every entry of the registry is a
  session in service.\<close>

definition links_ok :: "('n, 'q, 'l) transports \<Rightarrow> bool" where
  "links_ok t \<longleftrightarrow> registry_inv (registry_of t)
     \<and> (\<forall>p l cid ph. links t p = Some (l, cid, ph) \<longrightarrow>
          (if ph = Admitted then sessions (registry_of t) p = None
           else \<exists>m. sessions (registry_of t) p = Some m \<and> connector_id m = cid))
     \<and> (\<forall>cid p. map_of (managers (registry_of t)) cid = Some p \<longrightarrow>
          (\<exists>l ph. links t p = Some (l, cid, ph) \<and> (ph = Registered \<or> ph = Served)))"

definition transport_inv :: "'n libs \<Rightarrow> ('n, 'q, 'l) transports \<Rightarrow> bool" where
  "transport_inv libs t \<longleftrightarrow> permits_ok t \<and> links_ok t \<and> global_ok libs (tr_state t)"

lemma set_registry_sel [simp]: "registry_of (set_registry r t) = r" "links (set_registry r t) = links t"
  "quic_free (set_registry r t) = quic_free t" "wss_free (set_registry r t) = wss_free t"
  "app (tr_state (set_registry r t)) = app (tr_state t)"
  by (simp_all add: set_registry_def)

text \<open>What the steps that change no link do to the registry: no session is added or dropped, and no entry
  added.\<close>

definition registry_shrinks :: "registry \<Rightarrow> registry \<Rightarrow> bool" where
  "registry_shrinks r r' \<longleftrightarrow> (registry_inv r \<longrightarrow> registry_inv r')
     \<and> (\<forall>p. map_option connector_id (sessions r' p) = map_option connector_id (sessions r p))
     \<and> (\<forall>cid p. map_of (managers r') cid = Some p \<longrightarrow> map_of (managers r) cid = Some p)"

lemma registry_shrinks_refl [simp]: "registry_shrinks r r"
  by (simp add: registry_shrinks_def)

lemma unregister_shrinks [simp]: "registry_shrinks r (unregister cid r)"
proof -
  have "map_option connector_id (sessions (unregister cid r) p) = map_option connector_id (sessions r p)" for p
    by (cases "sessions r p") (auto simp: unregister_def split: option.splits)
  then show ?thesis
    using registry_step_inv [OF _ registry_step.kick, of r cid]
    by (auto simp: registry_shrinks_def unregister_def map_of_delete split: option.splits if_splits)
qed

lemma session_step_shrinks:
  assumes "registry_step r (Session_step p e) r'"
  shows "registry_shrinks r r'"
proof -
  obtain m m' where m: "sessions r p = Some m" "manager_step m e m'" "r' = r\<lparr>sessions := (sessions r)(p \<mapsto> m')\<rparr>"
    using assms by (auto elim: registry_step.cases)
  then have "connector_id m' = connector_id m" using manager_step_const by blast
  then show ?thesis using registry_step_inv [OF _ assms] m by (auto simp: registry_shrinks_def)
qed

lemma api_registry:
  assumes "api_step libs gov g e g'" and "e \<noteq> Edge_changed" and "e \<noteq> Restart"
  shows "registry_shrinks (ctx_connectors (proxy_ctx g)) (ctx_connectors (proxy_ctx g'))"
  using assms(1)
proof cases
  case (create dns req checked random out res)
  then show ?thesis
    by (auto simp: create_locked_def Let_def publish_def dest!: save_state_sel split: if_splits prod.splits bool.splits)
next
  case (update earlier dns i req r out res)
  then show ?thesis
    by (auto simp: update_commit_def Let_def publish_def dest!: save_state_sel split: if_splits prod.splits bool.splits option.splits)
next
  case (delete out i res)
  then show ?thesis
    by (auto simp: delete_locked_def Let_def dest!: save_state_sel split: if_splits prod.splits bool.splits option.splits)
next
  case (new_connector new_id name repo version token out res)
  then show ?thesis
    by (auto simp: create_connector_locked_def Let_def dest!: save_state_sel split: if_splits prod.splits bool.splits)
next
  case (change_connector out now cid wss res)
  then show ?thesis
    by (auto simp: update_connector_locked_def Let_def kick_def save_state_def split: if_splits prod.splits bool.splits option.splits)
next
  case (drop_connector out cid res)
  then show ?thesis
    by (auto simp: delete_connector_locked_def Let_def kick_def dest!: save_state_sel split: if_splits prod.splits bool.splits option.splits)
next
  case (rotate repo version token out cid res)
  then show ?thesis
    by (auto simp: regenerate_locked_def Let_def kick_def dest!: save_state_sel split: if_splits prod.splits bool.splits option.splits)
next
  case (set_up a j req earlier checked out secret res)
  then show ?thesis
    by (auto simp: setup_locked_def Let_def dest!: save_state_sel split: if_splits prod.splits bool.splits)
next
  case (stamp cid now)
  then show ?thesis by (simp add: set_last_seen_def split: option.splits)
qed (use assms(2,3) in simp_all)

lemma links_ok_shrinks:
  assumes "links_ok t" and "registry_shrinks (registry_of t) (registry_of t')" and "links t' = links t"
  shows "links_ok t'"
proof -
  have same: "sessions (registry_of t') p = None \<longleftrightarrow> sessions (registry_of t) p = None"
    "(\<exists>m. sessions (registry_of t') p = Some m \<and> connector_id m = cid) \<longleftrightarrow>
     (\<exists>m. sessions (registry_of t) p = Some m \<and> connector_id m = cid)" for p cid
    using assms(2) unfolding registry_shrinks_def
    by (cases "sessions (registry_of t) p"; cases "sessions (registry_of t') p"; metis option.map_disc_iff option.distinct(1) option.inject option.map(2))+
  show ?thesis
    using assms(1,2) unfolding links_ok_def assms(3) same by (auto simp: registry_shrinks_def)
qed

subsection \<open>Permits\<close>

lemma held_finite: "finite (dom (links t)) \<Longrightarrow> finite (held l t)"
  by (rule finite_subset [of _ "dom (links t)"]) (auto simp: held_def)

lemma held_upd:
  "links t' = (links t)(p := x) \<Longrightarrow> held l t' =
     (if \<exists>cid ph. x = Some (l, cid, ph) \<and> (l = Wss \<or> ph \<noteq> Admitted) then insert p (held l t) else held l t - {p})"
  by (auto simp: held_def)

text \<open>A session that takes, keeps or gives up a permit.\<close>

lemma permits_upd:
  assumes ok: "permits_ok t" and links: "links t' = (links t)(p := x)"
    and quic: "quic_free t' + card (held Quic t') = quic_free t + card (held Quic t)"
    and wss: "wss_free t' + card (held Wss t') = wss_free t + card (held Wss t)"
  shows "permits_ok t'"
proof -
  have "dom (links t') \<subseteq> insert p (dom (links t))" by (auto simp: links split: if_splits)
  then have "finite (dom (links t'))" using ok by (meson finite_insert finite_subset permits_ok_def)
  then show ?thesis using ok quic wss by (simp add: permits_ok_def)
qed

lemma card_held_upd:
  assumes "permits_ok t" and "links t' = (links t)(p := x)"
  shows "card (held l t') + (if p \<in> held l t then 1 else 0) = card (held l t) +
    (if \<exists>cid ph. x = Some (l, cid, ph) \<and> (l = Wss \<or> ph \<noteq> Admitted) then 1 else 0)"
proof -
  have "finite (held l t)" by (rule held_finite) (use assms(1) in \<open>simp add: permits_ok_def\<close>)
  then show ?thesis
    using card_Suc_Diff1 [of "held l t" p] by (auto simp: held_upd [OF assms(2)] card_insert_if)
qed

lemma held_iff: "p \<in> held l t \<longleftrightarrow> (\<exists>cid ph. links t p = Some (l, cid, ph) \<and> (l = Wss \<or> ph \<noteq> Admitted))"
  by (simp add: held_def)

lemma permits_step:
  assumes ok: "permits_ok t" and links: "links t' = (links t)(p := x)"
    and quic: "quic_free t' + (if \<exists>cid ph. x = Some (Quic, cid, ph) \<and> ph \<noteq> Admitted then 1 else 0) =
      quic_free t + (if p \<in> held Quic t then 1 else 0)"
    and wss: "wss_free t' + (if \<exists>cid ph. x = Some (Wss, cid, ph) then 1 else 0) = wss_free t + (if p \<in> held Wss t then 1 else 0)"
  shows "permits_ok t'"
proof (rule permits_upd [OF ok links])
  show "quic_free t' + card (held Quic t') = quic_free t + card (held Quic t)"
    using card_held_upd [OF ok links, of Quic] quic by (simp split: if_splits)
  show "wss_free t' + card (held Wss t') = wss_free t + card (held Wss t)"
    using card_held_upd [OF ok links, of Wss] wss by (simp split: if_splits)
qed

lemma permits_same: "permits_ok t \<Longrightarrow> links t' = links t \<Longrightarrow> quic_free t' = quic_free t \<Longrightarrow> wss_free t' = wss_free t \<Longrightarrow> permits_ok t'"
  by (simp add: permits_ok_def held_def)

lemma link_cases: "l = Quic \<or> l = Wss" for l :: link
  by (cases l) auto

lemma admit_permits:
  assumes "permits_ok t" and "links t p = None" and "l = Wss \<Longrightarrow> wss_free t \<noteq> 0"
  shows "permits_ok (admit p l cid t)"
  using assms(2,3)
  by (cases l; intro permits_step [OF assms(1), of _ p "Some (l, cid, Admitted)"]) (simp_all add: admit_def held_iff)

lemma go_live_permits:
  assumes "permits_ok t" and "go_live p t = Some t'"
  shows "permits_ok t'"
proof -
  obtain l cid where p: "links t p = Some (l, cid, Admitted)"
    using assms(2) by (auto simp: go_live_def split: option.splits prod.splits session_phase.splits)
  show ?thesis
  proof (cases "l = Wss \<or> quic_free t \<noteq> 0")
    case True
    then show ?thesis using assms(2) p
      by (cases l; intro permits_step [OF assms(1), of t' p "Some (l, cid, Registered)"])
        (auto simp: go_live_def enter_def held_iff split: if_splits)
  next
    case False
    then have "l = Quic" using link_cases by blast
    then show ?thesis using False assms(2) p
      by (intro permits_step [OF assms(1), of t' p None]) (auto simp: go_live_def held_iff)
  qed
qed

lemma stamped_permits:
  assumes "permits_ok t" and "stamped now p t = Some t'"
  shows "permits_ok t'"
proof -
  obtain l cid ph where p: "links t p = Some (l, cid, ph)" "ph = Registered \<or> ph = Unregistered"
    using assms(2) by (auto simp: stamped_def split: option.splits prod.splits session_phase.splits)
  from p(2) show ?thesis
  proof
    assume "ph = Registered"
    then show ?thesis using assms(2) p(1)
      by (cases l; intro permits_step [OF assms(1), of t' p "Some (l, cid, Served)"]) (auto simp: stamped_def held_iff)
  next
    assume "ph = Unregistered"
    then show ?thesis using assms(2) p(1)
      by (cases l; intro permits_step [OF assms(1), of t' p None]) (auto simp: stamped_def held_iff)
  qed
qed

lemma session_over_permits:
  assumes "permits_ok t" and "session_over p t = Some t'"
  shows "permits_ok t'"
proof -
  obtain l cid where p: "links t p = Some (l, cid, Served)"
    using assms(2) by (auto simp: session_over_def split: option.splits prod.splits session_phase.splits)
  then show ?thesis using assms(2)
    by (cases l; intro permits_step [OF assms(1), of t' p "Some (l, cid, Unregistered)"])
      (auto simp: session_over_def held_iff split: option.splits)
qed

subsection \<open>Links\<close>

lemma links_okD:
  assumes "links_ok t"
  shows "registry_inv (registry_of t)"
    and "links t p = Some (l, cid, Admitted) \<Longrightarrow> sessions (registry_of t) p = None"
    and "links t p = Some (l, cid, ph) \<Longrightarrow> ph \<noteq> Admitted \<Longrightarrow> \<exists>m. sessions (registry_of t) p = Some m \<and> connector_id m = cid"
    and "map_of (managers (registry_of t)) cid = Some p \<Longrightarrow> \<exists>l ph. links t p = Some (l, cid, ph) \<and> (ph = Registered \<or> ph = Served)"
  using assms unfolding links_ok_def by metis+

text \<open>Changing the link of a session that has no entry.\<close>

lemma links_ok_upd:
  assumes ok: "links_ok t" and reg: "registry_of t' = registry_of t" and links: "links t' = (links t)(p := x)"
    and none: "\<And>cid. map_of (managers (registry_of t)) cid = Some p \<Longrightarrow> \<exists>l ph. x = Some (l, cid, ph) \<and> (ph = Registered \<or> ph = Served)"
    and new: "\<And>l cid ph. x = Some (l, cid, ph) \<Longrightarrow> if ph = Admitted then sessions (registry_of t) p = None
      else \<exists>m. sessions (registry_of t) p = Some m \<and> connector_id m = cid"
  shows "links_ok t'"
  unfolding links_ok_def reg links
proof (intro conjI allI impI)
  show "registry_inv (registry_of t)" by (rule links_okD(1) [OF ok])
next
  fix q l cid ph
  assume "((links t)(p := x)) q = Some (l, cid, ph)"
  then show "if ph = Admitted then sessions (registry_of t) q = None
      else \<exists>m. sessions (registry_of t) q = Some m \<and> connector_id m = cid"
    using links_okD(2,3) [OF ok] new by (auto split: if_splits)
next
  fix cid q
  assume "map_of (managers (registry_of t)) cid = Some q"
  then show "\<exists>l ph. ((links t)(p := x)) q = Some (l, cid, ph) \<and> (ph = Registered \<or> ph = Served)"
    using links_okD(4) [OF ok] none by auto
qed

lemma admit_links:
  assumes "links_ok t" and "links t p = None" and "sessions (registry_of t) p = None"
  shows "links_ok (admit p l cid t)"
  by (rule links_ok_upd [OF assms(1), of _ p "Some (l, cid, Admitted)"])
    (use assms(2,3) links_okD(4) [OF assms(1)] in \<open>fastforce simp: admit_def\<close>)+

lemma enter_links:
  assumes ok: "links_ok t" and p: "links t p = Some (l, cid, Admitted)"
  shows "links_ok (enter p l cid t)"
  unfolding links_ok_def
proof (intro conjI allI impI)
  let ?r = "registry_of t"
  have fresh: "sessions ?r p = None" by (rule links_okD(2) [OF ok p])
  have id: "connector_id (manager_new cid l) = cid" by (simp add: manager_new_def)
  show "registry_inv (registry_of (enter p l cid t))"
    using session_up_inv [OF links_okD(1) [OF ok] fresh] by (simp add: enter_def)
  have prev: "q \<noteq> p" if "map_of (managers ?r) c = Some q" for c q using links_okD(4) [OF ok that] p by auto
  have man: "managers (session_up p cid l ?r) = AList.update cid p (managers ?r)"
    by (simp add: session_up_def register_def id Let_def split: option.splits)
  have ses: "map_option connector_id (sessions (session_up p cid l ?r) q) =
      (if q = p then Some cid else map_option connector_id (sessions ?r q))" for q
    using prev by (cases "sessions ?r q")
      (auto simp: session_up_def register_def id fresh Let_def split: option.splits if_splits)
  show "\<exists>l' ph. links (enter p l cid t) q = Some (l', c, ph) \<and> (ph = Registered \<or> ph = Served)"
    if "map_of (managers (registry_of (enter p l cid t))) c = Some q" for c q
    using that links_okD(4) [OF ok, of c q] prev [of c q] by (auto simp: enter_def man map_of_update split: if_splits)
  fix q l' c ph
  assume q: "links (enter p l cid t) q = Some (l', c, ph)"
  show "if ph = Admitted then sessions (registry_of (enter p l cid t)) q = None
      else \<exists>m. sessions (registry_of (enter p l cid t)) q = Some m \<and> connector_id m = c"
  proof (cases "q = p")
    case True
    then show ?thesis using q ses [of p] by (auto simp: enter_def)
  next
    case False
    then have "links t q = Some (l', c, ph)" using q by (simp add: enter_def)
    then show ?thesis
      using ses [of q] False links_okD(2,3) [OF ok, of q l' c] by (fastforce simp: enter_def)
  qed
qed

lemma go_live_links:
  assumes ok: "links_ok t" and live: "go_live p t = Some t'"
  shows "links_ok t'"
proof -
  obtain l cid where p: "links t p = Some (l, cid, Admitted)"
    using live by (auto simp: go_live_def split: option.splits prod.splits session_phase.splits)
  have entered: "links_ok (enter p l cid t)" by (rule enter_links [OF ok p])
  show ?thesis
  proof (cases "l \<noteq> Wss \<and> quic_free t = 0")
    case True
    then have t': "t' = t\<lparr>links := (links t)(p := None)\<rparr>" using live p by (simp add: go_live_def)
    then show ?thesis using p
      by (intro links_ok_upd [OF ok, of t' p None]) (auto dest: links_okD(4) [OF ok])
  next
    case False
    then have "registry_of t' = registry_of (enter p l cid t)" "links t' = links (enter p l cid t)"
      using live p by (auto simp: go_live_def split: if_splits)
    then show ?thesis using entered by (simp add: links_ok_def)
  qed
qed

lemma set_last_seen_proxy [simp]: "proxy_ctx (set_last_seen now cid g) = proxy_ctx g"
  by (simp add: set_last_seen_def split: option.splits)

lemma stamped_links:
  assumes ok: "links_ok t" and st: "stamped now p t = Some t'"
  shows "links_ok t'"
proof -
  obtain l cid ph where p: "links t p = Some (l, cid, ph)" "ph = Registered \<or> ph = Unregistered"
    using st by (auto simp: stamped_def split: option.splits prod.splits session_phase.splits)
  note entry = links_okD(4) [OF ok, of _ p] and heap = links_okD(3) [OF ok p(1)]
  from p(2) show ?thesis
  proof
    assume ph: "ph = Registered"
    have t': "t' = t\<lparr>tr_state := set_last_seen now cid (tr_state t), links := (links t)(p \<mapsto> (l, cid, Served))\<rparr>"
      using st p(1) ph by (simp add: stamped_def)
    show ?thesis
      by (rule links_ok_upd [OF ok, of t' p "Some (l, cid, Served)"]) (use t' p entry heap ph in auto)
  next
    assume ph: "ph = Unregistered"
    show ?thesis
      by (rule links_ok_upd [OF ok, of t' p None]) (use st p entry ph in \<open>auto simp: stamped_def\<close>)
  qed
qed

lemma unregister_manager_shrinks:
  assumes "sessions r p = Some m"
  shows "registry_shrinks r (unregister_manager p m r)"
proof -
  have "map_option connector_id (sessions (unregister_manager p m r) q) = map_option connector_id (sessions r q)" for q
    by (cases "sessions r q") (auto simp: unregister_manager_def)
  then show ?thesis
    using registry_step_inv [OF _ registry_step.down [OF assms]]
    by (auto simp: registry_shrinks_def unregister_manager_def map_of_delete split: if_splits)
qed

lemma session_over_links:
  assumes ok: "links_ok t" and ov: "session_over p t = Some t'"
  shows "links_ok t'"
proof -
  obtain l cid m where p: "links t p = Some (l, cid, Served)" and m: "sessions (registry_of t) p = Some m"
    and t': "t' = set_registry (unregister_manager p m (registry_of t)) (t\<lparr>links := (links t)(p \<mapsto> (l, cid, Unregistered))\<rparr>)"
    using ov by (auto simp: session_over_def split: option.splits prod.splits session_phase.splits)
  have id: "connector_id m = cid" using links_okD(3) [OF ok p] m by auto
  let ?t = "set_registry (unregister_manager p m (registry_of t)) t"
  have ok': "links_ok ?t" by (rule links_ok_shrinks [OF ok]) (simp_all add: unregister_manager_shrinks [OF m])
  have "map_of (managers (registry_of ?t)) c \<noteq> Some p" for c
    using registry_entry [OF links_okD(1) [OF ok], of c p] m id
    by (auto simp: unregister_manager_def map_of_delete split: if_splits)
  moreover have "\<exists>n. sessions (registry_of ?t) p = Some n \<and> connector_id n = cid"
    using links_okD(3) [OF ok', of p l cid Served] p by simp
  ultimately show ?thesis
    by (intro links_ok_upd [OF ok', of t' p "Some (l, cid, Unregistered)"]) (simp_all add: t')
qed

subsection \<open>Every step\<close>

lemma global_ok_registry: "global_ok libs (tr_state (set_registry r t)) = global_ok libs (tr_state t)"
proof -
  have "routed libs R ((proxy_ctx (tr_state t))\<lparr>ctx_connectors := r\<rparr>) = routed libs R (proxy_ctx (tr_state t))" for R
    by (rule routed_cong) simp_all
  then show ?thesis by (simp add: set_registry_def global_ok_def ascii_domain_def)
qed

lemma global_ok_traffic: "global_ok libs (g\<lparr>proxy_ctx := (proxy_ctx g)\<lparr>dns_cache := dns, limits := lim\<rparr>\<rparr>) = global_ok libs g"
proof -
  have "routed libs R ((proxy_ctx g)\<lparr>dns_cache := dns, limits := lim\<rparr>) = routed libs R (proxy_ctx g)" for R
    by (rule routed_cong) simp_all
  then show ?thesis by (simp add: global_ok_def ascii_domain_def)
qed

lemma transport_inv_same:
  assumes "transport_inv libs t" and "registry_shrinks (registry_of t) (registry_of t')" and "links t' = links t"
    and "quic_free t' = quic_free t" and "wss_free t' = wss_free t" and "global_ok libs (tr_state t')"
  shows "transport_inv libs t'"
  using assms links_ok_shrinks permits_same unfolding transport_inv_def by blast

lemma admit_state [simp]: "tr_state (admit p l cid t) = tr_state t"
  by (simp add: admit_def)

lemma boot_registry: "ctx_connectors (proxy_ctx (boot libs gov d st)) = registry_default"
  by (simp add: boot_def Let_def proxy_context_new_def foldl_const [where g = ctx_connectors])

lemma transports_new_inv:
  assumes "global_ok libs (boot libs gov d st)"
  shows "transport_inv libs (transports_new (boot libs gov d st))"
  using assms registry_inv_default
  by (simp add: transport_inv_def permits_ok_def held_def links_ok_def transports_new_def boot_registry registry_default_def)

lemma api_restart: "api_step libs gov g Restart g' \<Longrightarrow> \<exists>d st. g' = boot libs gov d st"
  by (erule api_step.cases) auto

lemma transport_step_inv: "transport_inv libs t \<Longrightarrow> transport_step show_error libs gov t e t' \<Longrightarrow> transport_inv libs t'"
proof -
  assume inv: "transport_inv libs t" and step: "transport_step show_error libs gov t e t'"
  then have perm: "permits_ok t" and lnk: "links_ok t" and glob: "global_ok libs (tr_state t)"
    by (simp_all add: transport_inv_def)
  note same = transport_inv_same [OF inv]
  from step show "transport_inv libs t'"
  proof cases
    case (quic p in_time control cid)
    then show ?thesis using admit_permits [OF perm, of p Quic cid] admit_links [OF lnk] glob by (simp add: transport_inv_def)
  next
    case (wss p headers cid)
    then have "wss_free t \<noteq> 0" by (auto simp: connector_connect_def split: option.splits if_splits)
    then show ?thesis using wss admit_permits [OF perm, of p Wss cid] admit_links [OF lnk] glob by (simp add: transport_inv_def)
  next
    case (no_upgrade p cid)
    have "permits_ok t'" by (rule permits_step [OF perm, of t' p None]) (use no_upgrade in \<open>auto simp: held_iff\<close>)
    moreover have "links_ok t'"
      by (rule links_ok_upd [OF lnk, of t' p None]) (use no_upgrade links_okD(4) [OF lnk, of _ p] in auto)
    ultimately show ?thesis using no_upgrade glob by (simp add: transport_inv_def)
  next
    case (live p)
    have "global_ok libs (tr_state t')"
      using live(2) glob global_ok_registry [where t = t and libs = libs]
      by (auto simp: go_live_def enter_def set_registry_def split: option.splits prod.splits session_phase.splits if_splits)
    then show ?thesis using go_live_permits [OF perm live(2)] go_live_links [OF lnk live(2)] by (simp add: transport_inv_def)
  next
    case (stamp now p)
    have "global_ok libs (tr_state t')"
      using stamp(2) set_last_seen_ok [OF glob]
      by (auto simp: stamped_def split: option.splits prod.splits session_phase.splits)
    then show ?thesis using stamped_permits [OF perm stamp(2)] stamped_links [OF lnk stamp(2)] by (simp add: transport_inv_def)
  next
    case (over p)
    have "global_ok libs (tr_state t')"
      using over(2) glob global_ok_registry [where t = t and libs = libs]
      by (auto simp: session_over_def set_registry_def split: option.splits prod.splits session_phase.splits)
    then show ?thesis using session_over_permits [OF perm over(2)] session_over_links [OF lnk over(2)]
      by (simp add: transport_inv_def)
  next
    case (frame r msg p)
    then obtain m where m: "sessions (registry_of t) p = Some m"
      and t': "t' = set_registry ((registry_of t)\<lparr>sessions := (sessions (registry_of t))(p \<mapsto> handle_message msg m)\<rparr>) t"
      by (auto simp: deliver_def split: option.splits prod.splits session_phase.splits link.splits)
    have "registry_step (registry_of t) (Session_step p (Receive msg)) (registry_of t')"
      unfolding t' set_registry_sel by (rule registry_step.session [OF m manager_step.receive])
    then show ?thesis
      by (intro same session_step_shrinks) (simp_all add: t' global_ok_registry glob)
  next
    case (tunnel p me r')
    then show ?thesis by (intro same) (simp_all add: session_step_shrinks global_ok_registry glob)
  next
    case (api ae g')
    then show ?thesis using api_registry api_step_ok [OF glob] by (intro same) simp_all
  next
    case (disconnect headers res g')
    then have "g' = tr_state t \<or> (\<exists>cid. g' = kick cid (tr_state t))"
      by (auto simp: Connectors_Api.connector_disconnect_def split: option.splits if_splits)
    then show ?thesis
      using disconnect(2) inv global_ok_registry [of libs _ t] glob
      by (auto intro!: same simp: kick_def set_registry_def)
  next
    case (traffic lim dns)
    have "global_ok libs (tr_state t')" using glob traffic by (simp add: global_ok_traffic)
    then show ?thesis using traffic by (intro same) simp_all
  next
    case (restart g')
    then obtain d st where g': "g' = boot libs gov d st" using api_restart by blast
    have "global_ok libs g'" by (rule api_step_ok [OF glob restart(3)])
    then show ?thesis using transports_new_inv restart(2) g' by simp
  qed
qed

interpretation transport_runs: step_invariant "transport_step show_error libs gov" "transport_inv libs" for show_error libs gov
  by unfold_locales (rule transport_step_inv)

text \<open>A session comes from the check of a token of its connector, since the last start.\<close>

definition checked :: "'n libs \<Rightarrow> nat \<Rightarrow> string \<Rightarrow> ('n, 'q, 'l) transports \<Rightarrow> transport_event \<Rightarrow> bool" where
  "checked libs p cid t e \<longleftrightarrow> (\<exists>l token c. e = Token_ok p l cid
     \<and> connector_from_token libs (app (tr_state t)) token = Some c \<and> conn_id c = cid)"

definition has_link :: "nat \<Rightarrow> string \<Rightarrow> ('n, 'q, 'l) transports \<Rightarrow> bool" where
  "has_link p cid t \<longleftrightarrow> (\<exists>l ph. links t p = Some (l, cid, ph))"

lemma link_origin:
  assumes "transport_step show_error libs gov t e t'" and "has_link p cid t'"
  shows "has_link p cid t \<or> checked libs p cid t e"
  using assms(1)
proof cases
  case (quic q in_time control c)
  then obtain token conn where "connector_from_token libs (app (tr_state t)) token = Some conn" "conn_id conn = c"
    by (auto simp: quic_auth_def and_then_eq_Inr ok_or_eq_Inr)
  then show ?thesis using assms(2) quic by (auto simp: has_link_def checked_def admit_def split: if_splits)
next
  case (wss q headers c)
  then obtain token conn where "connector_from_token libs (app (tr_state t)) token = Some conn" "conn_id conn = c"
    by (auto simp: connector_connect_def split: option.splits if_splits)
  then show ?thesis using assms(2) wss by (auto simp: has_link_def checked_def admit_def split: if_splits)
next
  case (live q)
  then show ?thesis using assms(2)
    by (auto simp: go_live_def enter_def has_link_def split: option.splits prod.splits session_phase.splits if_splits)
next
  case (stamp now q)
  then show ?thesis using assms(2)
    by (auto simp: stamped_def has_link_def split: option.splits prod.splits session_phase.splits if_splits)
next
  case (over q)
  then show ?thesis using assms(2)
    by (auto simp: session_over_def has_link_def split: option.splits prod.splits session_phase.splits if_splits)
next
  case (frame r msg q)
  then show ?thesis using assms(2)
    by (auto simp: deliver_def has_link_def split: option.splits prod.splits session_phase.splits link.splits)
qed (use assms(2) in \<open>auto simp: has_link_def transports_new_def split: if_splits\<close>)

interpretation link_runs: step_origin "transport_step show_error libs gov" "has_link p cid" "checked libs p cid"
    "\<lambda>e. e = Server_restart" for show_error libs gov p cid
proof unfold_locales
  show "transport_step show_error libs gov t e t' \<Longrightarrow> has_link p cid t' \<Longrightarrow> has_link p cid t \<or> checked libs p cid t e" for t e t'
    by (rule link_origin)
  show "transport_step show_error libs gov t e t' \<Longrightarrow> e = Server_restart \<Longrightarrow> \<not> has_link p cid t'" for t e t'
    by (auto elim: transport_stepE simp: has_link_def transports_new_def)
qed

abbreviation fresh_server :: "'n libs \<Rightarrow> ('q, 'l) governor \<Rightarrow> ('n, 'q, 'l) transports" where
  "fresh_server libs gov \<equiv> transports_new (boot libs gov None app_state_default)"

lemma fresh_server_inv: "transport_inv libs (fresh_server libs gov)"
  by (rule transports_new_inv [OF first_boot_ok])

section \<open>A concrete run\<close>

definition demo_headers :: headers where
  "demo_headers = (\<lambda>h. if h = ''authorization'' then Some ''Bearer T'' else None)"

definition demo_conn :: "(ip_addr, unit, unit) global_state" where
  "demo_conn = snd (create_connector_locked demo_libs None ''1'' ''c'' ''T'' Saved ''n'' demo_up)"

definition demo_admitted :: "(ip_addr, unit, unit) transports" where
  "demo_admitted = admit 1 Wss ''c'' ((fresh_server demo_libs demo_gov)\<lparr>tr_state := demo_conn\<rparr>)"

definition demo_live :: "(ip_addr, unit, unit) transports" where
  "demo_live = enter 1 Wss ''c'' demo_admitted"

lemma bearer_token_accepts:
  assumes "headers ''authorization'' = Some (''Bearer '' @ token)" and "token \<noteq> []" and "length token \<le> 512" and "hd token \<noteq> CHR '' ''"
  shows "bearer_token headers = Some token"
proof -
  have "split_once CHR '' '' (''Bearer '' @ token) = Some (''Bearer'', token)" by simp
  moreover have "trim_start_matches CHR '' '' token = token" using assms(2,4) by (cases token) (simp_all add: trim_start_matches_def)
  moreover have "eq_ignore_ascii_case ''Bearer'' ''bearer''"
    by code_simp
  moreover have "1 \<le> length token" using assms(2) by (cases token) simp_all
  ultimately show ?thesis
    using assms(1,3) unfolding bearer_token_def by (simp add: MAX_AUTH_TOKEN_LEN_def del: append_Cons)
qed

lemma demo_conn_state:
  "connectors (app demo_conn) = [(''c'', \<lparr>conn_id = ''c'', conn_name = ''n'', token_hash = hash_token demo_libs ''T'',
     force_wss = False, conn_last_seen = None\<rparr>)]"
  "ctx_connectors (proxy_ctx demo_conn) = registry_default"
proof -
  have "proxy_ctx demo_up = proxy_ctx demo_fresh"
    by (simp add: demo_up_def setup_locked_def demo_fresh_def boot_def app_state_default_def save_state_def persist_def)
  then show "connectors (app demo_conn) = [(''c'', \<lparr>conn_id = ''c'', conn_name = ''n'', token_hash = hash_token demo_libs ''T'',
       force_wss = False, conn_last_seen = None\<rparr>)]" "ctx_connectors (proxy_ctx demo_conn) = registry_default"
    by (simp_all add: demo_conn_def create_connector_locked_def demo_up_state save_state_def persist_def Let_def
        demo_fresh_def boot_registry)
qed

lemma demo_admitted_run:
  "run (transport_step show_error demo_libs demo_gov) (fresh_server demo_libs demo_gov)
     [Api Setup, Api Create_connector, Token_ok 1 Wss ''c''] demo_admitted"
proof -
  let ?t0 = "fresh_server demo_libs demo_gov" and ?step = "transport_step show_error demo_libs demo_gov"
  let ?t1 = "?t0\<lparr>tr_state := demo_up\<rparr>" and ?t2 = "?t0\<lparr>tr_state := demo_conn\<rparr>"
  have "api_step demo_libs demo_gov (tr_state ?t0) Setup demo_up"
    using demo_up_run by (auto elim: run.cases simp: transports_new_def)
  then have "?step ?t0 (Api Setup) ?t1" by (rule transport_step.api) simp_all
  moreover have "api_step demo_libs demo_gov (tr_state ?t1) Create_connector demo_conn"
    by (rule api_step.new_connector [where new_id = "''c''" and name = "''n''" and out = Saved and token = "''T''" and repo = None
          and version = "''1''"])
      (simp_all add: demo_up_state demo_conn_def connector_name_ok_def is_alphanumeric_def is_ascii_def
        is_ascii_alphanumeric_def is_ascii_lower_def byte_of_def prod_eq_iff)
  then have "?step ?t1 (Api Create_connector) ?t2" using transport_step.api [of demo_libs demo_gov ?t1] by simp
  moreover have "?step ?t2 (Token_ok 1 Wss ''c'') demo_admitted"
    unfolding demo_admitted_def
    using bearer_token_accepts [of demo_headers "''T''"]
    by (intro transport_step.wss [where headers = demo_headers])
      (simp_all add: transports_new_def demo_conn_state registry_default_def connector_connect_def demo_headers_def
        connector_from_token_def MAX_CONNECTOR_SESSIONS_def)
  ultimately show ?thesis using run_Cons run_single by metis
qed

section \<open>Properties\<close>

text \<open>(C7) Only an authenticated connector is reachable: whatever the order of connects, API calls,
  failures and restarts, a session the proxy finds for a connector was admitted, since the last start, on
  a token that was the connector's when it was checked; it is in service, and the heap has it under
  that connector.\<close>

theorem sessions_authenticated:
  assumes "run (transport_step show_error libs gov) (fresh_server libs gov) tr t"
    and "registry_get cid (registry_of t) = Some p"
  shows "(\<exists>tr1 tr2 t1 l token c. tr = tr1 @ Token_ok p l cid # tr2 \<and> Server_restart \<notin> set tr2
      \<and> run (transport_step show_error libs gov) (fresh_server libs gov) tr1 t1
      \<and> connector_from_token libs (app (tr_state t1)) token = Some c \<and> conn_id c = cid)
    \<and> (\<exists>l ph. links t p = Some (l, cid, ph) \<and> (ph = Registered \<or> ph = Served))
    \<and> (\<exists>m. sessions (registry_of t) p = Some m \<and> connector_id m = cid)"
proof -
  have inv: "links_ok t"
    using transport_runs.run_inv [OF assms(1) fresh_server_inv] by (simp add: transport_inv_def)
  have reg: "map_of (managers (registry_of t)) cid = Some p" using assms(2) by (simp add: registry_get_def)
  note link = links_okD(4) [OF inv reg] and heap = registry_entry [OF links_okD(1) [OF inv] reg]
  have none: "\<not> has_link p cid (fresh_server libs gov)" by (simp add: has_link_def transports_new_def)
  have some: "has_link p cid t" using link by (auto simp: has_link_def)
  obtain tr1 e tr2 t1 where o: "tr = tr1 @ e # tr2" "checked libs p cid t1 e"
      "run (transport_step show_error libs gov) (fresh_server libs gov) tr1 t1" "\<forall>e' \<in> set tr2. e' \<noteq> Server_restart"
    using link_runs.run_origin [OF assms(1) none some] by (elim exE conjE)
  have "Server_restart \<notin> set tr2" using o(4) by blast
  then show ?thesis using o link heap unfolding checked_def by blast
qed

theorem sessions_authenticated_witness:
  "registry_get ''c'' (registry_of demo_live) = Some 1 \<and> (\<exists>m. sessions (registry_of demo_live) 1 = Some m \<and> connector_id m = ''c'')"
proof -
  have "transport_step (\<lambda>_. []) demo_libs demo_gov demo_admitted (Go_live 1) demo_live"
    by (rule transport_step.live) (simp add: go_live_def demo_live_def demo_admitted_def admit_def)
  then have run: "run (transport_step (\<lambda>_. []) demo_libs demo_gov) (fresh_server demo_libs demo_gov)
      ([Api Setup, Api Create_connector, Token_ok 1 Wss ''c''] @ [Go_live 1]) demo_live"
    by (rule run_snoc [OF demo_admitted_run])
  have get: "registry_get ''c'' (registry_of demo_live) = Some 1"
    by (simp add: registry_get_def demo_live_def enter_def session_up_def register_def manager_new_def map_of_update Let_def
        split: option.splits)
  show ?thesis using sessions_authenticated [OF run get] get by blast
qed

text \<open>(C26) Each transport serves at most 64 sessions, and no permit is ever lost: those that are free and
  those held by sessions, from the admission of a WebSocket or the registration of a QUIC session to its
  last stamp, always add up to 64.\<close>

theorem session_permits_exact:
  assumes "run (transport_step show_error libs gov) (fresh_server libs gov) tr t"
  shows "quic_free t + card {p. \<exists>cid ph. links t p = Some (Quic, cid, ph) \<and> ph \<noteq> Admitted} = 64
    \<and> wss_free t + card {p. \<exists>cid ph. links t p = Some (Wss, cid, ph)} = 64"
  using transport_runs.run_inv [OF assms fresh_server_inv]
  by (simp add: transport_inv_def permits_ok_def held_def MAX_CONNECTOR_SESSIONS_def)

theorem session_permits_exact_witness:
  "wss_free demo_admitted + card {p. \<exists>cid ph. links demo_admitted p = Some (Wss, cid, ph)} = 64 \<and> wss_free demo_admitted = 63"
proof -
  have "wss_free demo_admitted = 63"
    by (simp add: demo_admitted_def admit_def transports_new_def MAX_CONNECTOR_SESSIONS_def)
  then show ?thesis using session_permits_exact [OF demo_admitted_run [of "\<lambda>_. []"]] by blast
qed

text \<open>A connector's credentials arrive as its token on either transport: what it writes on its first QUIC
  stream and the header of its WebSocket request both give the server the configured token, whatever
  follows, for every token the protocol can carry.\<close>

theorem credentials_arrive:
  assumes "is_str (tc_token tc)" and "1 \<le> length (tc_token tc)" and "length (tc_token tc) \<le> 512" and "hd (tc_token tc) \<noteq> CHR '' ''"
  shows "(\<forall>q name secret addr c auth. connect_to_addr q name (tc_token tc) secret addr = Inr (c, auth) \<longrightarrow>
      quic_token show_error True (Inr (auth @ rest)) = Inr (tc_token tc))
    \<and> bearer_token (\<lambda>h. if h = ''authorization'' then Some (wss_authorization tc) else None) = Some (tc_token tc)"
proof -
  have "tc_token tc \<noteq> []" using assms(2) by auto
  then have "bearer_token (\<lambda>h. if h = ''authorization'' then Some (wss_authorization tc) else None) = Some (tc_token tc)"
    using assms(3,4) by (intro bearer_token_accepts) (simp_all add: wss_authorization_def)
  moreover obtain f where "frame (Auth (tc_token tc)) = Inr f" "read_frame (f @ rest) = Inr (Auth (tc_token tc), rest)"
    using control_frame [of "Auth (tc_token tc)"] assms(1-3) by (auto simp: wire_limits)
  ultimately show ?thesis by (auto simp: connect_to_addr_def and_then_eq_Inr quic_token_def)
qed

theorem credentials_arrive_witness:
  "bearer_token (\<lambda>h. if h = ''authorization'' then Some (wss_authorization (demo_transport\<lparr>tc_token := ''T''\<rparr>)) else None) = Some ''T''"
proof -
  let ?tc = "demo_transport\<lparr>tc_token := ''T''\<rparr>"
  have "bearer_token (\<lambda>h. if h = ''authorization'' then Some (wss_authorization ?tc) else None) = Some (tc_token ?tc)"
    by (rule conjunct2 [OF credentials_arrive]) (simp_all add: is_str_def utf8_valid_ascii as_bytes_def)
  then show ?thesis by simp
qed

text \<open>(C38) A rotated token can outlive its rotation: a WebSocket that was admitted on the old token just before
  is registered after the rotation has kicked the connector's session, and serves the connector although
  its only token is the new one.\<close>

theorem stale_admission_goes_live:
  assumes "links t p = Some (Wss, cid, Admitted)"
    and "regenerate_locked libs repo version token out cid (tr_state t) = (Inr cmd, g')"
  shows "\<exists>t'. run (transport_step show_error libs gov) t [Api (Rotate_token cid), Go_live p, Stamped p] t'
    \<and> registry_get cid (registry_of t') = Some p \<and> links t' p = Some (Wss, cid, Served)
    \<and> map_option token_hash (map_of (connectors (app (tr_state t'))) cid) = Some (hash_token libs token)"
proof -
  let ?step = "transport_step show_error libs gov"
  let ?t1 = "t\<lparr>tr_state := g'\<rparr>"
  let ?t2 = "enter p Wss cid ?t1"
  let ?t3 = "?t2\<lparr>tr_state := set_last_seen 0 cid (tr_state ?t2), links := (links ?t2)(p \<mapsto> (Wss, cid, Served))\<rparr>"
  have "?step t (Api (Rotate_token cid)) ?t1"
    by (rule transport_step.api [OF api_step.rotate [OF assms(2)]]) simp_all
  moreover have "?step ?t1 (Go_live p) ?t2" by (rule transport_step.live) (simp add: go_live_def assms(1))
  moreover have "?step ?t2 (Stamped p) ?t3"
    by (rule transport_step.stamp [where now = 0]) (simp add: stamped_def enter_def)
  ultimately have run: "run ?step t [Api (Rotate_token cid), Go_live p, Stamped p] ?t3"
    using run_Cons [of ?step] run_single [of ?step] by metis
  have "map_option token_hash (map_of (connectors (app g')) cid) = Some (hash_token libs token)"
    using assms(2) by (auto simp: regenerate_locked_def kick_def map_of_update Let_def dest!: save_state_sel
        split: option.splits prod.splits bool.splits)
  then have "map_option token_hash (map_of (connectors (app (tr_state ?t3))) cid) = Some (hash_token libs token)"
    by (auto simp: set_last_seen_def enter_def map_of_update)
  moreover have "registry_get cid (registry_of ?t3) = Some p"
    by (simp add: registry_get_def enter_def session_up_def register_def manager_new_def map_of_update Let_def split: option.splits)
  ultimately show ?thesis using run by (intro exI [of _ ?t3]) simp
qed

theorem stale_admission_goes_live_witness:
  "\<exists>t'. run (transport_step (\<lambda>_. []) demo_libs demo_gov) demo_admitted [Api (Rotate_token ''c''), Go_live 1, Stamped 1] t'
    \<and> registry_get ''c'' (registry_of t') = Some 1 
    \<and> map_option token_hash (map_of (connectors (app (tr_state t'))) ''c'') = Some (hash_token demo_libs ''U'')
    \<and> hash_token demo_libs ''U'' \<noteq> hash_token demo_libs ''T''"
proof -
  have p: "links demo_admitted 1 = Some (Wss, ''c'', Admitted)" and st: "tr_state demo_admitted = demo_conn"
    by (simp_all add: demo_admitted_def admit_def)
  obtain cmd g' where rot: "regenerate_locked demo_libs None ''1'' ''U'' Saved ''c'' (tr_state demo_admitted) = (Inr cmd, g')"
    by (simp add: st regenerate_locked_def demo_conn_state save_state_def persist_def Let_def)
  have "hash_token demo_libs ''U'' \<noteq> hash_token demo_libs ''T''"
    by (simp add: hash_token_def demo_libs_def as_bytes_def of_bytes_def)
  then show ?thesis using stale_admission_goes_live [OF p rot] by blast
qed

end
