(* ===== verification/Http_Redirect.thy ===== *)
theory Http_Redirect
  imports Routes
begin

text \<open>
  The listener on port 80 (\<open>run_http_redirect\<close>, \<open>crates/server/src/main.rs\<close>): a permanent redirect to
  HTTPS for the configured domain and its subdomains, and a 400 for anything else.
\<close>

datatype redirect_answer = Bad_request | Permanent string

definition redirect_host :: "string \<Rightarrow> headers \<Rightarrow> string option" where
  "redirect_host d headers = (case headers ''host'' of
     None \<Rightarrow> None
   | Some raw \<Rightarrow>
       let host = to_ascii_lowercase (host_header_hostname raw)
       in if (host = d \<or> suffix (''.'' @ d) host) \<and> is_valid_domain host then Some host else None)"

text \<open>\<open>path_query\<close> is the path and query of the request's URI, if it has one.\<close>

definition run_http_redirect :: "string \<Rightarrow> headers \<Rightarrow> string option \<Rightarrow> redirect_answer" where
  "run_http_redirect d headers path_query =
     (let path = (case path_query of None \<Rightarrow> ''/'' | Some p \<Rightarrow> p) in
      case redirect_host d headers of None \<Rightarrow> Bad_request | Some host \<Rightarrow> Permanent (''https://'' @ host @ path))"

lemma domain_no_slash: "is_valid_domain h \<Longrightarrow> CHR ''/'' \<notin> set h"
  using host_labels [of h "CHR ''/''"]
  by (auto simp: is_valid_domain_def is_ascii_alphanumeric_def is_ascii_lower_def is_ascii_upper_def is_ascii_digit_def byte_of_def)

section \<open>Properties\<close>



end
