(* ===== verification/Admin_Router.thy ===== *)
theory Admin_Router
  imports Api_Runs
begin

text \<open>
  The admin API as it is wired in \<open>run_server\<close> (\<open>crates/server/src/main.rs\<close>): the table of routes, the
  CSRF check in front of all of them, and the handlers behind it. How axum reads a path segment and a
  JSON body are parameters, as is everything a handler draws or asks for; a request it rejects itself,
  for its method, path or body, is answered without reaching a handler.
\<close>

declare map_of_eq_Some_iff [simp del] and Some_eq_map_of_iff [simp del]

datatype route = R_setup | R_list_connectors | R_create_connector | R_update_connector string
  | R_delete_connector string | R_token string | R_list_resources | R_create_resource
  | R_update_resource string | R_delete_resource string | R_login | R_connect | R_disconnect | R_settings

text \<open>The route of a method and a path below \<open>/api\<close>; a \<open>get\<close> route serves \<open>HEAD\<close> too.\<close>

definition api_route :: "string \<Rightarrow> string \<Rightarrow> route option" where
  "api_route m path =
     (let get = (m = ''GET'' \<or> m = ''HEAD'') in
      case split_on CHR ''/'' path of
        [[], a] \<Rightarrow>
          if a = ''setup'' \<and> m = ''POST'' then Some R_setup
          else if a = ''connectors'' then
            (if get then Some R_list_connectors else if m = ''POST'' then Some R_create_connector else None)
          else if a = ''resources'' then
            (if get then Some R_list_resources else if m = ''POST'' then Some R_create_resource else None)
          else None
      | [[], a, b] \<Rightarrow>
          if a = ''auth'' then (if b = ''login'' \<and> m = ''POST'' then Some R_login else None)
          else if a = ''connector'' then
            (if b = ''connect'' \<and> get then Some R_connect
             else if b = ''disconnect'' \<and> m = ''POST'' then Some R_disconnect
             else if b = ''settings'' \<and> get then Some R_settings else None)
          else if b = [] then None
          else if a = ''connectors'' then
            (if m = ''PUT'' then Some (R_update_connector b) else if m = ''DELETE'' then Some (R_delete_connector b) else None)
          else if a = ''resources'' then
            (if m = ''PUT'' then Some (R_update_resource b) else if m = ''DELETE'' then Some (R_delete_resource b) else None)
          else None
      | [[], a, b, c] \<Rightarrow>
          if a = ''connectors'' \<and> b \<noteq> [] \<and> c = ''token'' \<and> m = ''POST'' then Some (R_token b) else None
      | _ \<Rightarrow> None)"

record 'b api_request =
  ap_method :: string
  ap_path :: string
  ap_headers :: headers
  ap_body :: 'b

record 'b extractors =
  ex_id :: "string \<Rightarrow> string option"
  ex_setup :: "'b \<Rightarrow> setup_request option"
  ex_login :: "'b \<Rightarrow> string option"
  ex_name :: "'b \<Rightarrow> string option"
  ex_force_wss :: "'b \<Rightarrow> bool option"
  ex_create :: "'b \<Rightarrow> create_resource_request option"
  ex_update :: "'b \<Rightarrow> update_resource_request option"

text \<open>What a handler gets from outside: the clock, DNS, the outcome of its save, random draws, the password
  hash and the build.\<close>

record 'n api_env =
  en_libs :: "'n libs"
  en_now :: nat
  en_dns :: "string \<times> u16 \<Rightarrow> sockaddr list option"
  en_out :: save_outcome
  en_id :: string
  en_token :: string
  en_argon2 :: argon2
  en_permit :: bool
  en_join_error :: "string option"
  en_header_ok :: "string \<Rightarrow> bool"
  en_repo :: "string option"
  en_version :: string
  en_ct_eq :: "byte list \<Rightarrow> byte list \<Rightarrow> bool"

text \<open>The status of a handler's answer. \<open>None\<close> is axum's own rejection.\<close>

definition answered :: "('n, 'q, 'l, 'a) handled \<Rightarrow> status option \<times> ('n, 'q, 'l) global_state" where
  "answered r = (case r of (Inl e, g) \<Rightarrow> (Some e, g) | (Inr _, g) \<Rightarrow> (Some OK, g))"

definition extracted ::
  "'a option \<Rightarrow> ('a \<Rightarrow> status option \<times> ('n, 'q, 'l) global_state) \<Rightarrow> ('n, 'q, 'l) global_state
     \<Rightarrow> status option \<times> ('n, 'q, 'l) global_state" where
  "extracted x f g = (case x of None \<Rightarrow> (None, g) | Some v \<Rightarrow> f v)"

text \<open>A WebSocket upgrade changes nothing here: the transports take it over.\<close>

definition handle_route ::
  "'n api_env \<Rightarrow> 'b extractors \<Rightarrow> 'b api_request \<Rightarrow> route \<Rightarrow> ('n, 'q, 'l) global_state
     \<Rightarrow> status option \<times> ('n, 'q, 'l) global_state" where
  "handle_route en ex rq r g =
     (let libs = en_libs en; now = en_now en; hs = ap_headers rq; out = en_out en; body = ap_body rq in
      case r of
        R_setup \<Rightarrow> extracted (ex_setup ex body) (\<lambda>q.
          answered (post_setup (en_argon2 en) (en_join_error en) out (en_token en) q g)) g
      | R_list_connectors \<Rightarrow> answered (list_connectors now hs g)
      | R_create_connector \<Rightarrow> extracted (ex_name ex body) (\<lambda>name.
          answered (create_connector libs (en_repo en) (en_version en) (en_id en) (en_token en) out now hs name g)) g
      | R_update_connector s \<Rightarrow> extracted (ex_id ex s) (\<lambda>i. extracted (ex_force_wss ex body) (\<lambda>wss.
          answered (update_connector out now hs i wss g)) g) g
      | R_delete_connector s \<Rightarrow> extracted (ex_id ex s) (\<lambda>i. answered (delete_connector out now hs i g)) g
      | R_token s \<Rightarrow> extracted (ex_id ex s) (\<lambda>i.
          answered (regenerate_connector_token libs (en_repo en) (en_version en) (en_token en) out now hs i g)) g
      | R_list_resources \<Rightarrow> answered (list_resources now hs g)
      | R_create_resource \<Rightarrow> extracted (ex_create ex body) (\<lambda>q.
          answered (create_resource libs (en_dns en) (en_id en) out now hs q g)) g
      | R_update_resource s \<Rightarrow> extracted (ex_id ex s) (\<lambda>i. extracted (ex_update ex body) (\<lambda>q.
          answered (update_resource libs (en_dns en) out now hs i q g)) g) g
      | R_delete_resource s \<Rightarrow> extracted (ex_id ex s) (\<lambda>i. answered (delete_resource libs out now hs i g)) g
      | R_login \<Rightarrow> extracted (ex_login ex body) (\<lambda>password.
          answered (auth_login (en_argon2 en) (en_permit en) (en_join_error en) (en_header_ok en) now (en_id en)
            (en_token en) password g)) g
      | R_connect \<Rightarrow> (Some OK, g)
      | R_disconnect \<Rightarrow> answered (connector_disconnect libs hs g)
      | R_settings \<Rightarrow> (case connector_get_settings libs hs g of Inl e \<Rightarrow> (Some e, g) | Inr _ \<Rightarrow> (Some OK, g)))"

definition admin_api ::
  "'n api_env \<Rightarrow> 'b extractors \<Rightarrow> 'b api_request \<Rightarrow> ('n, 'q, 'l) global_state
     \<Rightarrow> status option \<times> ('n, 'q, 'l) global_state" where
  "admin_api en ex rq g =
     (if \<not> enforce_api_csrf (en_ct_eq en) (en_now en) (ap_method rq) (ap_path rq) (ap_headers rq) g then (Some FORBIDDEN, g)
      else case api_route (ap_method rq) (ap_path rq) of
        None \<Rightarrow> (None, g) | Some r \<Rightarrow> handle_route en ex rq r g)"

text \<open>The task that runs every minute: it expires sessions, cached addresses and idle rate limits.\<close>

definition housekeeping :: "nat \<Rightarrow> ('n, 'q, 'l) global_state \<Rightarrow> ('n, 'q, 'l) global_state" where
  "housekeeping now g = g\<lparr>proxy_ctx := maintenance_tick now (proxy_ctx g), auth_svc := cleanup_expired now (auth_svc g)\<rparr>"

section \<open>Lemmas\<close>

text \<open>What configures the server: its state in memory and on disk, and the routes of the edge.\<close>

definition same_config :: "('n, 'q, 'l) global_state \<Rightarrow> ('n, 'q, 'l) global_state \<Rightarrow> bool" where
  "same_config g g' \<longleftrightarrow> app g' = app g \<and> disk g' = disk g \<and> routes (proxy_ctx g') = routes (proxy_ctx g)"

lemma same_config_refl [simp]: "same_config g g"
  by (simp add: same_config_def)

lemma split_on_path: "split_on CHR ''/'' ''/setup'' = [[], ''setup'']" "split_on CHR ''/'' ''/auth/login'' = [[], ''auth'', ''login'']"
  "split_on CHR ''/'' ''/connector/disconnect'' = [[], ''connector'', ''disconnect'']"
  by simp_all

lemma answered_snd [simp]: "snd (answered r) = snd r"
  by (simp add: answered_def split: prod.splits sum.splits)

lemma extracted_snd: "snd (extracted x f g) = (case x of None \<Rightarrow> g | Some v \<Rightarrow> snd (f v))"
  by (simp add: extracted_def split: option.splits)

lemma admin_only_same:
  "\<not> fst (verify_admin now hs g) \<Longrightarrow> same_config g (snd (admin_only now hs h g))"
  using verify_admin_keeps [OF prod.collapse [symmetric], of now hs g] by (simp add: admin_only_denied same_config_def)

lemma verify_admin_live:
  "fst (verify_admin now hs g) \<longleftrightarrow> initialized (app g) \<and>
     (\<exists>sid s. session_cookie hs = Some sid \<and> map_of (auth_svc g) sid = Some s \<and> \<not> admin_session_expired now s)"
  by (auto simp: verify_admin_def validate_admin_session_def split: option.splits prod.splits if_splits)

text \<open>The routes behind the admin check that change something.\<close>

definition mutating :: "route \<Rightarrow> bool" where
  "mutating r = (case r of R_create_connector \<Rightarrow> True | R_update_connector _ \<Rightarrow> True | R_delete_connector _ \<Rightarrow> True
     | R_token _ \<Rightarrow> True | R_create_resource \<Rightarrow> True | R_update_resource _ \<Rightarrow> True | R_delete_resource _ \<Rightarrow> True | _ \<Rightarrow> False)"

lemma mutating_checked:
  assumes "api_route m path = Some r" and "mutating r"
  shows "\<not> safe_method m \<and> \<not> csrf_exempt path"
proof
  show "\<not> safe_method m"
    using assms by (auto simp: api_route_def mutating_def safe_method_def Let_def split: list.splits if_splits)
  show "\<not> csrf_exempt path"
    using assms unfolding csrf_exempt_def
    by (auto simp: api_route_def mutating_def Let_def split_on_path split: if_splits)
qed

lemma split_on_single: "split_on c s = [a] \<Longrightarrow> s = a"
  by (induction s arbitrary: a) (auto split: if_splits list.splits)

lemma split_on_setup: "split_on CHR ''/'' path = [[], a] \<Longrightarrow> path = ''/'' @ a"
  by (cases path) (auto split: if_splits list.splits dest: split_on_single)

lemma setup_route: "api_route m path = Some R_setup \<Longrightarrow> m = ''POST'' \<and> path = ''/setup''"
  by (auto simp: api_route_def Let_def dest!: split_on_setup split: list.splits if_splits)

lemma setup_same: "initialized (app g) \<Longrightarrow> same_config g (snd (post_setup a j out secret q g))"
  by (simp add: post_setup_def setup_check_def)

lemma reading_same: "same_config g (snd (list_resources now hs g))" "same_config g (snd (list_connectors now hs g))"
  by (auto simp: list_resources_def list_connectors_def admin_only_def same_config_def dest: verify_admin_keeps
      split: prod.splits bool.splits)

lemma login_same: "same_config g (snd (auth_login a p j h now i t pw g))"
  by (simp add: auth_login_def same_config_def split: option.splits prod.splits)

lemma disconnect_same: "same_config g (snd (connector_disconnect libs hs g))"
  by (simp add: connector_disconnect_def same_config_def kick_def split: option.splits)

lemma housekeeping_same: "same_config g (housekeeping now g)"
  by (simp add: same_config_def housekeeping_def maintenance_tick_def)

lemmas admin_handlers = create_resource_def update_resource_def delete_resource_def create_connector_def
  update_connector_def delete_connector_def regenerate_connector_token_def

lemma handle_route_config:
  assumes "\<not> same_config g (snd (handle_route en ex rq r g))"
  shows "r = R_setup \<and> \<not> initialized (app g) \<or> mutating r \<and> fst (verify_admin (en_now en) (ap_headers rq) g)"
proof (cases "mutating r")
  case True
  have "same_config g (snd (handle_route en ex rq r g))" if "\<not> fst (verify_admin (en_now en) (ap_headers rq) g)"
    using True that
    by (cases r) (auto simp: handle_route_def mutating_def extracted_snd admin_handlers admin_only_same Let_def split: option.splits)
  then show ?thesis using assms True by blast
next
  case False
  then show ?thesis
    using assms
    by (cases r) (auto simp: handle_route_def mutating_def extracted_snd Let_def setup_same reading_same login_same
        disconnect_same split: option.splits sum.splits)
qed

section \<open>A concrete request\<close>

definition demo_env :: "ip_addr api_env" where
  "demo_env = \<lparr>en_libs = demo_libs, en_now = 0, en_dns = (\<lambda>_. None), en_out = Saved, en_id = ''i'', en_token = ''t'',
     en_argon2 = demo_argon2, en_permit = True, en_join_error = None, en_header_ok = (\<lambda>_. True), en_repo = None,
     en_version = ''1'', en_ct_eq = (=)\<rparr>"

definition demo_extractors :: "unit extractors" where
  "demo_extractors = \<lparr>ex_id = Some, ex_setup = (\<lambda>_. None), ex_login = (\<lambda>_. None), ex_name = (\<lambda>_. None),
     ex_force_wss = (\<lambda>_. None), ex_create = (\<lambda>_. None), ex_update = (\<lambda>_. None)\<rparr>"

definition demo_delete :: "unit api_request" where
  "demo_delete = \<lparr>ap_method = ''DELETE'', ap_path = ''/resources/r1'',
     ap_headers = [''cookie'' \<mapsto> ''__Host-x2rp_session=k'', ''x-csrf-token'' \<mapsto> ''t''], ap_body = ()\<rparr>"

definition demo_session_up :: "(ip_addr, unit, unit) global_state" where
  "demo_session_up = demo_created\<lparr>auth_svc := [(''k'', \<lparr>csrf_token = ''t'', created_at = 0, last_access = 0\<rparr>)]\<rparr>"

lemma demo_delete_answered:
  "\<exists>st g'. admin_api demo_env demo_extractors demo_delete demo_session_up = (st, g') \<and> resources (app g') = []"
proof -
  have "trim ''__Host-x2rp_session=k'' = ''__Host-x2rp_session=k''"
    by (rule trim_printable) (simp add: printable_def byte_of_def)
  then have sid: "session_cookie (ap_headers demo_delete) = Some ''k''"
    by (simp add: demo_delete_def session_cookie_def extract_cookie_def ADMIN_SESSION_COOKIE_def)
  have live: "\<not> admin_session_expired 0 \<lparr>csrf_token = ''t'', created_at = 0, last_access = 0\<rparr>"
    by (simp add: admin_session_expired_def elapsed_secs_since_def)
  have csrf: "enforce_api_csrf (=) 0 ''DELETE'' ''/resources/r1'' (ap_headers demo_delete) demo_session_up"
    using sid live by (simp add: enforce_api_csrf_def validate_admin_csrf_def constant_time_eq_def demo_session_up_def demo_delete_def)
  have init: "initialized (app demo_created)"
    by (simp add: demo_created_def create_locked_def subdomain_in_use_def unknown_connector_def demo_up_state save_state_def
        persist_def publish_def Let_def)
  have route: "api_route ''DELETE'' ''/resources/r1'' = Some (R_delete_resource ''r1'')" by (simp add: api_route_def)
  let ?v = "verify_admin 0 (ap_headers demo_delete) demo_session_up"
  have v: "fst ?v" using sid live init by (auto simp: verify_admin_live demo_session_up_def)
  have "app (snd ?v) = app demo_created"
    using verify_admin_keeps [OF prod.collapse [symmetric], of 0 "ap_headers demo_delete" demo_session_up]
    by (simp add: demo_session_up_def)
  then have "resources (app (snd (delete_locked demo_libs Saved ''r1'' (snd ?v)))) = []"
    by (simp add: delete_locked_def demo_created_state position_def save_state_def persist_def Let_def)
  moreover have "snd (admin_api demo_env demo_extractors demo_delete demo_session_up) = snd (delete_locked demo_libs Saved ''r1'' (snd ?v))"
  proof -
    have "ap_method demo_delete = ''DELETE''" "ap_path demo_delete = ''/resources/r1''" by (simp_all add: demo_delete_def)
    then show ?thesis
      using csrf route v by (simp add: admin_api_def demo_env_def handle_route_def extracted_snd demo_extractors_def
          delete_resource_def admin_only_def split_def Let_def)
  qed
  ultimately show ?thesis by (metis prod.collapse)
qed

section \<open>Properties\<close>

text \<open>(C3) Nothing configures the server but the operator: a request to the API that changes the state in
  memory or on disk, or a route of the edge, is the setup of a server that is not set up yet, or comes with the
  cookie of a live admin session and, in its header, the CSRF token issued for that very session, to a
  server that is set up.\<close>

theorem config_changes_authorised:
  assumes "\<And>a b. en_ct_eq en a b \<longleftrightarrow> a = b" and "admin_api en ex rq g = (st, g')"
    and "app g' \<noteq> app g \<or> disk g' \<noteq> disk g \<or> routes (proxy_ctx g') \<noteq> routes (proxy_ctx g)"
  shows "(ap_method rq = ''POST'' \<and> ap_path rq = ''/setup'' \<and> \<not> initialized (app g))
    \<or> initialized (app g) \<and> (\<exists>sid s. session_cookie (ap_headers rq) = Some sid \<and> map_of (auth_svc g) sid = Some s
        \<and> \<not> admin_session_expired (en_now en) s \<and> ap_headers rq ''x-csrf-token'' = Some (csrf_token s))"
proof -
  have csrf: "enforce_api_csrf (en_ct_eq en) (en_now en) (ap_method rq) (ap_path rq) (ap_headers rq) g"
    using assms(2,3) by (auto simp: admin_api_def split: if_splits)
  then obtain r where r: "api_route (ap_method rq) (ap_path rq) = Some r" "g' = snd (handle_route en ex rq r g)"
    using assms(2,3) by (auto simp: admin_api_def split: option.splits)
  have "\<not> same_config g g'" using assms(3) by (auto simp: same_config_def)
  then have "r = R_setup \<and> \<not> initialized (app g) \<or> mutating r \<and> fst (verify_admin (en_now en) (ap_headers rq) g)"
    using handle_route_config r(2) by blast
  then show ?thesis
  proof
    assume "r = R_setup \<and> \<not> initialized (app g)"
    then show ?thesis using r(1) setup_route by blast
  next
    assume m: "mutating r \<and> fst (verify_admin (en_now en) (ap_headers rq) g)"
    then show ?thesis
      using csrf_token_checked [OF assms(1) _ _ csrf] mutating_checked [OF r(1)] verify_admin_live by blast
  qed
qed

theorem config_changes_authorised_witness:
  "\<exists>sid s. session_cookie (ap_headers demo_delete) = Some sid \<and> map_of (auth_svc demo_session_up) sid = Some s
     \<and> ap_headers demo_delete ''x-csrf-token'' = Some (csrf_token s)"
proof -
  obtain st g' where run: "admin_api demo_env demo_extractors demo_delete demo_session_up = (st, g')" "resources (app g') = []"
    using demo_delete_answered by blast
  then have "app g' \<noteq> app demo_session_up" by (auto simp: demo_session_up_def demo_created_state)
  moreover have "en_ct_eq demo_env a b \<longleftrightarrow> a = b" for a b by (simp add: demo_env_def)
  ultimately show ?thesis
    using config_changes_authorised [OF _ run(1)] by (auto simp: demo_delete_def)
qed

end
