(* ===== verification/Tunnel_Views.thy ===== *)
theory Tunnel_Views
  imports Connector_Sessions
begin

text \<open>
  What one tunnel sees of a session of the server's \<open>ConnectorManager\<close>
  (\<open>crates/server/src/connector_manager.rs\<close>): every step is a change of the tunnel and some messages added
  for its stream, the arrival of a message another. A message log counts the bytes and the grants it
  carries for a stream. \<open>log_inv\<close> says what the outbox can hold: a \<open>Connect\<close> for a tunnel's own target,
  once, and data and grants only for a tunnel that was accepted.
\<close>

declare map_of_eq_Some_iff [simp del] and Some_eq_map_of_iff [simp del]

section \<open>Message logs\<close>

fun data_of :: "u32 \<Rightarrow> message \<Rightarrow> byte list" where
  "data_of sid (Data i payload) = (if i = sid then payload else [])"
| "data_of sid _ = []"

fun grant_of :: "u32 \<Rightarrow> message \<Rightarrow> nat" where
  "grant_of sid (WindowUpdate i bytes) = (if i = sid then unat bytes else 0)"
| "grant_of sid _ = 0"

fun connect_of :: "message \<Rightarrow> u32 list" where
  "connect_of (Connect sid _) = [sid]"
| "connect_of _ = []"

definition log_data :: "u32 \<Rightarrow> message list \<Rightarrow> byte list" where
  "log_data sid ms = concat (map (data_of sid) ms)"

definition log_grants :: "u32 \<Rightarrow> message list \<Rightarrow> nat" where
  "log_grants sid ms = sum_list (map (grant_of sid) ms)"

definition log_connects :: "message list \<Rightarrow> u32 list" where
  "log_connects ms = concat (map connect_of ms)"

lemma log_simps [simp]:
  "log_data sid [] = []" "log_data sid (msg # ms) = data_of sid msg @ log_data sid ms"
  "log_data sid (ms @ ms') = log_data sid ms @ log_data sid ms'"
  "log_grants sid [] = 0" "log_grants sid (msg # ms) = grant_of sid msg + log_grants sid ms"
  "log_grants sid (ms @ ms') = log_grants sid ms + log_grants sid ms'"
  "log_connects [] = []" "log_connects (msg # ms) = connect_of msg @ log_connects ms"
  "log_connects (ms @ ms') = log_connects ms @ log_connects ms'"
  by (simp_all add: log_data_def log_grants_def log_connects_def)

lemma log_delivered:
  assumes "n < length ms"
  shows "log_data sid (take (Suc n) ms) = log_data sid (take n ms) @ data_of sid (ms ! n)"
    and "log_data sid (drop n ms) = data_of sid (ms ! n) @ log_data sid (drop (Suc n) ms)"
    and "log_grants sid (drop n ms) = grant_of sid (ms ! n) + log_grants sid (drop (Suc n) ms)"
    and "log_connects (take (Suc n) ms) = log_connects (take n ms) @ connect_of (ms ! n)"
  using assms by (simp_all add: take_Suc_conv_app_nth Cons_nth_drop_Suc [symmetric])

lemma log_data_split: "log_data sid ms = log_data sid (take n ms) @ log_data sid (drop n ms)"
  by (metis append_take_drop_id log_simps(3))

lemma log_data_mem: "Data sid payload \<in> set ms \<Longrightarrow> payload \<noteq> [] \<Longrightarrow> log_data sid ms \<noteq> []"
  by (induction ms) auto

lemma log_connects_mem: "sid \<in> set (log_connects ms) \<longleftrightarrow> (\<exists>url. Connect sid url \<in> set ms)"
proof (induction ms)
  case (Cons msg ms)
  then show ?case by (cases msg) auto
qed simp

section \<open>A tunnel of the server\<close>

text \<open>The bytes a tunnel holds for its client, in the order they will be written.\<close>

definition held_out :: "tunnel \<Rightarrow> byte list" where
  "held_out x = (case t_writing x of Some d \<Rightarrow> d | None \<Rightarrow> []) @ concat (t_queue x)"

lemma length_held_out [simp]: "length (held_out x) = queued x"
  by (simp add: held_out_def queued_def length_concat split: option.splits)

definition sending :: "tunnel \<Rightarrow> byte list" where
  "sending x = (case t_sending x of Some d \<Rightarrow> d | None \<Rightarrow> [])"

text \<open>The download bytes the connector has no credit for yet: held, drained, or in a grant to be sent.\<close>

definition ungranted_download :: "tunnel \<Rightarrow> nat" where
  "ungranted_download x = queued x + t_drained x + (case t_grant x of Some n \<Rightarrow> n | None \<Rightarrow> 0)"

text \<open>The tunnel from \<open>x\<close> to \<open>y\<close>: it took \<open>up\<close> from the client, with its credit, wrote \<open>down\<close> to the client, and the
  messages \<open>ms\<close> were added for it.\<close>

definition tunnel_moves :: "byte list \<Rightarrow> byte list \<Rightarrow> message list \<Rightarrow> tunnel \<Rightarrow> tunnel \<Rightarrow> bool" where
  "tunnel_moves up down ms x y \<longleftrightarrow> t_sid y = t_sid x \<and> t_target y = t_target x \<and> t_phase y \<noteq> Reserved
     \<and> (t_phase y = Connecting \<longrightarrow> t_phase x = Connecting)
     \<and> log_data (t_sid x) ms @ sending y = sending x @ up \<and> t_credit y + int (length up) = t_credit x
     \<and> held_out x = down @ held_out y \<and> ungranted_download y + log_grants (t_sid x) ms = ungranted_download x"

lemmas tunnel_moves_defs = tunnel_moves_def held_out_def queued_def sending_def ungranted_download_def

text \<open>What an event takes from a tunnel's client, and writes to it.\<close>

fun uploads :: "nat \<Rightarrow> manager_event \<Rightarrow> byte list" where
  "uploads t (Upload u payload) = (if u = t then payload else [])"
| "uploads t _ = []"

fun writes :: "nat \<Rightarrow> tunnel \<Rightarrow> manager_event \<Rightarrow> byte list" where
  "writes t x (Chunk_written u) = (if u = t then (case t_writing x of Some d \<Rightarrow> d | None \<Rightarrow> []) else [])"
| "writes t x _ = []"

text \<open>Messages for other streams only.\<close>

definition silent :: "u32 \<Rightarrow> message list \<Rightarrow> bool" where
  "silent sid ms \<longleftrightarrow> log_data sid ms = [] \<and> log_grants sid ms = 0"

lemma same_tunnel_moves:
  assumes "same_tunnel x y" and "t_phase x \<noteq> Reserved" and "silent (t_sid x) ms"
  shows "tunnel_moves [] [] ms x y"
  using assms by (cases x; cases y) (auto simp: same_tunnel_def silent_def tunnel_moves_defs)

lemma outbox_sel [simp]: "outbox (close_credit t m) = outbox m" "outbox (respond t r m) = outbox m"
  "outbox (finish t m) = outbox m" "outbox (await_reset sid m) = outbox m" "outbox (release_stream_slot m) = outbox m"
  by (simp_all add: close_credit_def respond_def finish_def release_stream_slot_def)

lemma outbox_remove [simp]: "outbox (remove_stream sid m) = outbox m"
  by (simp add: remove_stream_def Let_def split: option.splits)

lemma outbox_shutdown [simp]: "outbox (shutdown m) = outbox m"
proof -
  have "outbox (foldl (\<lambda>m (_ :: u32, t). respond t r m) m ps) = outbox m" for r m ps
    by (induction ps arbitrary: m) (auto split: prod.splits)
  moreover have "outbox (foldl (\<lambda>m (_ :: u32, t). close_credit t m) m ps) = outbox m" for m ps
    by (induction ps arbitrary: m) (auto split: prod.splits)
  ultimately show ?thesis by (simp add: shutdown_def Let_def)
qed

text \<open>Two tunnels never share a stream id once both have one. (The counter would have to wrap.)\<close>

definition ids_unique :: "manager \<Rightarrow> bool" where
  "ids_unique m \<longleftrightarrow> (\<forall>t u x y. tunnels m t = Some x \<longrightarrow> tunnels m u = Some y \<longrightarrow>
     t_phase x \<noteq> Reserved \<longrightarrow> t_phase y \<noteq> Reserved \<longrightarrow> t_sid x = t_sid y \<longrightarrow> t = u)"

lemma ids_uniqueD: "ids_unique m \<Longrightarrow> tunnels m t = Some x \<Longrightarrow> tunnels m u = Some y \<Longrightarrow>
    t_phase x \<noteq> Reserved \<Longrightarrow> t_phase y \<noteq> Reserved \<Longrightarrow> t_sid x = t_sid y \<Longrightarrow> t = u"
  unfolding ids_unique_def by blast

lemma ids_unique_step:
  assumes "manager_inv m" and "manager_step m e m'" and "ids_unique m'"
  shows "ids_unique m"
  unfolding ids_unique_def
proof (intro allI impI)
  fix t u x y
  assume x: "tunnels m t = Some x" "t_phase x \<noteq> Reserved" and y: "tunnels m u = Some y" "t_phase y \<noteq> Reserved"
    and "t_sid x = t_sid y"
  moreover obtain x' y' where "tunnels m' t = Some x'" "tunnel_kept x x'" "tunnels m' u = Some y'" "tunnel_kept y y'"
    using manager_step_kept [OF assms(1) x assms(2)] manager_step_kept [OF assms(1) y assms(2)] by blast
  ultimately show "t = u" using assms(3) ids_uniqueD [of m' t x' u y'] by (simp add: tunnel_kept_def)
qed

text \<open>What a task's step adds to the outbox is about its own stream.\<close>

lemma tunnel_next_outbox:
  assumes "tunnel_next e u z m = Some m'"
  shows "\<exists>ms. outbox m' = outbox m @ ms \<and> (t_phase z = Reserved \<longrightarrow> ms = [])
    \<and> (\<forall>sid. sid \<noteq> t_sid z \<longrightarrow> silent sid ms)"
  using assms
  by (auto simp: tunnel_next_def start_tunnel_def Let_def silent_def
      split: manager_event.splits if_splits option.splits sum.splits list.splits)

lemma removed_moves:
  assumes x: "tunnels m t = Some x" and ph: "t_phase x \<noteq> Reserved" and "silent (t_sid x) ms"
  shows "\<exists>y. tunnels (finish t (remove_stream sid m)) t = Some y \<and> tunnel_moves [] [] ms x y"
    and "\<exists>y. tunnels (upd_tunnel t (\<lambda>x. x\<lparr>t_uploading := False\<rparr>) (remove_stream sid m)) t = Some y \<and> tunnel_moves [] [] ms x y"
proof -
  obtain y where y: "tunnels (remove_stream sid m) t = Some y" "tunnel_moves [] [] ms x y"
    using remove_stream_tunnel [OF x] same_tunnel_moves [OF _ ph assms(3)] by blast
  have "tunnel_moves [] [] ms x (y\<lparr>t_phase := Finished\<rparr>)" "tunnel_moves [] [] ms x (y\<lparr>t_uploading := False\<rparr>)"
    using y(2) by (simp_all add: tunnel_moves_defs)
  then show "\<exists>y. tunnels (finish t (remove_stream sid m)) t = Some y \<and> tunnel_moves [] [] ms x y"
    and "\<exists>y. tunnels (upd_tunnel t (\<lambda>x. x\<lparr>t_uploading := False\<rparr>) (remove_stream sid m)) t = Some y \<and> tunnel_moves [] [] ms x y"
    using y(1) by (simp_all add: finish_def)
qed

lemma taken_moves:
  assumes inv: "manager_inv m" and x: "tunnels m t = Some x" and nx: "tunnel_next (Upload t payload) t x m = Some m'"
  shows "\<exists>y. tunnels m' t = Some y \<and> outbox m' = outbox m \<and> tunnel_moves payload [] [] x y"
proof -
  obtain c where c: "credit_taken (as_i64 (length payload)) (t_credit x) = Some c" "t_phase x = Open" "t_sending x = None"
    and len: "length payload < 2 ^ 63"
    and m': "m' = upd_tunnel t (\<lambda>x. x\<lparr>t_credit := c, t_sending := Some payload\<rparr>) m"
    using nx by (auto simp: tunnel_next_def split: if_splits option.splits)
  have "t_credit x \<le> i64_max"
    using inv_tunnel [OF inv x] by (simp add: tunnel_ok_def i64_max_def STREAM_RECV_WINDOW_def)
  then have "c = t_credit x - int (length payload)" using credit_taken_bounds [OF c(1)] len by simp
  then show ?thesis using x c(2,3) m' by (simp add: tunnel_moves_defs)
qed

lemma download_event_moves:
  assumes inv: "manager_inv m" and x: "tunnels m t = Some x" and ph: "t_phase x \<noteq> Reserved"
    and small: "ungranted_download x < 2 ^ 32" and nx: "tunnel_next e t x m = Some m'" and e: "event_task e = Some t"
    and ev: "e \<in> {Take_chunk t, Chunk_written t, Window_sent t}"
  shows "\<exists>y ms. tunnels m' t = Some y \<and> outbox m' = outbox m @ ms \<and> tunnel_moves (uploads t e) (writes t x e) ms x y"
proof (cases e)
  case (Take_chunk u)
  then obtain d q where "t_writing x = None" "t_queue x = d # q" "m' = upd_tunnel t (\<lambda>x. x\<lparr>t_queue := q, t_writing := Some d\<rparr>) m"
    using nx by (auto simp: tunnel_next_def split: if_splits list.splits option.splits)
  then show ?thesis using x e ph Take_chunk by (simp add: tunnel_moves_defs)
next
  case (Chunk_written u)
  then obtain d where d: "t_writing x = Some d" "t_phase x = Open" "m' = upd_tunnel t (chunk_written d) m"
    using nx by (auto simp: tunnel_next_def split: if_splits option.splits)
  have "t_grant x = None" using inv_tunnel [OF inv x] d(1) by (simp add: tunnel_ok_def)
  then show ?thesis using d x Chunk_written e by (simp add: chunk_written_def Let_def tunnel_moves_defs)
next
  case (Window_sent u)
  then obtain n where n: "t_grant x = Some n" "m' = say (WindowUpdate (t_sid x) (of_nat n)) (upd_tunnel t (\<lambda>x. x\<lparr>t_grant := None\<rparr>) m)"
    using nx by (auto simp: tunnel_next_def split: if_splits option.splits)
  moreover have "unat (of_nat n :: u32) = n" using small n(1) by (intro unat_of_nat_u32) (simp add: ungranted_download_def)
  ultimately show ?thesis using x ph e Window_sent by (simp add: tunnel_moves_defs)
qed (use ev in simp_all)

lemma own_step_moves:
  assumes inv: "manager_inv m" and x: "tunnels m t = Some x" and ph: "t_phase x \<noteq> Reserved"
    and small: "ungranted_download x < 2 ^ 32" and nx: "tunnel_next e t x m = Some m'" and e: "event_task e = Some t"
  shows "\<exists>y ms. tunnels m' t = Some y \<and> outbox m' = outbox m @ ms \<and> tunnel_moves (uploads t e) (writes t x e) ms x y"
proof -
  note gone = removed_moves [OF x ph, of "[Reset (t_sid x)]" "t_sid x"] removed_moves [OF x ph, of "[]" "t_sid x"]
  note dl = download_event_moves [OF inv x ph small nx e]
  show ?thesis
  proof (cases e)
    case (Upload u payload)
    then have "\<exists>y. tunnels m' t = Some y \<and> outbox m' = outbox m \<and> tunnel_moves payload [] [] x y"
      using taken_moves [OF inv x] nx e by simp
    then show ?thesis using Upload e by auto
  next
    case (Connect_answered u)
    then consider "t_phase x = Waiting" "m' = upd_tunnel t (\<lambda>x. x\<lparr>t_phase := Open\<rparr>) m"
      | "m' = await_reset (t_sid x) (finish t (remove_stream (t_sid x) m))"
      using nx by (auto simp: tunnel_next_def split: if_splits option.splits sum.splits)
    then show ?thesis
    proof cases
      case 1
      then show ?thesis using x e Connect_answered by (simp add: tunnel_moves_defs)
    next
      case 2
      then show ?thesis using gone Connect_answered by (auto simp: silent_def)
    qed
  next
    case (Connect_sent u)
    then have "t_phase x = Connecting" "m' = say (Connect (t_sid x) (t_target x)) (upd_tunnel t (\<lambda>x. x\<lparr>t_phase := Waiting\<rparr>) m)"
      using nx by (auto simp: tunnel_next_def split: if_splits list.splits option.splits)
    then show ?thesis using x e ph Connect_sent by (simp add: tunnel_moves_defs)
  next
    case (Upload_sent u)
    then obtain d where "t_sending x = Some d" "m' = say (Data (t_sid x) d) (upd_tunnel t (\<lambda>x. x\<lparr>t_sending := None\<rparr>) m)"
      using nx by (auto simp: tunnel_next_def split: if_splits list.splits option.splits)
    then show ?thesis using x e ph Upload_sent by (simp add: tunnel_moves_defs)
  next
    case (Upload_stop u)
    then have "m' = upd_tunnel t (\<lambda>x. x\<lparr>t_uploading := False\<rparr>) m"
      using nx by (auto simp: tunnel_next_def split: if_splits list.splits option.splits)
    then show ?thesis using x e ph Upload_stop by (simp add: tunnel_moves_defs)
  next
    case (Upload_eof u)
    then have "m' = say (Close (t_sid x)) (upd_tunnel t (\<lambda>x. x\<lparr>t_uploading := False\<rparr>) m)"
      using nx by (auto simp: tunnel_next_def split: if_splits list.splits option.splits)
    then show ?thesis using x e ph Upload_eof by (simp add: tunnel_moves_defs)
  next
    case (Take_chunk u)
    then show ?thesis using dl e by simp
  next
    case (Chunk_written u)
    then show ?thesis using dl e by simp
  next
    case (Window_sent u)
    then show ?thesis using dl e by simp
  qed (use nx x e ph gone in \<open>auto simp: tunnel_next_def silent_def split: if_splits\<close>)
qed

definition bound_to :: "manager \<Rightarrow> nat \<Rightarrow> u32 \<Rightarrow> bool" where
  "bound_to m t sid \<longleftrightarrow> map_of (streams m) sid = Some t"

fun is_receive :: "manager_event \<Rightarrow> bool" where
  "is_receive (Receive _) = True"
| "is_receive _ = False"

text \<open>A step of the server that is not the arrival of a message, seen by a tunnel.\<close>

lemma local_step_moves:
  assumes inv: "manager_inv m" and x: "tunnels m t = Some x" and ph: "t_phase x \<noteq> Reserved"
    and ids: "ids_unique m" and small: "ungranted_download x < 2 ^ 32"
    and step: "manager_step m e m'" and e: "\<not> is_receive e"
  shows "\<exists>y ms. tunnels m' t = Some y \<and> outbox m' = outbox m @ ms \<and> tunnel_moves (uploads t e) (writes t x e) ms x y"
  using step
proof (cases rule: manager_step.cases)
  case (bridge u target r)
  then have "tunnels m' t = Some x" "outbox m' = outbox m"
    using x by (auto simp: bridge_def try_reserve_stream_slot_def split: if_splits)
  then show ?thesis using ph bridge(1) same_tunnel_moves [of x x "[]"] by (simp add: silent_def)
next
  case (task u z)
  show ?thesis
  proof (cases "u = t")
    case True
    then show ?thesis using own_step_moves [OF inv x ph small] task x by simp
  next
    case False
    obtain ms where ms: "outbox m' = outbox m @ ms" "t_phase z = Reserved \<longrightarrow> ms = []"
      "\<forall>sid. sid \<noteq> t_sid z \<longrightarrow> silent sid ms"
      using tunnel_next_outbox [OF task(3)] by blast
    have "t_phase z \<noteq> Reserved \<Longrightarrow> t_sid x \<noteq> t_sid z" using ids_uniqueD [OF ids x task(2) ph] False by blast
    then have "silent (t_sid x) ms" using ms(2,3) by (cases "t_phase z = Reserved") (auto simp: silent_def)
    moreover obtain y where y: "tunnels m' t = Some y" "same_tunnel x y" using tunnel_next_other [OF x _ task(3)] False by blast
    moreover have "uploads t e = [] \<and> writes t x e = []" using task(1) False by (cases e) auto
    ultimately show ?thesis using ms(1) same_tunnel_moves [OF y(2) ph] by auto
  qed
next
  case (reset i)
  then show ?thesis using x same_tunnel_moves [of x x "[Reset (resets m ! i)]"] ph by (simp add: silent_def)
next
  case (receive msg)
  then show ?thesis using e by simp
next
  case shut
  obtain y where y: "tunnels m' t = Some y" "same_tunnel x y" using shutdown_tunnel [OF x] shut by blast
  then show ?thesis using shut same_tunnel_moves [OF y(2) ph, of "[]"] by (simp add: silent_def)
qed


lemma remove_stream_bound: "manager_inv m \<Longrightarrow> bound_to (remove_stream i m) t sid \<longleftrightarrow> bound_to m t sid \<and> sid \<noteq> i"
  by (auto simp: bound_to_def remove_stream_streams inv_distinct map_of_delete)

lemma bound_sel [simp]: "bound_to (upd_tunnel u f m) t sid = bound_to m t sid" "bound_to (say msg m) t sid = bound_to m t sid"
  "bound_to (await_reset i m) t sid = bound_to m t sid"
  "bound_to (finish u m) t sid = bound_to m t sid" "bound_to (m\<lparr>pending := ps\<rparr>) t sid = bound_to m t sid"
  "bound_to (respond u r m) t sid = bound_to m t sid"
  by (simp_all add: bound_to_def finish_def respond_def)

lemma bound_sid: "manager_inv m \<Longrightarrow> tunnels m t = Some x \<Longrightarrow> bound_to m t sid \<Longrightarrow> sid = t_sid x"
  using live_registered by (fastforce simp: bound_to_def live_def)

text \<open>A stream is bound only when its tunnel starts.\<close>

lemma bound_mono:
  assumes inv: "manager_inv m" and x: "tunnels m t = Some x" "t_phase x \<noteq> Reserved"
    and step: "manager_step m e m'" and e: "\<not> is_receive e" and b: "bound_to m' t sid"
  shows "bound_to m t sid"
  using step
proof (cases rule: manager_step.cases)
  case (bridge u target r)
  then show ?thesis using b by (auto simp: bridge_def try_reserve_stream_slot_def bound_to_def split: if_splits)
next
  case (task u z)
  have "u \<noteq> t" if "t_phase z = Reserved" using that x task(2) by auto
  then show ?thesis
    using task(3) b
    by (auto simp: tunnel_next_def start_tunnel_def chunk_written_def Let_def remove_stream_bound [OF inv]
        release_stream_slot_def map_of_update
        split: manager_event.splits if_splits option.splits sum.splits list.splits)
      (auto simp: bound_to_def map_of_update split: if_splits)
next
  case (reset i)
  then show ?thesis using b by (simp add: bound_to_def)
next
  case (receive msg)
  then show ?thesis using e by simp
next
  case shut
  then show ?thesis using b by (simp add: bound_to_def shutdown_sel)
qed

text \<open>The arrival of a message, seen by a tunnel, when the payload and the grant it carries fit.\<close>

definition tunnel_receives :: "bool \<Rightarrow> message \<Rightarrow> tunnel \<Rightarrow> tunnel \<Rightarrow> bool" where
  "tunnel_receives b msg x y \<longleftrightarrow> t_sid y = t_sid x \<and> t_target y = t_target x \<and> t_phase y = t_phase x
     \<and> sending y = sending x \<and> held_out y = held_out x @ (if b then data_of (t_sid x) msg else [])
     \<and> ungranted_download y = ungranted_download x + (if b then length (data_of (t_sid x) msg) else 0)
     \<and> t_credit y = t_credit x + (if b then int (grant_of (t_sid x) msg) else 0)
     \<and> (t_response y = Some (Inr ()) \<longrightarrow> t_response x = Some (Inr ()) \<or> msg = ConnectOk (t_sid x))"

lemma credit_add_fits:
  assumes "0 \<le> c" and "c + int n \<le> int STREAM_RECV_WINDOW"
  shows "(case credit_added (int STREAM_RECV_WINDOW) (as_i64 n) c of Some c' \<Rightarrow> c' | None \<Rightarrow> c) = c + int n"
  using assms by (auto simp: credit_added_def Let_def i64_saturating_add_def i64_max_def i64_min_def STREAM_RECV_WINDOW_def)

lemma same_tunnel_receives:
  assumes "same_tunnel x y" and "data_of (t_sid x) msg = [] \<or> \<not> b" and "grant_of (t_sid x) msg = 0 \<or> \<not> b"
    and "t_response y = Some (Inr ()) \<Longrightarrow> t_response x = Some (Inr ()) \<or> msg = ConnectOk (t_sid x)"
  shows "tunnel_receives b msg x y"
proof -
  have "t_grant y = t_grant x" "t_sending y = t_sending x"
    using assms(1) by (cases x; cases y; simp add: same_tunnel_def)+
  then show ?thesis
    using same_tunnel_sel [OF assms(1)] assms(2-)
    by (auto simp: tunnel_receives_def held_out_def sending_def ungranted_download_def queued_def)
qed

text \<open>Only a \<open>ConnectOk\<close> accepts a tunnel.\<close>

definition said_yes :: "nat \<Rightarrow> manager \<Rightarrow> bool" where
  "said_yes t m \<longleftrightarrow> (case tunnels m t of Some x \<Rightarrow> t_response x = Some (Inr ()) | None \<Rightarrow> False)"

lemma said_yes_iff: "tunnels m t = Some x \<Longrightarrow> said_yes t m \<longleftrightarrow> t_response x = Some (Inr ())"
  by (simp add: said_yes_def)

lemma said_yes_cong: "tunnels m' = tunnels m \<Longrightarrow> said_yes t m' = said_yes t m"
  by (simp add: said_yes_def)

lemma said_yes_say [simp]: "said_yes t (say msg m) = said_yes t m" "said_yes t (await_reset sid m) = said_yes t m"
  by (simp_all add: said_yes_def)

lemma said_yes_upd: "(\<And>x. t_response (f x) = t_response x) \<Longrightarrow> said_yes t (upd_tunnel u f m) = said_yes t m"
  by (auto simp: said_yes_def split: option.splits)

lemma said_yes_refuse: "said_yes t (respond u (Inl r) m) \<Longrightarrow> said_yes t m"
  by (auto simp: said_yes_def respond_def split: option.splits if_splits)

lemma said_yes_close [simp]: "said_yes t (close_credit u m) = said_yes t m"
  unfolding close_credit_def by (rule said_yes_upd) simp

lemma said_yes_finish [simp]: "said_yes t (finish u m) = said_yes t m"
  unfolding finish_def by (rule said_yes_upd) simp

lemma said_yes_sel [simp]: "said_yes t (m\<lparr>streams := a\<rparr>) = said_yes t m" "said_yes t (m\<lparr>pending := b\<rparr>) = said_yes t m"
  "said_yes t (m\<lparr>active_streams := n\<rparr>) = said_yes t m" "said_yes t (m\<lparr>next_stream_id := i\<rparr>) = said_yes t m"
  "said_yes t (m\<lparr>resets := r\<rparr>) = said_yes t m"
  "said_yes t (m\<lparr>shutdown_notified := c\<rparr>) = said_yes t m"
  by (simp_all add: said_yes_def)

lemma said_yes_remove: "said_yes t (remove_stream sid m) \<Longrightarrow> said_yes t m"
  by (auto simp: remove_stream_def Let_def release_stream_slot_def split: option.splits dest!: said_yes_refuse)

lemma said_yes_shutdown: "said_yes t (shutdown m) \<Longrightarrow> said_yes t m"
proof -
  have r: "said_yes t (foldl (\<lambda>m (_ :: u32, u). respond u (Inl r) m) m ps) \<Longrightarrow> said_yes t m" for r m ps
    by (induction ps arbitrary: m) (auto split: prod.splits dest: said_yes_refuse)
  have c: "said_yes t (foldl (\<lambda>m (_ :: u32, u). close_credit u m) m ps) = said_yes t m" for m ps
    by (induction ps arbitrary: m) (auto split: prod.splits)
  show "said_yes t (shutdown m) \<Longrightarrow> said_yes t m"
    by (auto simp: shutdown_def Let_def c dest!: r)
qed

lemma said_yes_local:
  assumes step: "manager_step m e m'" and e: "\<not> is_receive e" and a: "said_yes t m'"
  shows "said_yes t m"
  using step
proof (cases rule: manager_step.cases)
  case (bridge u target r)
  then show ?thesis using a by (auto simp: bridge_def try_reserve_stream_slot_def said_yes_def split: if_splits)
next
  case (task u z)
  then show ?thesis
    using a by (auto simp: tunnel_next_def start_tunnel_def chunk_written_def Let_def release_stream_slot_def said_yes_upd
        split: manager_event.splits if_splits option.splits sum.splits list.splits dest: said_yes_remove)
qed (use e a said_yes_shutdown in \<open>auto\<close>)

lemma receive_data_moves:
  assumes inv: "manager_inv m" and x: "tunnels m t = Some x" and b: "bound_to m t (t_sid x)"
    and fits: "queued x + length payload \<le> STREAM_RECV_WINDOW"
  shows "handle_message (Data (t_sid x) payload) m = upd_tunnel t (\<lambda>x. x\<lparr>t_outstanding := t_outstanding x + length payload,
      t_queue := t_queue x @ [payload]\<rparr>) m"
proof -
  have lv: "live (t_sid x) x" using live_of [OF inv x] b by (simp add: bound_to_def)
  let ?m1 = "upd_tunnel t (\<lambda>x. x\<lparr>t_outstanding := t_outstanding x + length payload\<rparr>) m"
  have "\<not> receiver_gone t ?m1" using lv x by (auto simp: receiver_gone_def live_def)
  then have "handle_message (Data (t_sid x) payload) m = upd_tunnel t (\<lambda>x. x\<lparr>t_queue := t_queue x @ [payload]\<rparr>) ?m1"
    using b x lv fits by (simp add: handle_message_def Let_def bound_to_def live_def)
  also have "\<dots> = upd_tunnel t (\<lambda>x. x\<lparr>t_outstanding := t_outstanding x + length payload, t_queue := t_queue x @ [payload]\<rparr>) m"
    using x by (simp add: upd_tunnel_def)
  finally show ?thesis .
qed


lemma receive_moves:
  assumes inv: "manager_inv m" and x: "tunnels m t = Some x"
    and fits: "bound_to m t (t_sid x) \<Longrightarrow> queued x + length (data_of (t_sid x) msg) \<le> STREAM_RECV_WINDOW"
      "bound_to m t (t_sid x) \<Longrightarrow> t_credit x + int (grant_of (t_sid x) msg) \<le> int STREAM_RECV_WINDOW"
  shows "\<exists>y. tunnels (handle_message msg m) t = Some y \<and> tunnel_receives (bound_to m t (t_sid x)) msg x y"
proof (cases "\<exists>sid. msg_sid msg = Some sid \<and> map_of (streams m) sid = Some t")
  case False
  then have "data_of (t_sid x) msg = [] \<or> \<not> bound_to m t (t_sid x)" "grant_of (t_sid x) msg = 0 \<or> \<not> bound_to m t (t_sid x)"
    by (cases msg; auto simp: msg_sid_def bound_to_def)+
  then have "tunnel_receives (bound_to m t (t_sid x)) msg x x" by (intro same_tunnel_receives) auto
  then show ?thesis using handle_message_other [OF inv, of msg t] False x by auto
next
  case True
  then have b: "bound_to m t (t_sid x)" "msg_sid msg = Some (t_sid x)"
    using bound_sid [OF inv x] by (auto simp: bound_to_def)
  have gone: "\<exists>y. tunnels (remove_stream (t_sid x) m) t = Some y \<and> tunnel_receives True msg x y"
    if "data_of (t_sid x) msg = []" "grant_of (t_sid x) msg = 0"
    using remove_stream_tunnel [OF x, of "t_sid x"] that said_yes_remove [of t "t_sid x" m] x
    by (auto simp: said_yes_def intro!: same_tunnel_receives)
  have resp: "\<exists>y. tunnels (respond u r m') t = Some y \<and> tunnel_receives True msg x y"
    if "tunnels m' t = Some x" "data_of (t_sid x) msg = []" "grant_of (t_sid x) msg = 0" "r = Inr () \<Longrightarrow> msg = ConnectOk (t_sid x)"
    for u r m'
  proof -
    note prem = that
    obtain y where y: "tunnels (respond u r m') t = Some y" "same_tunnel x y" using respond_tunnel [OF prem(1)] by blast
    have "t_response y = Some (Inr ()) \<Longrightarrow> t_response x = Some (Inr ()) \<or> r = Inr ()"
      using y(1) prem(1) by (auto simp: respond_def split: option.splits if_splits)
    then show ?thesis using y prem by (intro exI [of _ y] conjI same_tunnel_receives) auto
  qed
  show ?thesis
  proof (cases msg)
    case (Data sid payload)
    then show ?thesis
      using b x fits(1) receive_data_moves [OF inv x b(1), of payload]
      by (auto simp: msg_sid_def tunnel_receives_def held_out_def sending_def ungranted_download_def queued_def)
  next
    case (WindowUpdate sid bytes)
    have "0 \<le> t_credit x" using inv_tunnel [OF inv x] by (simp add: tunnel_ok_def)
    then show ?thesis
      using b x fits(2) WindowUpdate credit_add_fits [of "t_credit x" "unat bytes"]
      by (auto simp: msg_sid_def handle_message_def bound_to_def tunnel_receives_def held_out_def sending_def ungranted_download_def queued_def)
  next
    case (ConnectErr sid error)
    then show ?thesis using b x resp [where r = "Inl error"]
      by (auto simp: msg_sid_def handle_message_def bound_to_def split: option.splits intro: same_tunnel_receives)
  qed (use b x gone resp in \<open>auto simp: msg_sid_def handle_message_def bound_to_def split: option.splits
        intro: same_tunnel_receives\<close>)
qed

lemma receive_outbox [simp]: "outbox (handle_message msg m) = outbox m"
  by (cases msg) (auto simp: handle_message_def Let_def split: option.splits)

lemma receive_bound:
  assumes inv: "manager_inv m" and "bound_to (handle_message msg m) t sid"
  shows "bound_to m t sid"
  using assms(2)
proof (cases msg)
  case (Data i payload)
  have d: "map_of (streams (remove_stream i (upd_tunnel u f m))) sid = Some t \<Longrightarrow> map_of (streams m) sid = Some t" for u f
    using inv_distinct [OF inv] by (subst (asm) remove_stream_streams) (auto simp: map_of_delete split: if_splits)
  then show ?thesis using assms(2) Data
    by (auto simp: handle_message_def Let_def bound_to_def split: option.splits if_splits)
qed (auto simp: handle_message_def remove_stream_bound [OF inv] split: option.splits)


section \<open>What the server has sent\<close>

text \<open>A \<open>Connect\<close> goes out for a tunnel's id and target; data and grants only for a tunnel that was accepted.\<close>

definition said_ok :: "manager \<Rightarrow> message \<Rightarrow> bool" where
  "said_ok m msg \<longleftrightarrow> (case msg of
       Connect sid url \<Rightarrow> \<exists>t x. tunnels m t = Some x \<and> t_sid x = sid \<and> t_target x = url \<and> t_phase x \<notin> {Reserved, Connecting}
     | Data sid _ \<Rightarrow> \<exists>t x. tunnels m t = Some x \<and> t_sid x = sid \<and> t_phase x \<noteq> Reserved \<and> t_response x = Some (Inr ())
     | WindowUpdate sid _ \<Rightarrow> \<exists>t x. tunnels m t = Some x \<and> t_sid x = sid \<and> t_phase x \<noteq> Reserved \<and> t_response x = Some (Inr ())
     | _ \<Rightarrow> True)"

definition fresh_tunnel :: "tunnel \<Rightarrow> bool" where
  "fresh_tunnel x \<longleftrightarrow> t_credit x = int STREAM_RECV_WINDOW \<and> held_out x = [] \<and> ungranted_download x = 0 \<and> sending x = []
     \<and> t_response x \<noteq> Some (Inr ())"

definition log_inv :: "manager \<Rightarrow> bool" where
  "log_inv m \<longleftrightarrow> manager_inv m \<and> mgr_link m = Wss \<and> (\<forall>msg \<in> set (outbox m). said_ok m msg)
     \<and> (\<forall>t x. tunnels m t = Some x \<longrightarrow> (t_phase x = Open \<longrightarrow> t_response x = Some (Inr ())) \<and> (t_phase x = Reserved \<longrightarrow> fresh_tunnel x))
     \<and> (ids_unique m \<longrightarrow> distinct (log_connects (outbox m)))"

lemma log_invD:
  assumes "log_inv m"
  shows "manager_inv m" and "mgr_link m = Wss" and "msg \<in> set (outbox m) \<Longrightarrow> said_ok m msg"
    and "tunnels m t = Some x \<Longrightarrow> t_phase x = Open \<Longrightarrow> t_response x = Some (Inr ())"
    and "tunnels m t = Some x \<Longrightarrow> t_phase x = Reserved \<Longrightarrow> fresh_tunnel x"
    and "ids_unique m \<Longrightarrow> distinct (log_connects (outbox m))"
  using assms unfolding log_inv_def by blast+

lemma said_ok_step:
  assumes inv: "manager_inv m" and step: "manager_step m e m'" and "said_ok m msg"
  shows "said_ok m' msg"
proof -
  have kept: "\<exists>y. tunnels m' t = Some y \<and> t_sid y = t_sid x \<and> t_target y = t_target x \<and> t_phase y \<noteq> Reserved
      \<and> (t_phase x \<noteq> Connecting \<longrightarrow> t_phase y \<noteq> Connecting) \<and> (t_response x \<noteq> None \<longrightarrow> t_response y = t_response x)"
    if "tunnels m t = Some x" "t_phase x \<noteq> Reserved" for t x
    using manager_step_kept [OF inv that step] by (auto simp: tunnel_kept_def)
  show ?thesis
  proof (cases msg)
    case (Connect sid url)
    then obtain t x where "tunnels m t = Some x" "t_sid x = sid" "t_target x = url" "t_phase x \<notin> {Reserved, Connecting}"
      using assms(3) by (auto simp: said_ok_def)
    then show ?thesis using kept [of t x] Connect by (auto simp: said_ok_def)
  next
    case (Data sid payload)
    then obtain t x where "tunnels m t = Some x" "t_sid x = sid" "t_phase x \<noteq> Reserved" "t_response x = Some (Inr ())"
      using assms(3) by (auto simp: said_ok_def)
    then show ?thesis using kept [of t x] Data by (auto simp: said_ok_def)
  next
    case (WindowUpdate sid b)
    then obtain t x where "tunnels m t = Some x" "t_sid x = sid" "t_phase x \<noteq> Reserved" "t_response x = Some (Inr ())"
      using assms(3) by (auto simp: said_ok_def)
    then show ?thesis using kept [of t x] WindowUpdate by (auto simp: said_ok_def)
  qed (simp_all add: said_ok_def)
qed

lemma said_ok_weak: "\<lbrakk>\<And>sid url. msg \<noteq> Connect sid url; \<And>sid d. msg \<noteq> Data sid d; \<And>sid b. msg \<noteq> WindowUpdate sid b\<rbrakk> \<Longrightarrow> said_ok m msg"
  by (cases msg) (auto simp: said_ok_def)


lemma mgr_link_sel [simp]: "mgr_link (close_credit t m) = mgr_link m" "mgr_link (respond t r m) = mgr_link m"
  "mgr_link (finish t m) = mgr_link m" "mgr_link (release_stream_slot m) = mgr_link m"
  by (simp_all add: close_credit_def respond_def finish_def release_stream_slot_def)

lemma mgr_link_remove [simp]: "mgr_link (remove_stream sid m) = mgr_link m"
  by (simp add: remove_stream_def Let_def split: option.splits)

lemma mgr_link_shutdown [simp]: "mgr_link (shutdown m) = mgr_link m"
proof -
  have "mgr_link (foldl (\<lambda>m (_ :: u32, t). respond t r m) m ps) = mgr_link m" for r m ps
    by (induction ps arbitrary: m) (auto split: prod.splits)
  moreover have "mgr_link (foldl (\<lambda>m (_ :: u32, t). close_credit t m) m ps) = mgr_link m" for m ps
    by (induction ps arbitrary: m) (auto split: prod.splits)
  ultimately show ?thesis by (simp add: shutdown_def Let_def)
qed

lemma mgr_link_step: "manager_step m e m' \<Longrightarrow> mgr_link m' = mgr_link m"
proof (erule manager_step.cases)
  fix m0 t target r m1
  assume "m = m0" "m' = m1" "bridge t target m0 = (r, m1)"
  then show ?thesis by (auto simp: bridge_def try_reserve_stream_slot_def split: if_splits)
next
  fix e0 t m0 x m1
  assume "m = m0" "m' = m1" "tunnel_next e0 t x m0 = Some m1"
  then show ?thesis
    by (auto simp: tunnel_next_def start_tunnel_def split: manager_event.splits if_splits option.splits sum.splits list.splits)
next
  fix m0 msg
  assume "m = m0" "m' = handle_message msg m0"
  then show ?thesis by (cases msg) (auto simp: handle_message_def Let_def split: option.splits)
qed auto

lemma fresh_same:
  assumes "fresh_tunnel x" and "same_tunnel x y" and "t_response y = Some (Inr ()) \<Longrightarrow> t_response x = Some (Inr ())"
  shows "fresh_tunnel y"
proof -
  have "t_grant y = t_grant x" "t_sending y = t_sending x" using assms(2) by (cases x; cases y; simp add: same_tunnel_def)+
  then show ?thesis
    using assms(1,3) same_tunnel_sel [OF assms(2)]
    by (auto simp: fresh_tunnel_def held_out_def ungranted_download_def queued_def sending_def)
qed

text \<open>A tunnel that has no stream yet: it stays as it was, or gets its id.\<close>

lemma reserved_step:
  assumes inv: "manager_inv m" and wss: "mgr_link m = Wss" and x: "tunnels m t = Some x" "t_phase x = Reserved"
    and step: "manager_step m e m'"
  shows "\<exists>y. tunnels m' t = Some y \<and> (t_response y = Some (Inr ()) \<longrightarrow> t_response x = Some (Inr ()))
    \<and> (same_tunnel x y \<or> (\<exists>sid. e = Start t \<and> y = x\<lparr>t_sid := sid, t_phase := Connecting\<rparr>))"
proof (cases "is_receive e")
  case True
  have "map_of (streams m) sid \<noteq> Some t" for sid using live_registered [OF inv, of sid t] x by (auto simp: live_def)
  then show ?thesis
    using True step x handle_message_other [OF inv, of _ t] by (cases e) (auto elim!: manager_step.cases)
next
  case False
  have acc: "t_response y = Some (Inr ()) \<Longrightarrow> t_response x = Some (Inr ())" if "tunnels m' t = Some y" for y
    using said_yes_local [OF step False, of t] that x(1) by (simp add: said_yes_def)
  from step have "\<exists>y. tunnels m' t = Some y \<and> (same_tunnel x y \<or> (\<exists>sid. e = Start t \<and> y = x\<lparr>t_sid := sid, t_phase := Connecting\<rparr>))"
  proof (cases rule: manager_step.cases)
    case (bridge u target r)
    then show ?thesis using x by (auto simp: bridge_def try_reserve_stream_slot_def split: if_splits)
  next
    case (task u z)
    show ?thesis
    proof (cases "u = t")
      case True
      then show ?thesis using task x wss
        by (cases e) (auto simp: tunnel_next_def start_tunnel_def split: if_splits option.splits)
    next
      case False
      then show ?thesis using tunnel_next_other [OF x(1) _ task(3)] by blast
    qed
  next
    case shut
    then show ?thesis using shutdown_tunnel [OF x(1)] by blast
  qed (use False x in auto)
  then show ?thesis using acc by blast
qed


lemma local_said:
  assumes inv: "log_inv m" and step: "manager_step m e m'"
  shows "\<exists>ms. outbox m' = outbox m @ ms \<and> (\<forall>msg \<in> set ms. said_ok m' msg)
    \<and> log_connects ms = (case e of Connect_sent t \<Rightarrow> (case tunnels m t of Some x \<Rightarrow> [t_sid x] | None \<Rightarrow> []) | _ \<Rightarrow> [])
    \<and> (case e of Connect_sent t \<Rightarrow> (\<exists>x. tunnels m t = Some x \<and> t_phase x = Connecting) | _ \<Rightarrow> True)"
  using step
proof (cases rule: manager_step.cases)
  case (bridge u target r)
  then show ?thesis by (auto simp: bridge_def try_reserve_stream_slot_def split: if_splits)
next
  case (task t x)
  have acc: "t_phase x = Open \<Longrightarrow> t_response x = Some (Inr ())" by (rule log_invD(4) [OF inv task(2)])
  show ?thesis
  proof (cases e)
    case (Connect_sent u)
    then show ?thesis using task by (auto simp: tunnel_next_def said_ok_def split: if_splits)
  next
    case (Upload_sent u)
    then show ?thesis using task acc by (auto simp: tunnel_next_def said_ok_def split: if_splits option.splits)
  next
    case (Window_sent u)
    then show ?thesis using task acc by (auto simp: tunnel_next_def said_ok_def split: if_splits option.splits)
  qed (use task in \<open>auto simp: tunnel_next_def start_tunnel_def said_ok_def split: if_splits option.splits sum.splits list.splits\<close>)
qed (auto simp: said_ok_def)

lemma log_inv_distinct:
  assumes inv: "log_inv m" and step: "manager_step m e m'" and ids: "ids_unique m'"
  shows "distinct (log_connects (outbox m'))"
proof -
  obtain ms where ms: "outbox m' = outbox m @ ms"
    "log_connects ms = (case e of Connect_sent t \<Rightarrow> (case tunnels m t of Some x \<Rightarrow> [t_sid x] | None \<Rightarrow> []) | _ \<Rightarrow> [])"
    "case e of Connect_sent t \<Rightarrow> (\<exists>x. tunnels m t = Some x \<and> t_phase x = Connecting) | _ \<Rightarrow> True"
    using local_said [OF inv step] by blast
  have un: "ids_unique m" by (rule ids_unique_step [OF log_invD(1) [OF inv] step ids])
  note old = log_invD(6) [OF inv un]
  show ?thesis
  proof (cases "\<exists>t. e = Connect_sent t")
    case True
    then obtain t x where x: "e = Connect_sent t" "tunnels m t = Some x" "t_phase x = Connecting" using ms(3) by auto
    have "t_sid x \<notin> set (log_connects (outbox m))"
    proof
      assume "t_sid x \<in> set (log_connects (outbox m))"
      then obtain url where "said_ok m (Connect (t_sid x) url)" using log_invD(3) [OF inv] by (auto simp: log_connects_mem)
      then obtain u z where "tunnels m u = Some z" "t_sid z = t_sid x" "t_phase z \<notin> {Reserved, Connecting}"
        by (auto simp: said_ok_def)
      then show False using ids_uniqueD [OF un x(2), of u z] x by auto
    qed
    then show ?thesis using old ms(1,2) x by simp
  qed (use old ms in \<open>auto split: manager_event.splits\<close>)
qed

text \<open>Only \<open>bridge\<close> makes a tunnel.\<close>

lemma no_tunnel_sel [simp]: "tunnels (close_credit u m) t = None \<longleftrightarrow> tunnels m t = None"
  "tunnels (respond u r m) t = None \<longleftrightarrow> tunnels m t = None" "tunnels (finish u m) t = None \<longleftrightarrow> tunnels m t = None"
  "tunnels (release_stream_slot m) t = None \<longleftrightarrow> tunnels m t = None"
  by (simp_all add: close_credit_def respond_def finish_def release_stream_slot_def)

lemma no_tunnel_remove [simp]: "tunnels (remove_stream sid m) t = None \<longleftrightarrow> tunnels m t = None"
  by (simp add: remove_stream_def Let_def split: option.splits)

lemma no_tunnel_shutdown [simp]: "tunnels (shutdown m) t = None \<longleftrightarrow> tunnels m t = None"
proof -
  have "tunnels (foldl (\<lambda>m (_ :: u32, t). respond t r m) m ps) t = None \<longleftrightarrow> tunnels m t = None" for r m ps
    by (induction ps arbitrary: m) (auto split: prod.splits simp del: not_None_eq)
  moreover have "tunnels (foldl (\<lambda>m (_ :: u32, t). close_credit t m) m ps) t = None \<longleftrightarrow> tunnels m t = None" for m ps
    by (induction ps arbitrary: m) (auto split: prod.splits simp del: not_None_eq)
  ultimately show ?thesis by (simp add: shutdown_def Let_def)
qed

lemma no_tunnel_receive [simp]: "tunnels (handle_message msg m) t = None \<longleftrightarrow> tunnels m t = None"
  by (cases msg) (simp_all add: handle_message_def Let_def split: option.splits)

lemma no_tunnel_step:
  assumes step: "manager_step m e m'" and "tunnels m t = None" and "tunnels m' t \<noteq> None"
  obtains target where "e = Bridge t target" "bridge t target m = (Inr (), m')"
  using step
proof (cases rule: manager_step.cases)
  case (bridge u target r)
  then show ?thesis using assms that by (auto simp: bridge_def try_reserve_stream_slot_def split: if_splits)
next
  case (task u z)
  then have "tunnels m' t = None" using assms(2)
    by (auto simp: tunnel_next_def start_tunnel_def split: manager_event.splits if_splits option.splits sum.splits list.splits)
  then show ?thesis using assms(3) by simp
qed (use assms in auto)

lemma log_inv_tunnels:
  assumes inv: "log_inv m" and step: "manager_step m e m'" and y: "tunnels m' t = Some y"
  shows "(t_phase y = Open \<longrightarrow> t_response y = Some (Inr ())) \<and> (t_phase y = Reserved \<longrightarrow> fresh_tunnel y)"
proof (cases "tunnels m t")
  case None
  then obtain target where "bridge t target m = (Inr (), m')" using no_tunnel_step [OF step None] y by auto
  then show ?thesis using y
    by (auto simp: bridge_def try_reserve_stream_slot_def fresh_tunnel_def held_out_def ungranted_download_def queued_def
        sending_def split: if_splits)
next
  case (Some x)
  show ?thesis
  proof (cases "t_phase x = Reserved")
    case True
    then show ?thesis
      using reserved_step [OF log_invD(1,2) [OF inv] Some True step] log_invD(5) [OF inv Some True] y fresh_same
      by (fastforce simp: same_tunnel_sel)
  next
    case False
    obtain z where "tunnels m' t = Some z" "tunnel_kept x z" using manager_step_kept [OF log_invD(1) [OF inv] Some False step] by blast
    then show ?thesis using log_invD(4) [OF inv Some] y by (auto simp: tunnel_kept_def)
  qed
qed


lemma log_inv_step: "log_inv m \<Longrightarrow> manager_step m e m' \<Longrightarrow> log_inv m'"
proof -
  assume inv: "log_inv m" and step: "manager_step m e m'"
  note m = log_invD(1,2) [OF inv]
  have "said_ok m' msg" if "msg \<in> set (outbox m')" for msg
    using that local_said [OF inv step] said_ok_step [OF m(1) step log_invD(3) [OF inv]] by auto
  then show ?thesis
    using manager_step_inv [OF m(1) step] mgr_link_step [OF step] m(2) log_inv_tunnels [OF inv step] log_inv_distinct [OF inv step]
    unfolding log_inv_def by simp
qed

interpretation log_runs: step_invariant manager_step log_inv
  by unfold_locales (rule log_inv_step)

lemma log_inv_new: "log_inv (manager_new cid Wss)"
  using manager_inv_new [of cid Wss] by (simp add: log_inv_def manager_new_def)

end
