(* ===== verification/Task_Views.thy ===== *)
theory Task_Views
  imports Tunnel_Views Session_Manager
begin

text \<open>
  What one task sees of the connector's end of a session, \<open>SessionManager\<close> and \<open>stream_handler\<close> of
  \<open>crates/connector/src/session_manager.rs\<close>: the same views as those of a tunnel at the server's end.
  \<open>answers_inv\<close> says what the outbound queue can hold: nothing about a stream whose task has not
  answered its \<open>Connect\<close>.
\<close>

declare map_of_eq_Some_iff [simp del] and Some_eq_map_of_iff [simp del]

section \<open>A task\<close>

text \<open>The bytes a task holds for its backend, and those it read from the backend and has not sent.\<close>

definition held_in :: "stream_task \<Rightarrow> byte list" where
  "held_in y = (case k_writing y of Some d \<Rightarrow> d | None \<Rightarrow> []) @ concat (k_queue y)"

definition unsent :: "stream_task \<Rightarrow> byte list" where
  "unsent y = (case k_ready y of Some d \<Rightarrow> d | None \<Rightarrow> []) @ (case k_read y of Some d \<Rightarrow> d | None \<Rightarrow> [])"

definition early :: "stream_task \<Rightarrow> bool" where
  "early y \<longleftrightarrow> k_phase y \<notin> {Running, Ended}"

definition task_ok :: "stream_task \<Rightarrow> bool" where
  "task_ok y \<longleftrightarrow> credit_ok y \<and> (k_read y = None \<or> k_ready y = None)
     \<and> (k_writing y \<noteq> None \<or> k_grant y \<noteq> None \<longrightarrow> k_uploading y) \<and> (k_writing y = None \<or> k_grant y = None)
     \<and> (early y \<longrightarrow> unsent y = [] \<and> k_writing y = None \<and> k_uploading y) \<and> k_drained y < WINDOW_UPDATE_THRESHOLD"

fun task_reads :: "task_event \<Rightarrow> byte list" where
  "task_reads (Backend_read payload) = payload"
| "task_reads _ = []"

fun task_writes :: "stream_task \<Rightarrow> task_event \<Rightarrow> byte list" where
  "task_writes y Backend_written = (case k_writing y of Some d \<Rightarrow> d | None \<Rightarrow> [])"
| "task_writes y _ = []"

text \<open>The task from \<open>y\<close> to \<open>y'\<close>: it read \<open>rd\<close> from the backend, wrote \<open>wr\<close> to it, and added the messages \<open>ms\<close>. An ended
  task drops what it has; a task whose upload has ended writes nothing more.\<close>

definition task_moves :: "byte list \<Rightarrow> byte list \<Rightarrow> message list \<Rightarrow> stream_task \<Rightarrow> stream_task \<Rightarrow> bool" where
  "task_moves rd wr ms y y' \<longleftrightarrow> k_sid y' = k_sid y \<and> k_target y' = k_target y
     \<and> (early y' \<longrightarrow> early y) \<and> (k_phase y = Ended \<longrightarrow> k_phase y' = Ended \<and> silent (k_sid y) ms \<and> rd = [] \<and> wr = [])
     \<and> (k_uploading y' \<longrightarrow> k_uploading y) \<and> (k_open y' \<longrightarrow> k_open y)
     \<and> (\<not> k_uploading y \<longrightarrow> wr = []) \<and> prefix wr (held_in y)
     \<and> prefix (log_data (k_sid y) ms) (unsent y @ rd)
     \<and> (k_phase y' \<noteq> Ended \<longrightarrow> log_data (k_sid y) ms @ unsent y' = unsent y @ rd)
     \<and> unsent_download y' + int (length (log_data (k_sid y) ms)) \<le> unsent_download y
     \<and> (k_phase y' \<noteq> Ended \<longrightarrow> unsent_download y' + int (length (log_data (k_sid y) ms)) = unsent_download y)
     \<and> ungranted_upload y' + int (log_grants (k_sid y) ms) \<le> ungranted_upload y
     \<and> (k_phase y' \<noteq> Ended \<and> k_uploading y' \<longrightarrow> held_in y = wr @ held_in y'
        \<and> ungranted_upload y' + int (log_grants (k_sid y) ms) = ungranted_upload y)"

lemmas task_moves_defs = task_moves_def silent_def held_in_def unsent_def early_def unsent_download_def ungranted_upload_def

lemma acquired_moves:
  assumes ok: "task_ok y" and st: "stream_handler closed Credit_acquired y = Some (y', ms)"
  shows "task_moves [] [] ms y y' \<and> task_ok y'"
proof -
  have cr: "credit_ok y" using ok by (simp add: task_ok_def)
  obtain p where p: "k_read y = Some p" "int (length p) \<le> k_credit y"
      "y' = y\<lparr>k_credit := k_credit y - int (length p), k_read := None, k_ready := Some p\<rparr>"
    by (rule acquired_step [OF cr st])
  moreover have "k_phase y = Running" "ms = []" using st by (auto simp: stream_handler_def split: if_splits option.splits)
  moreover have "credit_ok y'" using stream_handler_ok [OF cr st] by simp
  ultimately show ?thesis using ok by (simp add: task_ok_def task_moves_defs)
qed

text \<open>The events of the upload, and those before the backend is connected.\<close>

definition upload_event :: "task_event \<Rightarrow> bool" where
  "upload_event e \<longleftrightarrow> (case e of Take_data \<Rightarrow> True | Backend_written \<Rightarrow> True | Backend_write_failed \<Rightarrow> True
     | Grant_sent _ \<Rightarrow> True | Request_eof \<Rightarrow> True | _ \<Rightarrow> False)"

definition dial_event :: "task_event \<Rightarrow> bool" where
  "dial_event e \<longleftrightarrow> (case e of Skip_data \<Rightarrow> True | Abandoned \<Rightarrow> True | Dialed _ \<Rightarrow> True | Answer_sent \<Rightarrow> True | _ \<Rightarrow> False)"

lemma upload_event_moves:
  assumes ok: "task_ok y" and small: "\<And>b. e = Grant_sent b \<Longrightarrow> ungranted_upload y < 2 ^ 32" and dial: "e \<noteq> Skip_data"
    and st: "stream_handler closed e y = Some (y', ms)"
    and ev: "upload_event e"
  shows "task_moves (task_reads e) (task_writes y e) ms y y' \<and> task_ok y'"
proof -
  have cr: "credit_ok y'" using stream_handler_ok [OF _ st] ok by (simp add: task_ok_def)
  show ?thesis
  proof (cases e)
    case Take_data
    then obtain d q where "k_phase y = Running" "k_writing y = None" "k_grant y = None" "k_uploading y" "k_queue y = d # q"
      "y' = y\<lparr>k_queue := q, k_writing := Some d\<rparr>" "ms = []"
      using st by (auto simp: stream_handler_def idle_upload_def split: if_splits list.splits)
    then show ?thesis using ok cr Take_data by (simp add: task_ok_def task_moves_defs split: option.splits)
  next
    case Backend_written
    then obtain d where "k_phase y = Running" "k_writing y = Some d" "y' = backend_written d y" "ms = []"
      using st by (auto simp: stream_handler_def split: if_splits option.splits)
    then show ?thesis using ok cr Backend_written
      by (simp add: task_ok_def task_moves_defs backend_written_def Let_def WINDOW_UPDATE_THRESHOLD_def STREAM_RECV_WINDOW_def split: option.splits)
  next
    case Backend_write_failed
    then obtain d where "k_phase y = Running" "k_writing y = Some d" "y' = y\<lparr>k_writing := None, k_uploading := False\<rparr>" "ms = []"
      using st by (auto simp: stream_handler_def split: if_splits)
    then show ?thesis using ok cr Backend_write_failed by (simp add: task_ok_def task_moves_defs split: option.splits)
  next
    case (Grant_sent b)
    then obtain n where n: "k_grant y = Some n" "b = of_nat n" "y' = y\<lparr>k_grant := None\<rparr>" "ms = [WindowUpdate (k_sid y) b]" "k_phase y = Running"
      using st by (auto simp: stream_handler_def split: if_splits)
    moreover have "unat (of_nat n :: u32) = n" using small [OF Grant_sent] n(1) by (intro unat_of_nat_u32) (simp add: ungranted_upload_def)
    ultimately show ?thesis using ok cr Grant_sent by (simp add: task_ok_def task_moves_defs)
  next
    case Request_eof
    then have "k_phase y = Running" "k_writing y = None" "k_grant y = None" "y' = y\<lparr>k_uploading := False\<rparr>" "ms = []"
      using st by (auto simp: stream_handler_def idle_download_def idle_upload_def split: if_splits option.splits list.splits)
    then show ?thesis using ok cr Request_eof by (auto simp: task_ok_def task_moves_defs split: option.splits)
  qed (use ev in \<open>simp_all add: upload_event_def\<close>)
qed

lemma dial_event_moves:
  assumes ok: "task_ok y" and small: "\<And>b. e = Grant_sent b \<Longrightarrow> ungranted_upload y < 2 ^ 32" and dial: "e \<noteq> Skip_data"
    and st: "stream_handler closed e y = Some (y', ms)"
    and ev: "dial_event e"
  shows "task_moves (task_reads e) (task_writes y e) ms y y' \<and> task_ok y'"
proof -
  have cr: "credit_ok y'" using stream_handler_ok [OF _ st] ok by (simp add: task_ok_def)
  show ?thesis
  proof (cases e)
    case Skip_data
    then show ?thesis using dial by simp
  next
    case Abandoned
    then have "k_phase y = Dialing" "k_queue y = []" "y' = y\<lparr>k_phase := Answering (Inl ''stream abandoned'')\<rparr>" "ms = []"
      using st by (auto simp: stream_handler_def idle_download_def idle_upload_def split: if_splits option.splits list.splits)
    then show ?thesis using ok cr Abandoned by (auto simp: task_ok_def task_moves_defs split: option.splits)
  next
    case (Dialed r)
    then have "k_phase y = Dialing" "y' = y\<lparr>k_phase := Answering r\<rparr>" "ms = []"
      using st by (auto simp: stream_handler_def idle_download_def idle_upload_def split: if_splits option.splits list.splits)
    then show ?thesis using ok cr Dialed by (auto simp: task_ok_def task_moves_defs split: option.splits)
  next
    case Answer_sent
    then obtain r where r: "k_phase y = Answering r"
      "(y' = y\<lparr>k_phase := Running\<rparr> \<and> ms = [ConnectOk (k_sid y)]) \<or> (\<exists>error. y' = y\<lparr>k_phase := Ended\<rparr> \<and> ms = [ConnectErr (k_sid y) error])"
      using st by (auto simp: stream_handler_def split: if_splits stream_phase.splits sum.splits)
    from r(2) show ?thesis
    proof (elim disjE exE conjE)
      assume "y' = y\<lparr>k_phase := Running\<rparr>" "ms = [ConnectOk (k_sid y)]"
      then show ?thesis using ok cr r(1) Answer_sent by (simp add: task_ok_def task_moves_defs split: option.splits)
    next
      fix error
      assume "y' = y\<lparr>k_phase := Ended\<rparr>" "ms = [ConnectErr (k_sid y) error]"
      then show ?thesis using ok cr r(1) Answer_sent by (simp add: task_ok_def task_moves_defs split: option.splits)
    qed
  qed (use ev in \<open>simp_all add: dial_event_def\<close>)
qed

lemma stream_handler_moves:
  assumes ok: "task_ok y" and small: "\<And>b. e = Grant_sent b \<Longrightarrow> ungranted_upload y < 2 ^ 32" and dial: "e \<noteq> Skip_data"
    and st: "stream_handler closed e y = Some (y', ms)"
  shows "task_moves (task_reads e) (task_writes y e) ms y y' \<and> task_ok y'"
proof -
  have cr: "credit_ok y'" using stream_handler_ok [OF _ st] ok by (simp add: task_ok_def)
  show ?thesis
  proof (cases e)
    case Credit_acquired
    then show ?thesis using acquired_moves [OF ok] st by simp
  next
    case (Backend_read p)
    then have "k_phase y = Running" "k_read y = None" "k_ready y = None" "y' = y\<lparr>k_read := Some p\<rparr>" "ms = []"
      using st by (auto simp: stream_handler_def idle_download_def idle_upload_def split: if_splits option.splits list.splits)
    then show ?thesis using ok cr Backend_read by (auto simp: task_ok_def task_moves_defs split: option.splits)
  next
    case Backend_eof
    then have "k_phase y = Running" "y' = y\<lparr>k_eof := True\<rparr>" "ms = []"
      using st by (auto simp: stream_handler_def idle_download_def idle_upload_def split: if_splits option.splits list.splits)
    then show ?thesis using ok cr Backend_eof by (auto simp: task_ok_def task_moves_defs split: option.splits)
  next
    case (Data_sent p)
    then have "k_phase y = Running" "k_ready y = Some p" "y' = y\<lparr>k_ready := None\<rparr>" "ms = [Data (k_sid y) p]"
      using st by (auto simp: stream_handler_def idle_download_def idle_upload_def split: if_splits option.splits list.splits)
    then show ?thesis using ok cr Data_sent by (auto simp: task_ok_def task_moves_defs split: option.splits)
  next
    case Close_sent
    then have "k_phase y = Running" "y' = y\<lparr>k_phase := Ended\<rparr>" "ms = [Close (k_sid y)]"
      using st by (auto simp: stream_handler_def idle_download_def idle_upload_def split: if_splits option.splits list.splits)
    then show ?thesis using ok cr Close_sent by (auto simp: task_ok_def task_moves_defs split: option.splits)
  next
    case Unsent
    then consider "ms = []" "y' = y\<lparr>k_phase := Ended\<rparr>" "k_phase y \<noteq> Ended"
      | n where "ms = []" "k_phase y = Running" "k_grant y = Some n" "y' = y\<lparr>k_grant := None, k_uploading := False\<rparr>"
      using st by (auto simp: stream_handler_def split: if_splits)
    then show ?thesis
      by cases (use ok cr Unsent in \<open>simp_all add: task_ok_def task_moves_defs split: option.splits\<close>)
  next
    case Cancelled
    then have "y' = y\<lparr>k_phase := Ended\<rparr>" "ms = []"
      using st by (auto simp: stream_handler_def idle_download_def idle_upload_def split: if_splits option.splits list.splits)
    then show ?thesis using ok cr Cancelled by (auto simp: task_ok_def task_moves_defs split: option.splits)
  qed (use upload_event_moves [OF ok small dial st] dial_event_moves [OF ok small dial st] in \<open>simp_all add: upload_event_def dial_event_def\<close>)
qed

lemma stream_handler_task_ok:
  assumes ok: "task_ok y" and st: "stream_handler closed e y = Some (y', ms)"
  shows "task_ok y'"
proof -
  have cr: "credit_ok y'" using stream_handler_ok [OF _ st] ok by (simp add: task_ok_def)
  consider "e = Skip_data" | b where "e = Grant_sent b" | "e \<noteq> Skip_data" "\<And>b. e \<noteq> Grant_sent b" by blast
  then show ?thesis
  proof cases
    case 1
    then obtain q where "y' = y\<lparr>k_queue := q\<rparr>"
      using st by (auto simp: stream_handler_def split: stream_phase.splits list.splits)
    then show ?thesis using ok cr by (simp add: task_ok_def early_def unsent_def)
  next
    case 2
    then have "y' = y\<lparr>k_grant := None\<rparr>" using st by (auto simp: stream_handler_def split: if_splits)
    then show ?thesis using ok cr by (simp add: task_ok_def early_def unsent_def)
  next
    case 3
    then show ?thesis using stream_handler_moves [OF ok _ _ st] by blast
  qed
qed

section \<open>A message for a task\<close>

definition serves :: "session \<Rightarrow> nat \<Rightarrow> u32 \<Rightarrow> bool" where
  "serves s k sid \<longleftrightarrow> map_of (backends s) sid = Some k"

definition task_receives :: "bool \<Rightarrow> message \<Rightarrow> stream_task \<Rightarrow> stream_task \<Rightarrow> bool" where
  "task_receives b msg y y' \<longleftrightarrow> k_sid y' = k_sid y \<and> k_target y' = k_target y \<and> k_phase y' = k_phase y
     \<and> k_uploading y' = k_uploading y \<and> unsent y' = unsent y \<and> (k_open y' \<longrightarrow> k_open y) \<and> (k_aborted y \<longrightarrow> k_aborted y')
     \<and> (task_ok y \<longrightarrow> task_ok y') \<and> ((\<forall>p. msg \<noteq> Data (k_sid y) p) \<longrightarrow> k_queue y' = k_queue y)
     \<and> held_in y' = held_in y @ (if b \<and> k_open y \<and> k_phase y \<noteq> Ended then data_of (k_sid y) msg else [])
     \<and> ((b \<longrightarrow> k_credit y + int (grant_of (k_sid y) msg) \<le> int STREAM_RECV_WINDOW) \<longrightarrow>
        unsent_download y' = unsent_download y + (if b then int (grant_of (k_sid y) msg) else 0))
     \<and> ungranted_upload y' = ungranted_upload y
        + (if b \<and> k_open y \<and> k_phase y \<noteq> Ended then int (length (data_of (k_sid y) msg)) else 0)"

lemmas task_receives_defs = task_receives_def task_ok_def credit_ok_def held_in_def unsent_def early_def unsent_download_def
  ungranted_upload_def

definition abort :: "stream_task \<Rightarrow> stream_task" where
  "abort y = y\<lparr>k_open := False, k_aborted := True\<rparr>"

lemma abort_sel [simp]: "k_aborted (abort y)" "y = abort y \<Longrightarrow> k_aborted y" "k_phase (abort y) = k_phase y" "k_sid (abort y) = k_sid y"
proof -
  show "y = abort y \<Longrightarrow> k_aborted y" by (cases y) (simp add: abort_def)
qed (simp_all add: abort_def)

lemma abort_task_ok: "task_ok (abort y) = task_ok y"
  by (simp add: task_ok_def abort_def credit_ok_def early_def unsent_def)

lemma same_receives:
  assumes "b \<Longrightarrow> data_of (k_sid y) msg = [] \<or> \<not> k_open y \<or> k_phase y = Ended" and "b \<Longrightarrow> grant_of (k_sid y) msg = 0"
  shows "task_receives b msg y y" and "task_receives b msg y (abort y)" and "task_receives b msg y (y\<lparr>k_open := False\<rparr>)"
  using assms by (auto simp: task_receives_defs abort_def)

lemma remove_backend_tasks:
  "stream_tasks (remove_backend sid s) k = (if serves s k sid then map_option abort (stream_tasks s k) else stream_tasks s k)"
  by (auto simp: remove_backend_def drop_state_def serves_def abort_def [abs_def] split: option.splits)

lemma remove_backend_serves: "serves (remove_backend sid s) k i \<longleftrightarrow> serves s k i \<and> i \<noteq> sid"
  by (auto simp: remove_backend_def drop_state_def serves_def map_of_delete split: option.splits)

lemma retain_serves:
  "serves (s\<lparr>backends := filter (\<lambda>(_, u). \<not> is_finished s u) (backends s)\<rparr>) k sid \<Longrightarrow> distinct_keys (backends s) \<Longrightarrow>
    serves s k sid"
  by (auto simp: serves_def map_of_filter split: option.splits if_splits)

lemma serves_sid: "session_inv s \<Longrightarrow> stream_tasks s k = Some y \<Longrightarrow> serves s k sid \<Longrightarrow> k_sid y = sid"
  by (fastforce simp: session_inv_def backends_ok_def serves_def)


text \<open>The finished entries are dropped, and a stream of the same id is aborted; then the new task is added or refused.\<close>

lemma handle_connect_view:
  fixes sid :: u32 and url :: string
  assumes inv: "session_inv s" and fresh: "stream_tasks s u = None"
  defines "s' \<equiv> handle_connect u sid url s"
  shows "k \<noteq> u \<Longrightarrow> stream_tasks s' k = stream_tasks s k \<or> serves s k sid \<and> stream_tasks s' k = map_option abort (stream_tasks s k)"
    and "stream_tasks s' u \<in> {None, Some (stream_task_new sid url)}"
    and "k \<noteq> u \<Longrightarrow> serves s' k i \<Longrightarrow> serves s k i"
    and "k \<noteq> u \<Longrightarrow> serves s k i \<Longrightarrow> serves s' k i \<or> is_finished s k \<or> i = sid \<and> stream_tasks s' k = map_option abort (stream_tasks s k)"
    and "stream_tasks s' u \<noteq> None \<Longrightarrow> serves s' u sid"
    and "outbound s' = outbound s" and "refusals s' = refusals s \<or> refusals s' = refusals s @ [ConnectErr sid ''connector overloaded'']"
    and "outbound_closed s' = outbound_closed s"
proof -
  let ?f = "s\<lparr>backends := filter (\<lambda>(_, u). \<not> is_finished s u) (backends s)\<rparr>"
  define s1 where "s1 = remove_backend sid ?f"
  have dist: "distinct_keys (backends s)" using inv by (simp add: session_inv_def backends_ok_def)
  have f: "serves ?f k i \<longleftrightarrow> serves s k i \<and> \<not> is_finished s k" for k i
    using dist by (auto simp: serves_def map_of_filter split: option.splits)
  have s': "s' = (if MAX_ACTIVE_STREAMS \<le> length (backends s1)
      then s1\<lparr>refusals := refusals s1 @ [ConnectErr sid ''connector overloaded'']\<rparr>
      else s1\<lparr>stream_tasks := (stream_tasks s1)(u \<mapsto> stream_task_new sid url), backends := AList.update sid u (backends s1)\<rparr>)"
    by (simp add: s'_def handle_connect_def Let_def s1_def)
  have t1: "stream_tasks s1 k = (if serves ?f k sid then map_option abort (stream_tasks s k) else stream_tasks s k)" for k
    by (simp add: s1_def remove_backend_tasks)
  have v1: "serves s1 k i \<longleftrightarrow> serves ?f k i \<and> i \<noteq> sid" for k i by (simp add: s1_def remove_backend_serves)
  have o1: "outbound s1 = outbound s" "refusals s1 = refusals s" "outbound_closed s1 = outbound_closed s"
    by (simp_all add: s1_def remove_backend_def drop_state_def split: option.splits)
  have u: "\<not> serves s u i" for i using inv fresh by (fastforce simp: serves_def session_inv_def backends_ok_def)
  have up: "serves (s1\<lparr>stream_tasks := g, backends := AList.update sid u (backends s1)\<rparr>) k i \<longleftrightarrow> (if i = sid then k = u else serves s1 k i)" for g k i
    by (auto simp: serves_def map_of_update)
  have rf: "serves (s1\<lparr>refusals := r\<rparr>) k i = serves s1 k i" for r k i by (simp add: serves_def)
  show "k \<noteq> u \<Longrightarrow> stream_tasks s' k = stream_tasks s k \<or> serves s k sid \<and> stream_tasks s' k = map_option abort (stream_tasks s k)"
    by (simp add: s' t1 f)
  show "stream_tasks s' u \<in> {None, Some (stream_task_new sid url)}" using u fresh by (simp add: s' t1 f)
  show "k \<noteq> u \<Longrightarrow> serves s' k i \<Longrightarrow> serves s k i" by (auto simp: s' up rf v1 f split: if_splits)
  show "k \<noteq> u \<Longrightarrow> serves s k i \<Longrightarrow> serves s' k i \<or> is_finished s k \<or> i = sid \<and> stream_tasks s' k = map_option abort (stream_tasks s k)"
    by (auto simp: s' up rf v1 f t1 split: if_splits)
  show "stream_tasks s' u \<noteq> None \<Longrightarrow> serves s' u sid" using u fresh by (auto simp: s' up t1 f split: if_splits)
  show "outbound s' = outbound s" "outbound_closed s' = outbound_closed s" by (simp_all add: s' o1)
  show "refusals s' = refusals s \<or> refusals s' = refusals s @ [ConnectErr sid ''connector overloaded'']" by (simp add: s' o1)
qed


lemma close_receives: "task_receives b (Close i) y (y\<lparr>k_open := False\<rparr>)"
  by (rule same_receives(3)) simp_all

lemma data_receives:
  "k_open y \<Longrightarrow> k_phase y \<noteq> Ended \<Longrightarrow> task_receives True (Data (k_sid y) payload) y (y\<lparr>k_queue := k_queue y @ [payload]\<rparr>)"
  by (auto simp: task_receives_defs)

lemma grant_receives:
  assumes "task_ok y"
  shows "task_receives True (WindowUpdate (k_sid y) bytes) y (y\<lparr>k_credit :=
     (case credit_added (int STREAM_RECV_WINDOW) (as_i64 (unat bytes)) (k_credit y) of Some c \<Rightarrow> c | None \<Rightarrow> k_credit y)\<rparr>)"
    (is "task_receives True _ y ?y")
proof -
  have ok: "credit_ok y" using assms by (simp add: task_ok_def)
  have "credit_ok ?y" by (rule grant_ok(1) [OF ok])
  moreover have "k_credit y + int (unat bytes) \<le> int STREAM_RECV_WINDOW \<Longrightarrow> k_credit ?y = k_credit y + int (unat bytes)"
    using ok credit_add_fits [of "k_credit y" "unat bytes"] by (simp add: credit_ok_def)
  ultimately show ?thesis
    by (auto simp: task_receives_def task_ok_def held_in_def unsent_def early_def unsent_download_def ungranted_upload_def)
qed

lemma session_message_moves:
  assumes inv: "session_inv s" and y: "stream_tasks s k = Some y" "task_ok y" and fresh: "stream_tasks s u = None"
  shows "\<exists>y'. stream_tasks (session_message u msg s) k = Some y' \<and> task_receives (serves s k (k_sid y)) msg y y'
    \<and> (serves (session_message u msg s) k (k_sid y) \<longrightarrow> serves s k (k_sid y))
    \<and> (serves s k (k_sid y) \<longrightarrow> serves (session_message u msg s) k (k_sid y) \<or> k_phase y' = Ended \<or> k_aborted y')"
proof (cases "\<exists>sid. serves s k sid \<and> (case msg of Data i _ \<Rightarrow> i = sid | WindowUpdate i _ \<Rightarrow> i = sid | Close i \<Rightarrow> i = sid
      | Reset i \<Rightarrow> i = sid | _ \<Rightarrow> False)")
  case True
  then obtain sid where sid: "serves s k sid" "case msg of Data i _ \<Rightarrow> i = sid | WindowUpdate i _ \<Rightarrow> i = sid | Close i \<Rightarrow> i = sid
      | Reset i \<Rightarrow> i = sid | _ \<Rightarrow> False" by blast
  then have "k_sid y = sid" using serves_sid [OF inv y(1)] by blast
  note sv = sid(1) [folded this] and for_k = sid(2) [folded this]
  have rm: "\<exists>y'. stream_tasks (remove_backend (k_sid y) s) k = Some y' \<and> task_receives True msg y y' \<and> k_aborted y'"
    if "data_of (k_sid y) msg = [] \<or> \<not> k_open y \<or> k_phase y = Ended" "grant_of (k_sid y) msg = 0"
    using y sv same_receives(2) [of True y msg] that by (simp add: remove_backend_tasks abort_def)
  show ?thesis
  proof (cases msg)
    case (Data i payload)
    then show ?thesis
      using y sv for_k rm data_receives [of y payload] same_receives(1) [of True y msg]
      by (auto simp: session_message_def is_finished_def serves_def split: if_splits)
  next
    case (WindowUpdate i bytes)
    then show ?thesis using y sv for_k grant_receives [OF y(2), of bytes] by (auto simp: session_message_def serves_def)
  next
    case (Close i)
    then show ?thesis using y sv for_k close_receives [of True i y] by (auto simp: session_message_def serves_def)
  next
    case (Reset i)
    then show ?thesis using sv for_k rm by (auto simp: session_message_def)
  qed (use for_k in simp_all)
next
  case False
  have ku: "k \<noteq> u" using y fresh by auto
  have quiet: "serves s k (k_sid y) \<Longrightarrow> data_of (k_sid y) msg = []" "serves s k (k_sid y) \<Longrightarrow> grant_of (k_sid y) msg = 0"
    using False by (cases msg; auto)+
  note same = same_receives [of "serves s k (k_sid y)" y msg, OF disjI1 [OF quiet(1)] quiet(2)]
  show ?thesis
  proof (cases msg)
    case (Connect i url)
    let ?s = "handle_connect u i url s"
    have "stream_tasks ?s k = Some y \<or> serves s k i \<and> stream_tasks ?s k = Some (abort y)"
      using handle_connect_view(1) [OF inv fresh ku, of i url] y by simp
    moreover have "serves s k (k_sid y) \<Longrightarrow> serves ?s k (k_sid y) \<or> k_phase y = Ended \<or> stream_tasks ?s k = Some (abort y)"
      using handle_connect_view(4) [OF inv fresh ku, of "k_sid y" i url] y by (auto simp: is_finished_def)
    ultimately show ?thesis
      using same handle_connect_view(3) [OF inv fresh ku, of i url "k_sid y"] Connect by (auto simp: session_message_def)
  next
    case (Data i payload)
    then have "\<not> serves s k i" using False by auto
    then show ?thesis using Data y same
      by (auto simp: session_message_def remove_backend_tasks remove_backend_serves [unfolded serves_def] serves_def split: option.splits)
  qed (use False y same in \<open>auto simp: session_message_def remove_backend_tasks remove_backend_serves [unfolded serves_def] serves_def split: option.splits\<close>)
qed


text \<open>A message adds no answer, and spawns at most one task.\<close>

lemma session_message_sel [simp]: "outbound (session_message u msg s) = outbound s"
  "outbound_closed (session_message u msg s) = outbound_closed s"
  by (auto simp: session_message_def handle_connect_def remove_backend_def drop_state_def Let_def split: message.splits option.splits)

lemma session_message_refusals:
  "set (refusals (session_message u msg s)) \<subseteq> set (refusals s) \<union> {r. \<exists>sid. r = ConnectErr sid ''connector overloaded''}"
  by (auto simp: session_message_def handle_connect_def remove_backend_def drop_state_def Let_def
      split: message.splits option.splits if_splits)

lemma session_message_new:
  assumes inv: "session_inv s" and fresh: "stream_tasks s u = None" "stream_tasks s k = None"
    and y: "stream_tasks (session_message u msg s) k = Some y"
  obtains sid url where "k = u" "msg = Connect sid url" "y = stream_task_new sid url" "serves (session_message u msg s) u sid"
proof (cases msg)
  case (Connect sid url)
  have "k = u" using handle_connect_view(1) [OF inv fresh(1), of k sid url] y fresh(2) Connect by (auto simp: session_message_def)
  moreover from this have "y = stream_task_new sid url" "serves (session_message u msg s) u sid"
    using handle_connect_view(2,5) [OF inv fresh(1), of sid url] y Connect by (auto simp: session_message_def)
  ultimately show ?thesis using that Connect by blast
qed (use y fresh(2) in \<open>auto simp: session_message_def remove_backend_tasks split: option.splits if_splits\<close>)

section \<open>What the connector has answered\<close>

definition answer_ok :: "session \<Rightarrow> message \<Rightarrow> bool" where
  "answer_ok s msg \<longleftrightarrow> (case msg of
       ConnectErr _ _ \<Rightarrow> True
     | ConnectOk sid \<Rightarrow> \<exists>k y. stream_tasks s k = Some y \<and> k_sid y = sid \<and> \<not> early y
     | Data sid _ \<Rightarrow> \<exists>k y. stream_tasks s k = Some y \<and> k_sid y = sid \<and> \<not> early y
     | WindowUpdate sid _ \<Rightarrow> \<exists>k y. stream_tasks s k = Some y \<and> k_sid y = sid \<and> \<not> early y
     | Close sid \<Rightarrow> \<exists>k y. stream_tasks s k = Some y \<and> k_sid y = sid \<and> k_phase y = Ended
     | _ \<Rightarrow> False)"

definition answers_inv :: "session \<Rightarrow> bool" where
  "answers_inv s \<longleftrightarrow> session_inv s \<and> (\<forall>k y. stream_tasks s k = Some y \<longrightarrow> task_ok y)
     \<and> (\<forall>r \<in> set (refusals s). \<exists>sid e. r = ConnectErr sid e) \<and> (\<forall>msg \<in> set (outbound s). answer_ok s msg)
     \<and> (\<forall>k y. stream_tasks s k = Some y \<longrightarrow> serves s k (k_sid y) \<or> k_aborted y \<or> k_phase y = Ended)"

lemma answers_invD:
  assumes "answers_inv s"
  shows "session_inv s" and "stream_tasks s k = Some y \<Longrightarrow> task_ok y" and "r \<in> set (refusals s) \<Longrightarrow> \<exists>sid e. r = ConnectErr sid e"
    and "msg \<in> set (outbound s) \<Longrightarrow> answer_ok s msg"
    and "stream_tasks s k = Some y \<Longrightarrow> serves s k (k_sid y) \<or> k_aborted y \<or> k_phase y = Ended"
  using assms unfolding answers_inv_def by blast+

text \<open>A task as later steps see it: same stream, no earlier phase.\<close>

definition task_later :: "stream_task \<Rightarrow> stream_task \<Rightarrow> bool" where
  "task_later y y' \<longleftrightarrow> k_sid y' = k_sid y \<and> k_target y' = k_target y \<and> (early y' \<longrightarrow> early y)
     \<and> (k_phase y = Ended \<longrightarrow> k_phase y' = Ended) \<and> (k_aborted y \<longrightarrow> k_aborted y') \<and> (k_open y' \<longrightarrow> k_open y)"

lemma answer_ok_later:
  assumes "answer_ok s msg" and "\<And>k y. stream_tasks s k = Some y \<Longrightarrow> \<exists>y'. stream_tasks s' k = Some y' \<and> task_later y y'"
  shows "answer_ok s' msg"
  using assms(1)
  by (cases msg) (auto simp: answer_ok_def task_later_def dest!: assms(2), blast+)


lemma stream_handler_later: "stream_handler closed e y = Some (y', ms) \<Longrightarrow> task_later y y'"
  by (cases e) (auto simp: stream_handler_def task_later_def early_def backend_written_def Let_def idle_upload_def idle_download_def
      split: if_splits option.splits list.splits stream_phase.splits sum.splits)

lemma end_session_view:
  assumes y: "stream_tasks s k = Some y"
  shows "stream_tasks (end_session s) k = Some (if k \<in> snd ` set (backends s) then abort y else y)"
proof -
  have ab: "abort (abort y) = abort y" for y by (simp add: abort_def)
  have "stream_tasks (foldl (\<lambda>s (_ :: u32, t). drop_state t s) s bs) k = Some (if k \<in> snd ` set bs then abort y else y)"
    if "stream_tasks s k = Some y" for s bs y
    using that
  proof (induction bs arbitrary: s y)
    case (Cons b bs)
    have "stream_tasks (drop_state (snd b) s) k = Some (if snd b = k then abort y else y)"
      using Cons.prems by (cases "k = snd b") (simp_all add: drop_state_def abort_def)
    then show ?case using Cons.IH [of "drop_state (snd b) s"] by (cases b) (auto simp: ab)
  qed simp
  then show ?thesis using y by (simp add: end_session_def)
qed

lemma end_session_sel [simp]: "outbound (end_session s) = outbound s" "refusals (end_session s) = refusals s"
    "backends (end_session s) = []" "outbound_closed (end_session s)" "stream_tasks (end_session s) k = None \<longleftrightarrow> stream_tasks s k = None"
proof -
  have "outbound (foldl (\<lambda>s (_ :: u32, t). drop_state t s) s bs) = outbound s"
    "refusals (foldl (\<lambda>s (_ :: u32, t). drop_state t s) s bs) = refusals s"
    "stream_tasks (foldl (\<lambda>s (_ :: u32, t). drop_state t s) s bs) k = None \<longleftrightarrow> stream_tasks s k = None" for s bs
    by (induction bs arbitrary: s) (auto simp: drop_state_def simp del: not_None_eq split: if_splits)
  then show "outbound (end_session s) = outbound s" "refusals (end_session s) = refusals s"
    "stream_tasks (end_session s) k = None \<longleftrightarrow> stream_tasks s k = None" by (simp_all add: end_session_def)
qed (simp_all add: end_session_def)

lemma session_step_later:
  assumes inv: "answers_inv s" and step: "session_step s e s'" and y: "stream_tasks s k = Some y"
  shows "\<exists>y'. stream_tasks s' k = Some y' \<and> task_later y y'"
  using step
proof cases
  case (message u msg)
  obtain y' where "stream_tasks s' k = Some y'" "task_receives (serves s k (k_sid y)) msg y y'"
    using session_message_moves [OF answers_invD(1) [OF inv] y answers_invD(2) [OF inv y] message(4)] message(2) by blast
  then show ?thesis by (auto simp: task_receives_def task_later_def early_def)
next
  case (task u z ev z' ms)
  then show ?thesis using y stream_handler_later [OF task(4)] by (cases "u = k") (auto simp: task_later_def)
next
  case finish
  then show ?thesis using end_session_view [OF y] by (auto simp: task_later_def abort_def early_def)
qed (use y in \<open>auto simp: task_later_def\<close>)


text \<open>What a task sends fits its new phase.\<close>

lemma stream_handler_said:
  assumes "stream_handler closed e y = Some (y', ms)"
  shows "ms \<noteq> [] \<Longrightarrow> \<not> early y'"
    and "msg \<in> set ms \<Longrightarrow> (\<exists>error. msg = ConnectErr (k_sid y) error) \<or> msg = ConnectOk (k_sid y) \<or> (\<exists>d. msg = Data (k_sid y) d)
      \<or> (\<exists>b. msg = WindowUpdate (k_sid y) b) \<or> (msg = Close (k_sid y) \<and> k_phase y' = Ended)"
  using assms by (cases e; auto simp: stream_handler_def early_def split: if_splits option.splits list.splits stream_phase.splits sum.splits)+

lemma answer_ok_said:
  assumes "stream_handler closed e y = Some (y', ms)" and "msg \<in> set ms" and "stream_tasks s k = Some y'"
  shows "answer_ok s msg"
proof -
  have "k_sid y' = k_sid y" using stream_handler_later [OF assms(1)] by (simp add: task_later_def)
  moreover have "ms \<noteq> []" using assms(2) by auto
  then have "\<not> early y'" by (rule stream_handler_said(1) [OF assms(1)])
  ultimately show ?thesis using stream_handler_said(2) [OF assms(1,2)] assms(3)
    by (auto simp: answer_ok_def intro!: exI [of _ k] exI [of _ y'])
qed

lemma answers_inv_served:
  assumes inv: "answers_inv s" and step: "session_step s e s'" and y': "stream_tasks s' k = Some y'"
  shows "serves s' k (k_sid y') \<or> k_aborted y' \<or> k_phase y' = Ended"
  using step
proof cases
  case (message u msg)
  note si = answers_invD(1) [OF inv]
  show ?thesis
  proof (cases "stream_tasks s k")
    case None
    then show ?thesis using session_message_new [OF si message(4) None] y' message(2) by (metis stream_task.select_convs(1) stream_task_new_def)
  next
    case (Some y)
    then show ?thesis
      using session_message_moves [OF si Some answers_invD(2) [OF inv Some] message(4), of msg] answers_invD(5) [OF inv Some] y' message(2)
      by (auto simp: task_receives_def)
  qed
next
  case (task u z ev z' ms)
  have "serves s' k (k_sid y') \<longleftrightarrow> serves s k (k_sid y')" using task(2) by (simp add: serves_def)
  then show ?thesis
    using y' task answers_invD(5) [OF inv, of k] stream_handler_later [OF task(4)]
    by (cases "u = k") (auto simp: task_later_def)
next
  case finish
  then have "stream_tasks s k \<noteq> None" using y' by (metis end_session_sel(5) option.distinct(1))
  then obtain y where y: "stream_tasks s k = Some y" by blast
  have "serves s k (k_sid y) \<Longrightarrow> k \<in> snd ` set (backends s)"
    by (force simp: serves_def dest: map_of_SomeD)
  then show ?thesis using y' finish end_session_view [OF y] answers_invD(5) [OF inv y] by (auto split: if_splits)
qed (use y' answers_invD(5) [OF inv] in \<open>auto simp: serves_def\<close>)

lemma answers_inv_task_ok:
  assumes inv: "answers_inv s" and step: "session_step s e s'" and y': "stream_tasks s' k = Some y'"
  shows "task_ok y'"
  using step
proof cases
  case (message u msg)
  note si = answers_invD(1) [OF inv]
  show ?thesis
  proof (cases "stream_tasks s k")
    case None
    have "task_ok (stream_task_new sid url)" for sid url
      by (simp add: stream_task_new_def task_ok_def credit_ok_def early_def unsent_def WINDOW_UPDATE_THRESHOLD_def STREAM_RECV_WINDOW_def)
    then show ?thesis using session_message_new [OF si message(4) None] y' message(2) by metis
  next
    case (Some y)
    then show ?thesis
      using session_message_moves [OF si Some answers_invD(2) [OF inv Some] message(4), of msg] answers_invD(2) [OF inv Some] y' message(2)
      by (auto simp: task_receives_def)
  qed
next
  case (task u z ev z' ms)
  then show ?thesis
    using y' answers_invD(2) [OF inv] stream_handler_task_ok [OF answers_invD(2) [OF inv task(3)] task(4)] by (auto split: if_splits)
next
  case finish
  then have "stream_tasks s k \<noteq> None" using y' by (metis end_session_sel(5) option.distinct(1))
  then obtain y where y: "stream_tasks s k = Some y" by blast
  then show ?thesis
    using y' finish end_session_view [OF y] answers_invD(2) [OF inv y]
    by (auto simp: abort_task_ok split: if_splits)
qed (use y' answers_invD(2) [OF inv] in auto)

lemma answers_inv_step: "answers_inv s \<Longrightarrow> session_step s e s' \<Longrightarrow> answers_inv s'"
proof -
  assume inv: "answers_inv s" and step: "session_step s e s'"
  have old: "answer_ok s' msg" if "msg \<in> set (outbound s)" for msg
    by (rule answer_ok_later [OF answers_invD(4) [OF inv that] session_step_later [OF inv step]])
  have "\<forall>msg \<in> set (outbound s'). answer_ok s' msg"
    using step
  proof cases
    case (refusal ms msg ms')
    then have "\<exists>sid e. msg = ConnectErr sid e" by (intro answers_invD(3) [OF inv]) simp
    then show ?thesis using refusal old by (auto simp: answer_ok_def)
  next
    case (task u z ev z' ms)
    then show ?thesis using old answer_ok_said [OF task(4), of _ s' u] by auto
  qed (use old in auto)
  moreover have "\<forall>r \<in> set (refusals s'). \<exists>sid e. r = ConnectErr sid e"
    using step answers_invD(3) [OF inv]
    by cases (use session_message_refusals in \<open>auto dest!: subsetD [OF session_message_refusals]\<close>)
  ultimately show ?thesis
    using session_step_inv [OF answers_invD(1) [OF inv] step] answers_inv_served [OF inv step] answers_inv_task_ok [OF inv step]
    unfolding answers_inv_def by blast
qed

interpretation answers_runs: step_invariant session_step answers_inv
  by unfold_locales (rule answers_inv_step)

lemma answers_inv_new: "answers_inv session_new"
  using session_new_inv by (simp add: answers_inv_def session_new_def)


section \<open>A step of the connector\<close>

text \<open>Two tasks never share a stream id.\<close>

definition tasks_unique :: "session \<Rightarrow> bool" where
  "tasks_unique s \<longleftrightarrow> (\<forall>k k' y y'. stream_tasks s k = Some y \<longrightarrow> stream_tasks s k' = Some y' \<longrightarrow> k_sid y = k_sid y' \<longrightarrow> k = k')"

lemma tasks_uniqueD: "tasks_unique s \<Longrightarrow> stream_tasks s k = Some y \<Longrightarrow> stream_tasks s k' = Some y' \<Longrightarrow> k_sid y = k_sid y' \<Longrightarrow> k = k'"
  unfolding tasks_unique_def by blast

fun session_reads :: "nat \<Rightarrow> session_event \<Rightarrow> byte list" where
  "session_reads k (Task u e) = (if u = k then task_reads e else [])"
| "session_reads k _ = []"

fun session_writes :: "nat \<Rightarrow> stream_task \<Rightarrow> session_event \<Rightarrow> byte list" where
  "session_writes k y (Task u e) = (if u = k then task_writes y e else [])"
| "session_writes k y _ = []"

fun is_from_server :: "session_event \<Rightarrow> bool" where
  "is_from_server (From_server _) = True"
| "is_from_server _ = False"

lemma same_task_moves: "silent (k_sid y) ms \<Longrightarrow> task_moves [] [] ms y y" "silent (k_sid y) ms \<Longrightarrow> task_moves [] [] ms y (abort y)"
  by (simp_all add: task_moves_defs abort_def)

lemma stream_handler_silent:
  assumes "stream_handler closed e z = Some (z', ms)" and "sid \<noteq> k_sid z"
  shows "silent sid ms"
proof -
  have "data_of sid msg = [] \<and> grant_of sid msg = 0" if "msg \<in> set ms" for msg
    using stream_handler_said(2) [OF assms(1) that] assms(2) by auto
  then show ?thesis by (auto simp: silent_def log_data_def log_grants_def)
qed

lemma session_local_moves:
  assumes inv: "answers_inv s" and un: "tasks_unique s" and y: "stream_tasks s k = Some y"
    and small: "ungranted_upload y < 2 ^ 32" and dial: "k_phase y = Dialing \<Longrightarrow> k_queue y = []"
    and step: "session_step s e s'" and e: "\<not> is_from_server e"
  shows "\<exists>y' ms. stream_tasks s' k = Some y' \<and> outbound s' = outbound s @ ms
    \<and> task_moves (session_reads k e) (session_writes k y e) ms y y' \<and> (serves s' k (k_sid y) \<longrightarrow> serves s k (k_sid y))"
  using step
proof cases
  case (message u msg)
  then show ?thesis using e by simp
next
  case (refusal ms msg ms')
  then have "\<exists>sid e. msg = ConnectErr sid e" by (intro answers_invD(3) [OF inv]) simp
  then show ?thesis using refusal y same_task_moves(1) [of y "[msg]"] by (auto simp: silent_def serves_def)
next
  case (task u z ev z' ms)
  show ?thesis
  proof (cases "u = k")
    case True
    then have z: "z = y" using task(3) y by simp
    have "ev \<noteq> Skip_data" using task(4) dial z by (auto simp: stream_handler_def split: stream_phase.splits list.splits)
    then have "task_moves (task_reads ev) (task_writes y ev) ms y z'"
      using stream_handler_moves [OF answers_invD(2) [OF inv y] small] task(4) z by blast
    then show ?thesis using True task by (simp add: serves_def)
  next
    case False
    then have "k_sid y \<noteq> k_sid z" using tasks_uniqueD [OF un y task(3)] by blast
    then show ?thesis using same_task_moves(1) [OF stream_handler_silent [OF task(4)]] False task y by (simp add: serves_def)
  qed
next
  case finish
  then show ?thesis using end_session_view [OF y] same_task_moves [of y "[]"] by (auto simp: silent_def serves_def)
qed

end
