(* ===== verification/Tunnel_System.thy ===== *)
theory Tunnel_System
  imports Task_Views Wss_Link
begin

text \<open>
  Both ends of a WebSocket session and the link between them: the server's \<open>ConnectorManager\<close>
  (\<open>Connector_Manager\<close>), the connector's \<open>SessionManager\<close> (\<open>Session_Manager\<close>), and the two directions of the
  socket, which carry the messages encoded, in order (\<open>crates/server/src/transport/websocket.rs\<close> and
  \<open>crates/connector/src/transport_wss.rs\<close>). What has crossed the four sockets is recorded: the bytes taken
  from and written to each client at the server, and to and from each backend at the connector.
\<close>

declare map_of_eq_Some_iff [simp del] and Some_eq_map_of_iff [simp del]

section \<open>The system\<close>

record tunnel_system =
  srv :: manager
  con :: session
  read_down :: nat                       \<comment> \<open>messages of the outbox the connector has read\<close>
  read_up :: nat                         \<comment> \<open>messages of the outbound queue the server has read\<close>
  writer_over :: bool                    \<comment> \<open>the server's writing loop has ended\<close>
  from_client :: "nat \<Rightarrow> byte list"
  to_client :: "nat \<Rightarrow> byte list"
  from_backend :: "nat \<Rightarrow> byte list"
  to_backend :: "nat \<Rightarrow> byte list"

definition system_new :: "string \<Rightarrow> tunnel_system" where
  "system_new cid = \<lparr>srv = manager_new cid Wss, con = session_new, read_down = 0, read_up = 0, writer_over = False,
     from_client = (\<lambda>_. []), to_client = (\<lambda>_. []), from_backend = (\<lambda>_. []), to_backend = (\<lambda>_. [])\<rparr>"

datatype system_event = Srv manager_event | Con session_event | Down | Up | Writer_end

definition server_io :: "manager_event \<Rightarrow> tunnel_system \<Rightarrow> tunnel_system" where
  "server_io e j = j\<lparr>from_client := (\<lambda>t. from_client j t @ uploads t e),
     to_client := (\<lambda>t. to_client j t @ (case tunnels (srv j) t of Some x \<Rightarrow> writes t x e | None \<Rightarrow> []))\<rparr>"

definition connector_io :: "session_event \<Rightarrow> tunnel_system \<Rightarrow> tunnel_system" where
  "connector_io e j = j\<lparr>from_backend := (\<lambda>k. from_backend j k @ session_reads k e),
     to_backend := (\<lambda>k. to_backend j k @ (case stream_tasks (con j) k of Some y \<Rightarrow> session_writes k y e | None \<Rightarrow> []))\<rparr>"

text \<open>A grant cannot be sent only once the writing loop has ended. A message is framed by the loop of its
  sender and decoded by that of its receiver; one that cannot be framed is never read.\<close>

fun is_channel_closed :: "manager_event \<Rightarrow> bool" where
  "is_channel_closed (Channel_closed _) = True"
| "is_channel_closed _ = False"

inductive system_step :: "tunnel_system \<Rightarrow> system_event \<Rightarrow> tunnel_system \<Rightarrow> bool" where
  server: "manager_step (srv j) e m' \<Longrightarrow> \<not> is_receive e \<Longrightarrow> (is_channel_closed e \<Longrightarrow> writer_over j) \<Longrightarrow>
    system_step j (Srv e) ((server_io e j)\<lparr>srv := m'\<rparr>)"
| connector: "session_step (con j) e s' \<Longrightarrow> \<not> is_from_server e \<Longrightarrow>
    system_step j (Con e) ((connector_io e j)\<lparr>con := s'\<rparr>)"
| down: "\<not> writer_over j \<Longrightarrow> read_down j < length (outbox (srv j)) \<Longrightarrow>
    write_turn (From_queue (Some (outbox (srv j) ! read_down j))) = Some f \<Longrightarrow>
    wss_recv [Frame f] = Some (Inr (Some msg), []) \<Longrightarrow> session_step (con j) (From_server msg) s' \<Longrightarrow>
    system_step j Down (j\<lparr>con := s', read_down := Suc (read_down j)\<rparr>)"
| up: "read_up j < length (outbound (con j)) \<Longrightarrow> connector_frame (outbound (con j) ! read_up j) = Inr f \<Longrightarrow>
    read_turn show_error (Frame f) = Handle msg \<Longrightarrow>
    system_step j Up (j\<lparr>srv := handle_message msg (srv j), read_up := Suc (read_up j)\<rparr>)"
| writer: "system_step j Writer_end (j\<lparr>writer_over := True\<rparr>)"

section \<open>Crossing the link\<close>

lemma be32_inj [simp]: "be32 a @ r = be32 b @ r' \<longleftrightarrow> a = b \<and> r = r'"
proof
  assume "be32 a @ r = be32 b @ r'"
  then have "Inr (a, r) = (Inr (b, r') :: (u32 \<times> byte list) io_result)" by (metis get_u32_put)
  then show "a = b \<and> r = r'" by simp
qed simp

lemma be32_inj_end [simp]: "be32 a = be32 b \<longleftrightarrow> a = b"
  using be32_inj [of a "[]" b "[]"] by simp

lemma field_inj [simp]: "str_field s = str_field s' \<longleftrightarrow> s = s'" "payload_field p = payload_field p' \<longleftrightarrow> p = p'"
  by (auto simp: str_field_def payload_field_def be16_def)

lemma body_bytes_inj: "body_bytes m = body_bytes m' \<Longrightarrow> m = m'"
  by (cases m; cases m') auto

lemma crossed: "encode m = Inr b \<Longrightarrow> decode b = Inr msg \<Longrightarrow> msg = wire_form m"
  using body_bytes_inj [of "wire_form m" msg] by (auto simp: encode_Inr decode_Inr)

lemma wire_form_sel [simp]: "data_of sid (wire_form m) = data_of sid m" "grant_of sid (wire_form m) = grant_of sid m"
  "wire_form m = Connect sid url \<longleftrightarrow> m = Connect sid url" "wire_form m = ConnectOk sid \<longleftrightarrow> m = ConnectOk sid"
  "wire_form m = Close sid \<longleftrightarrow> m = Close sid" "wire_form m = Reset sid \<longleftrightarrow> m = Reset sid"
  by (cases m; simp)+

lemma down_crossed:
  assumes "write_turn (From_queue (Some m)) = Some f" and "wss_recv [Frame f] = Some (Inr (Some msg), [])"
  shows "msg = wire_form m"
  using assms by (auto simp: write_turn_def and_then_eq_Inr split: sum.splits intro!: crossed)

lemma up_crossed:
  assumes "connector_frame m = Inr f" and "read_turn show_error (Frame f) = Handle msg"
  shows "msg = wire_form m"
  using assms by (auto simp: connector_frame_def read_turn_def and_then_eq_Inr split: sum.splits intro!: crossed)

section \<open>One stream\<close>

text \<open>What holds of a tunnel \<open>x\<close> and the task \<open>y\<close> of its stream; \<open>b\<close> and \<open>sv\<close> say that they are still registered. \<open>got\<close> is
  what the other end's messages have brought, \<open>out\<close> what was written to the socket behind.\<close>

definition upload_ok :: "byte list \<Rightarrow> byte list \<Rightarrow> bool \<Rightarrow> stream_task \<Rightarrow> bool" where
  "upload_ok got out sv y \<longleftrightarrow> prefix out got \<and> (k_uploading y \<and> k_phase y \<noteq> Ended \<longrightarrow>
     prefix (out @ held_in y) got \<and> (sv \<and> k_open y \<longrightarrow> out @ held_in y = got))"

definition download_ok :: "byte list \<Rightarrow> byte list \<Rightarrow> bool \<Rightarrow> tunnel \<Rightarrow> bool" where
  "download_ok got out b x \<longleftrightarrow> prefix (out @ held_out x) got \<and> (b \<longrightarrow> out @ held_out x = got)"

definition source_ok :: "byte list \<Rightarrow> byte list \<Rightarrow> stream_task \<Rightarrow> bool" where
  "source_ok sent src y \<longleftrightarrow> prefix sent src \<and> (k_phase y \<noteq> Ended \<longrightarrow> sent @ unsent y = src)"

text \<open>The window of each direction: the credit left, the bytes on their way, the bytes received and not yet
  granted, and the grants on their way.\<close>

definition up_ledger :: "tunnel \<Rightarrow> stream_task \<Rightarrow> nat \<Rightarrow> nat \<Rightarrow> int" where
  "up_ledger x y flying grants = t_credit x + int (length (sending x)) + int flying + ungranted_upload y + int grants"

definition down_ledger :: "tunnel \<Rightarrow> stream_task \<Rightarrow> nat \<Rightarrow> nat \<Rightarrow> int" where
  "down_ledger x y flying grants = unsent_download y + int flying + int (ungranted_download x) + int grants"

definition uploads_live :: "bool \<Rightarrow> bool \<Rightarrow> stream_task \<Rightarrow> bool" where
  "uploads_live b sv y \<longleftrightarrow> b \<and> sv \<and> k_open y \<and> k_uploading y \<and> k_phase y \<noteq> Ended"

definition downloads_live :: "bool \<Rightarrow> bool \<Rightarrow> stream_task \<Rightarrow> bool" where
  "downloads_live b sv y \<longleftrightarrow> b \<and> sv \<and> k_phase y \<noteq> Ended"

definition within :: "int \<Rightarrow> bool \<Rightarrow> bool" where
  "within n exact \<longleftrightarrow> n \<le> int STREAM_RECV_WINDOW \<and> (exact \<longrightarrow> n = int STREAM_RECV_WINDOW)"

lemma tunnel_moves_stream:
  assumes mv: "tunnel_moves up dn ms x x'" and b: "b' \<Longrightarrow> b"
  shows "download_ok got out b x \<Longrightarrow> download_ok got (out @ dn) b' x'"
    and "within (up_ledger x y n g) (uploads_live b sv y) \<Longrightarrow>
      within (up_ledger x' y (n + length (log_data (t_sid x) ms)) g) (uploads_live b' sv y)"
    and "within (down_ledger x y n g) (downloads_live b sv y) \<Longrightarrow>
      within (down_ledger x' y n (g + log_grants (t_sid x) ms)) (downloads_live b' sv y)"
proof -
  have h: "held_out x = dn @ held_out x'" and l: "log_data (t_sid x) ms @ sending x' = sending x @ up"
    and c: "t_credit x' + int (length up) = t_credit x"
    and g: "ungranted_download x' + log_grants (t_sid x) ms = ungranted_download x"
    using mv by (simp_all add: tunnel_moves_def)
  show "download_ok got out b x \<Longrightarrow> download_ok got (out @ dn) b' x'" using h b by (auto simp: download_ok_def)
  have "length (log_data (t_sid x) ms) + length (sending x') = length (sending x) + length up"
    using arg_cong [OF l, of length] by simp
  then have "up_ledger x' y (n + length (log_data (t_sid x) ms)) g = up_ledger x y n g" using c by (simp add: up_ledger_def)
  then show "within (up_ledger x y n g) (uploads_live b sv y) \<Longrightarrow>
      within (up_ledger x' y (n + length (log_data (t_sid x) ms)) g) (uploads_live b' sv y)"
    using b by (auto simp: within_def uploads_live_def)
  have "down_ledger x' y n (g + log_grants (t_sid x) ms) = down_ledger x y n g" using g by (simp add: down_ledger_def)
  then show "within (down_ledger x y n g) (downloads_live b sv y) \<Longrightarrow>
      within (down_ledger x' y n (g + log_grants (t_sid x) ms)) (downloads_live b' sv y)"
    using b by (auto simp: within_def downloads_live_def)
qed

lemma task_moves_stream:
  assumes mv: "task_moves rd wr ms y y'" and sv: "sv' \<Longrightarrow> sv"
  shows "upload_ok got out sv y \<Longrightarrow> upload_ok got (out @ wr) sv' y'"
    and "source_ok sent src y \<Longrightarrow> source_ok (sent @ log_data (k_sid y) ms) (src @ rd) y'"
    and "within (up_ledger x y n g) (uploads_live b sv y) \<Longrightarrow>
      within (up_ledger x y' n (g + log_grants (k_sid y) ms)) (uploads_live b sv' y')"
    and "within (down_ledger x y n g) (downloads_live b sv y) \<Longrightarrow>
      within (down_ledger x y' (n + length (log_data (k_sid y) ms)) g) (downloads_live b sv' y')"
proof -
  have ended: "k_phase y = Ended \<Longrightarrow> k_phase y' = Ended \<and> silent (k_sid y) ms \<and> rd = [] \<and> wr = []"
    and wr: "\<not> k_uploading y \<longrightarrow> wr = []" "prefix wr (held_in y)" and op: "k_uploading y' \<longrightarrow> k_uploading y" "k_open y' \<longrightarrow> k_open y"
    and sent: "prefix (log_data (k_sid y) ms) (unsent y @ rd)" "k_phase y' \<noteq> Ended \<longrightarrow> log_data (k_sid y) ms @ unsent y' = unsent y @ rd"
    and keep: "k_phase y' \<noteq> Ended \<and> k_uploading y' \<longrightarrow> held_in y = wr @ held_in y'"
    using mv by (simp_all add: task_moves_def)
  show "upload_ok got (out @ wr) sv' y'" if ok: "upload_ok got out sv y"
  proof -
    have "prefix (out @ wr) got"
    proof (cases "k_uploading y \<and> k_phase y \<noteq> Ended")
      case True
      then have "prefix (out @ held_in y) got" using ok by (simp add: upload_ok_def)
      moreover have "prefix (out @ wr) (out @ held_in y)" using wr(2) by simp
      ultimately show ?thesis using prefix_order.trans by blast
    next
      case False
      then show ?thesis using ok ended wr(1) by (auto simp: upload_ok_def)
    qed
    moreover have "k_uploading y' \<and> k_phase y' \<noteq> Ended \<Longrightarrow> k_uploading y \<and> k_phase y \<noteq> Ended" using ended op(1) by blast
    ultimately show ?thesis using ok keep op(2) sv by (auto simp: upload_ok_def)
  qed
  show "source_ok sent src y \<Longrightarrow> source_ok (sent @ log_data (k_sid y) ms) (src @ rd) y'"
    using ended sent by (cases "k_phase y = Ended") (auto simp: source_ok_def silent_def)
  show "within (up_ledger x y n g) (uploads_live b sv y) \<Longrightarrow>
      within (up_ledger x y' n (g + log_grants (k_sid y) ms)) (uploads_live b sv' y')"
    using mv sv ended op by (auto simp: within_def up_ledger_def uploads_live_def task_moves_def)
  show "within (down_ledger x y n g) (downloads_live b sv y) \<Longrightarrow>
      within (down_ledger x y' (n + length (log_data (k_sid y) ms)) g) (downloads_live b sv' y')"
    using mv sv ended by (auto simp: within_def down_ledger_def downloads_live_def task_moves_def)
qed

lemma tunnel_receives_stream:
  assumes rc: "tunnel_receives b msg x x'" and b: "b' \<Longrightarrow> b"
  shows "download_ok got out b x \<Longrightarrow> download_ok (got @ data_of (t_sid x) msg) out b' x'"
    and "within (up_ledger x y n (grant_of (t_sid x) msg + g)) (uploads_live b sv y) \<Longrightarrow>
      within (up_ledger x' y n g) (uploads_live b' sv y)"
    and "within (down_ledger x y (length (data_of (t_sid x) msg) + n) g) (downloads_live b sv y) \<Longrightarrow>
      within (down_ledger x' y n g) (downloads_live b' sv y)"
  using assms
  by (auto simp: tunnel_receives_def download_ok_def within_def up_ledger_def down_ledger_def uploads_live_def downloads_live_def
      split: if_splits)

lemma task_receives_stream:
  assumes rc: "task_receives sv msg y y'" and sv: "sv' \<Longrightarrow> sv"
  shows "upload_ok got out sv y \<Longrightarrow> upload_ok (got @ data_of (k_sid y) msg) out sv' y'"
    and "source_ok sent src y \<Longrightarrow> source_ok sent src y'"
    and "within (up_ledger x y (length (data_of (k_sid y) msg) + n) g) (uploads_live b sv y) \<Longrightarrow>
      within (up_ledger x y' n g) (uploads_live b sv' y')"
    and "within (down_ledger x y n (grant_of (k_sid y) msg + g)) (downloads_live b sv y) \<Longrightarrow>
      within (down_ledger x y' n g) (downloads_live b sv' y')"
proof -
  show "upload_ok got out sv y \<Longrightarrow> upload_ok (got @ data_of (k_sid y) msg) out sv' y'"
    using rc sv by (auto simp: task_receives_def upload_ok_def split: if_splits)
  show "source_ok sent src y \<Longrightarrow> source_ok sent src y'" using rc by (simp add: task_receives_def source_ok_def)
  show "within (up_ledger x y (length (data_of (k_sid y) msg) + n) g) (uploads_live b sv y) \<Longrightarrow>
      within (up_ledger x y' n g) (uploads_live b sv' y')"
    using rc sv by (auto simp: task_receives_def within_def up_ledger_def uploads_live_def split: if_splits)
  assume w: "within (down_ledger x y n (grant_of (k_sid y) msg + g)) (downloads_live b sv y)"
  then have "k_credit y + int (grant_of (k_sid y) msg) \<le> int STREAM_RECV_WINDOW"
    by (auto simp: within_def down_ledger_def unsent_download_def split: option.splits)
  then show "within (down_ledger x y' n g) (downloads_live b sv' y')"
    using rc sv w by (auto simp: task_receives_def within_def down_ledger_def downloads_live_def split: if_splits)
qed

section \<open>The invariant\<close>

definition stream_ok :: "tunnel_system \<Rightarrow> nat \<Rightarrow> tunnel \<Rightarrow> nat \<Rightarrow> stream_task \<Rightarrow> bool" where
  "stream_ok j t x k y \<longleftrightarrow>
     (let sid = t_sid x; b = bound_to (srv j) t sid; sv = serves (con j) k sid;
          down = outbox (srv j); up = outbound (con j); n = read_down j; n' = read_up j in
      upload_ok (log_data sid (take n down)) (to_backend j k) sv y
      \<and> download_ok (log_data sid (take n' up)) (to_client j t) b x
      \<and> source_ok (log_data sid up) (from_backend j k) y
      \<and> within (up_ledger x y (length (log_data sid (drop n down))) (log_grants sid (drop n' up))) (uploads_live b sv y)
      \<and> within (down_ledger x y (length (log_data sid (drop n' up))) (log_grants sid (drop n down))) (downloads_live b sv y)
      \<and> (k_phase y = Dialing \<longrightarrow> k_queue y = []))"

text \<open>A tunnel with a stream id: it was accepted only by the connector's word; the client's bytes are in the log or about
  to be; its stream is in order, or has no task.\<close>

definition no_task :: "session \<Rightarrow> u32 \<Rightarrow> bool" where
  "no_task s sid \<longleftrightarrow> (\<forall>k y. stream_tasks s k = Some y \<longrightarrow> k_sid y \<noteq> sid)"

definition tunnel_in_order :: "tunnel_system \<Rightarrow> nat \<Rightarrow> tunnel \<Rightarrow> bool" where
  "tunnel_in_order j t x \<longleftrightarrow>
     (t_response x = Some (Inr ()) \<longrightarrow> ConnectOk (t_sid x) \<in> set (outbound (con j)))
     \<and> log_data (t_sid x) (outbox (srv j)) @ sending x = from_client j t
     \<and> (no_task (con j) (t_sid x) \<longrightarrow> fresh_tunnel x \<and> to_client j t = [])
     \<and> (\<forall>k y. stream_tasks (con j) k = Some y \<longrightarrow> k_sid y = t_sid x \<longrightarrow> stream_ok j t x k y)"

definition started :: "manager \<Rightarrow> nat \<Rightarrow> tunnel \<Rightarrow> bool" where
  "started m t x \<longleftrightarrow> tunnels m t = Some x \<and> t_phase x \<noteq> Reserved"

definition streams_inv :: "tunnel_system \<Rightarrow> bool" where
  "streams_inv j \<longleftrightarrow> tasks_unique (con j)
     \<and> (\<forall>k y. stream_tasks (con j) k = Some y \<longrightarrow> Connect (k_sid y) (k_target y) \<in> set (take (read_down j) (outbox (srv j))))
     \<and> (\<forall>t x. started (srv j) t x \<longrightarrow> tunnel_in_order j t x)
     \<and> (\<forall>t. (\<nexists>x. started (srv j) t x) \<longrightarrow> from_client j t = [] \<and> to_client j t = [])
     \<and> (\<forall>k. stream_tasks (con j) k = None \<longrightarrow> from_backend j k = [] \<and> to_backend j k = [])"

definition system_inv :: "tunnel_system \<Rightarrow> bool" where
  "system_inv j \<longleftrightarrow> log_inv (srv j) \<and> answers_inv (con j) \<and> read_down j \<le> length (outbox (srv j))
     \<and> read_up j \<le> length (outbound (con j)) \<and> (ids_unique (srv j) \<longrightarrow> streams_inv j)"

lemma system_invD:
  assumes "system_inv j"
  shows "log_inv (srv j)" and "answers_inv (con j)" and "read_down j \<le> length (outbox (srv j))"
    and "read_up j \<le> length (outbound (con j))" and "ids_unique (srv j) \<Longrightarrow> streams_inv j"
  using assms unfolding system_inv_def by blast+

lemma streams_invD:
  assumes "streams_inv j"
  shows "tasks_unique (con j)"
    and "stream_tasks (con j) k = Some y \<Longrightarrow> Connect (k_sid y) (k_target y) \<in> set (take (read_down j) (outbox (srv j)))"
    and "started (srv j) t x \<Longrightarrow> tunnel_in_order j t x"
    and "\<nexists>x. started (srv j) t x \<Longrightarrow> from_client j t = [] \<and> to_client j t = []"
    and "stream_tasks (con j) k = None \<Longrightarrow> from_backend j k = [] \<and> to_backend j k = []"
  using assms unfolding streams_inv_def by blast+

lemma tunnel_in_orderD:
  assumes "tunnel_in_order j t x"
  shows "t_response x = Some (Inr ()) \<Longrightarrow> ConnectOk (t_sid x) \<in> set (outbound (con j))"
    and "log_data (t_sid x) (outbox (srv j)) @ sending x = from_client j t"
    and "no_task (con j) (t_sid x) \<Longrightarrow> fresh_tunnel x \<and> to_client j t = []"
    and "stream_tasks (con j) k = Some y \<Longrightarrow> k_sid y = t_sid x \<Longrightarrow> stream_ok j t x k y"
  using assms unfolding tunnel_in_order_def by blast+

lemma log_quiet: "(\<And>msg. msg \<in> set ms \<Longrightarrow> data_of sid msg = [] \<and> grant_of sid msg = 0) \<Longrightarrow> silent sid ms"
  by (simp add: silent_def log_data_def log_grants_def)

text \<open>Nothing is said about a stream that has no task, or to one that was not accepted.\<close>

lemma no_task_silent:
  assumes "answers_inv s" and "no_task s sid"
  shows "silent sid (outbound s)" and "ConnectOk sid \<notin> set (outbound s)"
proof -
  have a: "answer_ok s msg" if "msg \<in> set (outbound s)" for msg by (rule answers_invD(4) [OF assms(1) that])
  show "silent sid (outbound s)"
  proof (rule log_quiet)
    fix msg
    assume "msg \<in> set (outbound s)"
    from a [OF this] show "data_of sid msg = [] \<and> grant_of sid msg = 0"
      using assms(2) by (cases msg) (auto simp: answer_ok_def no_task_def)
  qed
  show "ConnectOk sid \<notin> set (outbound s)" using a [of "ConnectOk sid"] assms(2) by (auto simp: answer_ok_def no_task_def)
qed

lemma unaccepted_silent:
  assumes inv: "log_inv m" and un: "ids_unique m" and x: "started m t x" "t_response x \<noteq> Some (Inr ())"
  shows "silent (t_sid x) (outbox m)"
proof (rule log_quiet)
  fix msg
  assume "msg \<in> set (outbox m)"
  then have ok: "said_ok m msg" by (rule log_invD(3) [OF inv])
  have "x = z" if "tunnels m u = Some z" "t_phase z \<noteq> Reserved" "t_sid z = t_sid x" for u z
    using ids_uniqueD [OF un, of t x u z] x(1) that by (auto simp: started_def)
  then show "data_of (t_sid x) msg = [] \<and> grant_of (t_sid x) msg = 0"
    using ok x(2) by (cases msg) (auto simp: said_ok_def)
qed


section \<open>Steps of the server\<close>

lemma stream_okD:
  assumes "stream_ok j t x k y" and "0 \<le> t_credit x" and "0 \<le> k_credit y"
  shows "int (ungranted_download x) \<le> int STREAM_RECV_WINDOW" and "ungranted_upload y \<le> int STREAM_RECV_WINDOW"
  using assms
  by (auto simp: stream_ok_def Let_def within_def up_ledger_def down_ledger_def unsent_download_def ungranted_upload_def split: option.splits)

lemma window_small: "n \<le> int STREAM_RECV_WINDOW \<Longrightarrow> n < 2 ^ 32"
  by (simp add: STREAM_RECV_WINDOW_def)

lemma tunnel_small:
  assumes inv: "system_inv j" and ids: "ids_unique (srv j)" and x: "started (srv j) t x"
  shows "ungranted_download x < 2 ^ 32"
proof -
  have ord: "tunnel_in_order j t x" by (rule streams_invD(3) [OF system_invD(5) [OF inv ids] x])
  have c: "0 \<le> t_credit x" using inv_tunnel [OF log_invD(1) [OF system_invD(1) [OF inv]]] x by (auto simp: started_def tunnel_ok_def)
  show ?thesis
  proof (cases "no_task (con j) (t_sid x)")
    case True
    then show ?thesis using tunnel_in_orderD(3) [OF ord] by (simp add: fresh_tunnel_def)
  next
    case False
    then obtain k y where y: "stream_tasks (con j) k = Some y" "k_sid y = t_sid x" unfolding no_task_def by blast
    have "0 \<le> k_credit y" using answers_invD(2) [OF system_invD(2) [OF inv] y(1)] by (simp add: task_ok_def credit_ok_def)
    then have "int (ungranted_download x) < 2 ^ 32"
      by (intro window_small stream_okD(1) [OF tunnel_in_orderD(4) [OF ord y] c])
    then show ?thesis by simp
  qed
qed

lemma server_io_sel [simp]: "srv (server_io e j) = srv j" "con (server_io e j) = con j" "read_down (server_io e j) = read_down j"
  "read_up (server_io e j) = read_up j" "from_backend (server_io e j) = from_backend j" "to_backend (server_io e j) = to_backend j"
  "from_client (server_io e j) t = from_client j t @ uploads t e" "writer_over (server_io e j) = writer_over j"
  "to_client (server_io e j) t = to_client j t @ (case tunnels (srv j) t of Some x \<Rightarrow> writes t x e | None \<Rightarrow> [])"
  by (simp_all add: server_io_def)

lemma upload_open:
  assumes "manager_step m e m'"
  shows "uploads t e \<noteq> [] \<Longrightarrow> \<exists>x. tunnels m t = Some x \<and> t_phase x = Open"
    and "tunnels m t = Some x \<Longrightarrow> writes t x e \<noteq> [] \<Longrightarrow> t_phase x = Open"
proof -
  show "\<exists>x. tunnels m t = Some x \<and> t_phase x = Open" if "uploads t e \<noteq> []"
    using assms that
  proof (cases rule: manager_step.cases)
    case (task u z)
    then show ?thesis using that by (cases e) (auto simp: tunnel_next_def split: if_splits)
  qed (use that in auto)
  show "t_phase x = Open" if "tunnels m t = Some x" "writes t x e \<noteq> []"
    using assms that
  proof (cases rule: manager_step.cases)
    case (task u z)
    then show ?thesis using that by (cases e) (auto simp: tunnel_next_def split: if_splits)
  qed (use that in auto)
qed

text \<open>A started tunnel through a step of the server.\<close>

lemma server_step_in_order:
  assumes inv: "system_inv j" and ids: "ids_unique (srv j)" and step: "manager_step (srv j) e m'" and e: "\<not> is_receive e"
    and x: "started (srv j) t x"
  defines "j' \<equiv> (server_io e j)\<lparr>srv := m'\<rparr>"
  shows "\<exists>x'. started m' t x' \<and> tunnel_in_order j' t x'"
proof -
  note mi = log_invD(1) [OF system_invD(1) [OF inv]]
  have x1: "tunnels (srv j) t = Some x" "t_phase x \<noteq> Reserved" using x by (simp_all add: started_def)
  have ord: "tunnel_in_order j t x" by (rule streams_invD(3) [OF system_invD(5) [OF inv ids] x])
  obtain x' ms where x': "tunnels m' t = Some x'" and ms: "outbox m' = outbox (srv j) @ ms"
    and mv: "tunnel_moves (uploads t e) (writes t x e) ms x x'"
    using local_step_moves [OF mi x1 ids tunnel_small [OF inv ids x] step e] by blast
  have sid: "t_sid x' = t_sid x" "t_phase x' \<noteq> Reserved" using mv by (simp_all add: tunnel_moves_def)
  have b: "bound_to m' t (t_sid x) \<Longrightarrow> bound_to (srv j) t (t_sid x)" by (rule bound_mono [OF mi x1 step e])
  have acc: "t_response x' = Some (Inr ()) \<Longrightarrow> t_response x = Some (Inr ())"
    using said_yes_local [OF step e, of t] x' x1(1) by (simp add: said_yes_def)
  have l: "read_down j \<le> length (outbox (srv j))" by (rule system_invD(3) [OF inv])
  have "stream_ok j' t x' k y" if "stream_tasks (con j) k = Some y" "k_sid y = t_sid x" for k y
    using tunnel_in_orderD(4) [OF ord that] tunnel_moves_stream [OF mv b] l sid x1(1) ms
    by (simp add: stream_ok_def Let_def j'_def)
  moreover have "fresh_tunnel x' \<and> to_client j' t = []" if nt: "no_task (con j) (t_sid x)"
  proof -
    have f: "fresh_tunnel x" "to_client j t = []" using tunnel_in_orderD(3) [OF ord nt] by simp_all
    then have "t_phase x \<noteq> Open" using log_invD(4) [OF system_invD(1) [OF inv] x1(1)] by (auto simp: fresh_tunnel_def)
    then have "uploads t e = []" "writes t x e = []" using upload_open [OF step, of t] x1(1) by fastforce+
    then show ?thesis using f mv acc x1(1) by (auto simp: fresh_tunnel_def tunnel_moves_def j'_def)
  qed
  ultimately show ?thesis
    using tunnel_in_orderD(1,2) [OF ord] acc mv x' sid x1(1) ms
    by (intro exI [of _ x']) (auto simp: started_def tunnel_in_order_def j'_def tunnel_moves_def)
qed


text \<open>A tunnel that gets its id: nobody has heard of its stream yet.\<close>

lemma new_stream_in_order:
  assumes inv: "system_inv j" and ids: "ids_unique m'" and step: "manager_step (srv j) (Start t) m'"
    and x: "tunnels (srv j) t = Some x" "t_phase x = Reserved" and x': "started m' t x'" "x' = x\<lparr>t_sid := sid, t_phase := Connecting\<rparr>"
  shows "tunnel_in_order ((server_io (Start t) j)\<lparr>srv := m'\<rparr>) t x'"
proof -
  note li = system_invD(1) [OF inv]
  have un: "ids_unique (srv j)" by (rule ids_unique_step [OF log_invD(1) [OF li] step ids])
  have str: "streams_inv j" by (rule system_invD(5) [OF inv un])
  have f: "fresh_tunnel x'" using log_invD(5) [OF li x] by (simp add: x'(2) fresh_tunnel_def held_out_def sending_def ungranted_download_def queued_def)
  have sil: "silent sid (outbox m')"
    using unaccepted_silent [OF log_inv_step [OF li step] ids x'(1)] f by (simp add: x'(2) fresh_tunnel_def)
  have nt: "no_task (con j) sid"
    unfolding no_task_def
  proof (intro allI impI)
    fix k y
    assume y: "stream_tasks (con j) k = Some y"
    have "Connect (k_sid y) (k_target y) \<in> set (outbox (srv j))" using streams_invD(2) [OF str y] by (rule in_set_takeD)
    then obtain u z where z: "tunnels (srv j) u = Some z" "t_sid z = k_sid y" "t_phase z \<noteq> Reserved"
      using log_invD(3) [OF li] by (fastforce simp: said_ok_def)
    obtain z' where "tunnels m' u = Some z'" "t_sid z' = t_sid z" "t_phase z' \<noteq> Reserved"
      using manager_step_kept [OF log_invD(1) [OF li] z(1,3) step] by (auto simp: tunnel_kept_def)
    moreover have "u \<noteq> t" using z x by auto
    ultimately show "k_sid y \<noteq> sid" using ids_uniqueD [OF ids, of u z' t x'] x' z(2) by (auto simp: started_def)
  qed
  have "\<nexists>z. started (srv j) t z" using x by (simp add: started_def)
  then have "from_client j t = []" "to_client j t = []" using streams_invD(4) [OF str] by simp_all
  then show ?thesis using f sil nt x by (auto simp: tunnel_in_order_def x'(2) fresh_tunnel_def silent_def no_task_def)
qed

lemma server_step_streams:
  assumes inv: "system_inv j" and step: "manager_step (srv j) e m'" and e: "\<not> is_receive e" and ids: "ids_unique m'"
  shows "streams_inv ((server_io e j)\<lparr>srv := m'\<rparr>)" (is "streams_inv ?j")
proof -
  note li = system_invD(1) [OF inv]
  have un: "ids_unique (srv j)" by (rule ids_unique_step [OF log_invD(1) [OF li] step ids])
  note str = system_invD(5) [OF inv un]
  obtain ms where ms: "outbox m' = outbox (srv j) @ ms" using local_said [OF li step] by blast
  have ord: "tunnel_in_order ?j t x'" if x': "started m' t x'" for t x'
  proof (cases "\<exists>x. started (srv j) t x")
    case True
    then obtain x where x: "started (srv j) t x" by blast
    show ?thesis using server_step_in_order [OF inv un step e x] x' by (auto simp: started_def)
  next
    case False
    show ?thesis
    proof (cases "tunnels (srv j) t")
      case None
      then obtain target where "bridge t target (srv j) = (Inr (), m')"
        using no_tunnel_step [OF step None] x' by (auto simp: started_def)
      then show ?thesis using x' by (auto simp: bridge_def try_reserve_stream_slot_def started_def split: if_splits)
    next
      case (Some x)
      then have ph: "t_phase x = Reserved" using False by (simp add: started_def)
      have "\<not> same_tunnel x x'" using same_tunnel_sel [of x x'] ph x' by (auto simp: started_def)
      then obtain sid where "e = Start t" "x' = x\<lparr>t_sid := sid, t_phase := Connecting\<rparr>"
        using reserved_step [OF log_invD(1,2) [OF li] Some ph step] x' by (auto simp: started_def)
      then show ?thesis using new_stream_in_order [OF inv ids _ Some ph x'] step by simp
    qed
  qed
  have "from_client ?j t = [] \<and> to_client ?j t = []" if ns: "\<nexists>x. started m' t x" for t
  proof -
    have ns0: "\<nexists>x. started (srv j) t x" using server_step_in_order [OF inv un step e] ns by blast
    then have "uploads t e = []" "tunnels (srv j) t = Some x \<Longrightarrow> writes t x e = []" for x
      using upload_open [OF step, of t] by (fastforce simp: started_def)+
    then show ?thesis using streams_invD(4) [OF str ns0] by (simp split: option.splits)
  qed
  moreover have "Connect (k_sid y) (k_target y) \<in> set (take (read_down j) (outbox m'))" if "stream_tasks (con j) k = Some y" for k y
    using streams_invD(2) [OF str that] system_invD(3) [OF inv] by (simp add: ms)
  ultimately show ?thesis using ord streams_invD(1,5) [OF str] by (simp add: streams_inv_def)
qed

lemma server_step_inv:
  assumes inv: "system_inv j" and step: "manager_step (srv j) e m'" and e: "\<not> is_receive e"
  shows "system_inv ((server_io e j)\<lparr>srv := m'\<rparr>)"
proof -
  note li = system_invD(1) [OF inv]
  obtain ms where "outbox m' = outbox (srv j) @ ms" using local_said [OF li step] by blast
  then show ?thesis
    using log_inv_step [OF li step] system_invD(2-4) [OF inv] server_step_streams [OF inv step e] by (simp add: system_inv_def)
qed


section \<open>Steps of the connector\<close>

lemma connector_io_sel [simp]: "srv (connector_io e j) = srv j" "con (connector_io e j) = con j" "read_down (connector_io e j) = read_down j"
  "read_up (connector_io e j) = read_up j" "from_client (connector_io e j) = from_client j" "to_client (connector_io e j) = to_client j"
  "from_backend (connector_io e j) k = from_backend j k @ session_reads k e" "writer_over (connector_io e j) = writer_over j"
  "to_backend (connector_io e j) k = to_backend j k @ (case stream_tasks (con j) k of Some y \<Rightarrow> session_writes k y e | None \<Rightarrow> [])"
  by (simp_all add: connector_io_def)

text \<open>Every task belongs to a started tunnel, and has its target.\<close>

lemma task_tunnel:
  assumes inv: "system_inv j" and ids: "ids_unique (srv j)" and y: "stream_tasks (con j) k = Some y"
  obtains t x where "started (srv j) t x" "t_sid x = k_sid y" "t_target x = k_target y" "stream_ok j t x k y"
proof -
  note str = system_invD(5) [OF inv ids]
  have "Connect (k_sid y) (k_target y) \<in> set (outbox (srv j))" using streams_invD(2) [OF str y] by (rule in_set_takeD)
  then obtain t x where x: "tunnels (srv j) t = Some x" "t_sid x = k_sid y" "t_target x = k_target y" "t_phase x \<noteq> Reserved"
    using log_invD(3) [OF system_invD(1) [OF inv]] by (fastforce simp: said_ok_def)
  then have s: "started (srv j) t x" by (simp add: started_def)
  then show ?thesis using that [OF s x(2,3)] tunnel_in_orderD(4) [OF streams_invD(3) [OF str s] y] x(2) by simp
qed

lemma task_small:
  assumes inv: "system_inv j" and ids: "ids_unique (srv j)" and y: "stream_tasks (con j) k = Some y"
  shows "ungranted_upload y < 2 ^ 32" and "k_phase y = Dialing \<Longrightarrow> k_queue y = []"
proof -
  obtain t x where x: "started (srv j) t x" "stream_ok j t x k y" using task_tunnel [OF assms] by blast
  have "0 \<le> t_credit x" using inv_tunnel [OF log_invD(1) [OF system_invD(1) [OF inv]]] x(1) by (auto simp: started_def tunnel_ok_def)
  moreover have "0 \<le> k_credit y" using answers_invD(2) [OF system_invD(2) [OF inv] y] by (simp add: task_ok_def credit_ok_def)
  ultimately show "ungranted_upload y < 2 ^ 32" by (intro window_small stream_okD(2) [OF x(2)])
  show "k_phase y = Dialing \<Longrightarrow> k_queue y = []" using x(2) by (simp add: stream_ok_def Let_def)
qed

lemma connector_no_task:
  assumes "session_step s e s'" and "\<not> is_from_server e" and "stream_tasks s k = None"
  shows "stream_tasks s' k = None \<and> session_reads k e = []"
  using assms by (cases rule: session_step.cases) auto

lemma early_queue: "stream_handler closed e y = Some (y', ms) \<Longrightarrow> k_phase y' = Dialing \<Longrightarrow> k_queue y = [] \<Longrightarrow> k_queue y' = [] \<and> k_phase y = Dialing"
  by (cases e) (auto simp: stream_handler_def backend_written_def Let_def idle_upload_def idle_download_def
      split: if_splits option.splits list.splits stream_phase.splits sum.splits)

lemma connector_queue:
  assumes "session_step s e s'" and "\<not> is_from_server e" and "stream_tasks s k = Some y" and "stream_tasks s' k = Some y'"
    and "k_phase y = Dialing \<Longrightarrow> k_queue y = []" and "k_phase y' = Dialing"
  shows "k_queue y' = []"
  using assms(1)
proof cases
  case (task u z ev z' ms)
  have "k_phase z' = Dialing \<Longrightarrow> k_phase z = Dialing"
    using stream_handler_later [OF task(4)] task(4)
    by (cases ev) (auto simp: stream_handler_def backend_written_def Let_def idle_upload_def idle_download_def
        split: if_splits option.splits list.splits stream_phase.splits sum.splits)
  then show ?thesis using task assms(3-6) early_queue [OF task(4)] by (auto split: if_splits)
next
  case finish
  then show ?thesis using end_session_view [OF assms(3)] assms(4-6) by (auto simp: abort_def split: if_splits)
qed (use assms in auto)

lemma connector_step_stream:
  assumes inv: "system_inv j" and ids: "ids_unique (srv j)" and step: "session_step (con j) e s'" and e: "\<not> is_from_server e"
    and y: "stream_tasks (con j) k = Some y" and sid: "k_sid y = t_sid x" and ok: "stream_ok j t x k y"
  defines "j' \<equiv> (connector_io e j)\<lparr>con := s'\<rparr>"
  shows "\<exists>y'. stream_tasks s' k = Some y' \<and> k_sid y' = k_sid y \<and> k_target y' = k_target y \<and> stream_ok j' t x k y'"
proof -
  note ai = system_invD(2) [OF inv] and small = task_small [OF inv ids y]
  obtain y' ms where y': "stream_tasks s' k = Some y'" and ms: "outbound s' = outbound (con j) @ ms"
    and mv: "task_moves (session_reads k e) (session_writes k y e) ms y y'"
    and sv: "serves s' k (k_sid y) \<Longrightarrow> serves (con j) k (k_sid y)"
    using session_local_moves [OF ai streams_invD(1) [OF system_invD(5) [OF inv ids]] y small step e] by blast
  have q: "k_phase y' = Dialing \<Longrightarrow> k_queue y' = []" by (rule connector_queue [OF step e y y' small(2)])
  have sid': "k_sid y' = k_sid y" "k_target y' = k_target y" using mv by (simp_all add: task_moves_def)
  have l: "read_up j \<le> length (outbound (con j))" by (rule system_invD(4) [OF inv])
  have "stream_ok j' t x k y'"
    using ok task_moves_stream [OF mv sv] l sid y ms q by (simp add: stream_ok_def Let_def j'_def)
  then show ?thesis using y' sid' by blast
qed

lemma connector_step_streams:
  assumes inv: "system_inv j" and ids: "ids_unique (srv j)" and step: "session_step (con j) e s'" and e: "\<not> is_from_server e"
  shows "streams_inv ((connector_io e j)\<lparr>con := s'\<rparr>)" (is "streams_inv ?j")
proof -
  note str = system_invD(5) [OF inv ids]
  have origin: "\<exists>y. stream_tasks (con j) k = Some y \<and> k_sid y' = k_sid y \<and> k_target y' = k_target y
      \<and> (\<forall>t x. started (srv j) t x \<longrightarrow> t_sid x = k_sid y \<longrightarrow> stream_ok ?j t x k y')" if y': "stream_tasks s' k = Some y'" for k y'
  proof -
    obtain y where y: "stream_tasks (con j) k = Some y" using connector_no_task [OF step e, of k] y' by fastforce
    then have "stream_ok ?j t x k y' \<and> k_sid y' = k_sid y \<and> k_target y' = k_target y" if "started (srv j) t x" "t_sid x = k_sid y" for t x
      using connector_step_stream [OF inv ids step e y, of x t] tunnel_in_orderD(4) [OF streams_invD(3) [OF str that(1)] y] that y' by auto
    moreover obtain t x where "started (srv j) t x" "t_sid x = k_sid y" using task_tunnel [OF inv ids y] by blast
    ultimately show ?thesis using y by blast
  qed
  have later: "\<exists>y'. stream_tasks s' k = Some y' \<and> task_later y y'" if "stream_tasks (con j) k = Some y" for k y
    by (rule session_step_later [OF system_invD(2) [OF inv] step that])
  have "tunnel_in_order ?j t x" if x: "started (srv j) t x" for t x
  proof -
    note ord = streams_invD(3) [OF str x]
    have "no_task s' (t_sid x) \<Longrightarrow> no_task (con j) (t_sid x)"
      using later unfolding no_task_def task_later_def by metis
    moreover have "set (outbound (con j)) \<subseteq> set (outbound s')" using step e by (cases rule: session_step.cases) auto
    moreover have "stream_ok ?j t x k y'" if "stream_tasks s' k = Some y'" "k_sid y' = t_sid x" for k y'
      using origin [OF that(1)] x that(2) by auto
    ultimately show ?thesis using tunnel_in_orderD(1-3) [OF ord] by (auto simp: tunnel_in_order_def)
  qed
  moreover have "tasks_unique s'"
    unfolding tasks_unique_def using origin tasks_uniqueD [OF streams_invD(1) [OF str]] by metis
  moreover have "Connect (k_sid y) (k_target y) \<in> set (take (read_down j) (outbox (srv j)))" if "stream_tasks s' k = Some y" for k y
    using origin [OF that] streams_invD(2) [OF str] by metis
  moreover have "from_backend ?j k = [] \<and> to_backend ?j k = []" if "stream_tasks s' k = None" for k
  proof -
    have n: "stream_tasks (con j) k = None" using later that by (cases "stream_tasks (con j) k") fastforce+
    then show ?thesis using streams_invD(5) [OF str n] connector_no_task [OF step e n] by simp
  qed
  ultimately show ?thesis using streams_invD(4) [OF str] by (simp add: streams_inv_def)
qed

lemma connector_step_inv:
  assumes inv: "system_inv j" and step: "session_step (con j) e s'" and e: "\<not> is_from_server e"
  shows "system_inv ((connector_io e j)\<lparr>con := s'\<rparr>)"
proof -
  have "length (outbound (con j)) \<le> length (outbound s')" using step e by (cases rule: session_step.cases) auto
  then show ?thesis
    using system_invD(1,3,4) [OF inv] answers_inv_step [OF system_invD(2) [OF inv] step] connector_step_streams [OF inv _ step e]
    by (simp add: system_inv_def)
qed

section \<open>Messages for the connector\<close>

lemma down_stream:
  assumes inv: "system_inv j" and n: "read_down j < length (outbox (srv j))" and msg: "msg = wire_form (outbox (srv j) ! read_down j)"
    and step: "session_step (con j) (From_server msg) s'" and y: "stream_tasks (con j) k = Some y" and sid: "k_sid y = t_sid x"
    and ok: "stream_ok j t x k y" and early: "\<And>p. k_phase y = Dialing \<Longrightarrow> msg \<noteq> Data (k_sid y) p"
  defines "j' \<equiv> j\<lparr>con := s', read_down := Suc (read_down j)\<rparr>"
  shows "\<exists>y'. stream_tasks s' k = Some y' \<and> k_sid y' = k_sid y \<and> k_target y' = k_target y \<and> stream_ok j' t x k y'"
proof -
  note ai = system_invD(2) [OF inv]
  obtain u where u: "stream_tasks (con j) u = None" "s' = session_message u msg (con j)"
    using step by (auto elim: session_step.cases)
  obtain y' where y': "stream_tasks s' k = Some y'" and rc: "task_receives (serves (con j) k (k_sid y)) msg y y'"
    and sv: "serves s' k (k_sid y) \<Longrightarrow> serves (con j) k (k_sid y)"
    using session_message_moves [OF answers_invD(1) [OF ai] y answers_invD(2) [OF ai y] u(1), of msg] u(2) by blast
  have sid': "k_sid y' = k_sid y" "k_target y' = k_target y" using rc by (simp_all add: task_receives_def)
  have "k_phase y = Dialing \<longrightarrow> k_queue y = []" using ok by (simp add: stream_ok_def Let_def)
  then have q: "k_phase y' = Dialing \<Longrightarrow> k_queue y' = []" using rc early by (auto simp: task_receives_def)
  have "stream_ok j' t x k y'"
    using ok task_receives_stream [OF rc sv] sid n q u(2)
    by (simp add: stream_ok_def Let_def j'_def log_delivered msg)
  then show ?thesis using y' sid' by blast
qed


lemma not_early:
  assumes inv: "system_inv j" and ids: "ids_unique (srv j)" and y: "stream_tasks (con j) k = Some y"
    and msg: "Data (k_sid y) p \<in> set (outbox (srv j))"
  shows "k_phase y \<noteq> Dialing"
proof -
  note li = system_invD(1) [OF inv] and str = system_invD(5) [OF inv ids]
  obtain t x where x: "tunnels (srv j) t = Some x" "t_sid x = k_sid y" "t_phase x \<noteq> Reserved" "t_response x = Some (Inr ())"
    using log_invD(3) [OF li msg] by (auto simp: said_ok_def)
  then have "ConnectOk (k_sid y) \<in> set (outbound (con j))"
    using tunnel_in_orderD(1) [OF streams_invD(3) [OF str]] by (fastforce simp: started_def)
  then obtain k' y' where y': "stream_tasks (con j) k' = Some y'" "k_sid y' = k_sid y" "\<not> early y'"
    using answers_invD(4) [OF system_invD(2) [OF inv]] by (fastforce simp: answer_ok_def)
  then have "y' = y" using tasks_uniqueD [OF streams_invD(1) [OF str] y y'(1)] y by simp
  then show ?thesis using y'(3) by (auto simp: early_def)
qed

text \<open>The stream of a task that was just spawned.\<close>

lemma spawned_stream:
  assumes inv: "system_inv j" and ids: "ids_unique (srv j)" and x: "started (srv j) t x" and nt: "no_task (con j) (t_sid x)"
    and u: "stream_tasks (con j) u = None"
  shows "stream_ok (j\<lparr>con := session_message u msg (con j), read_down := Suc (read_down j)\<rparr>) t x u (stream_task_new (t_sid x) url)"
proof -
  note str = system_invD(5) [OF inv ids] and ai = system_invD(2) [OF inv]
  have f: "fresh_tunnel x" "to_client j t = []" using tunnel_in_orderD(3) [OF streams_invD(3) [OF str x] nt] by simp_all
  have "silent (t_sid x) (outbound (con j))" by (rule no_task_silent(1) [OF ai nt])
  moreover have "silent (t_sid x) (outbox (srv j))"
    using unaccepted_silent [OF system_invD(1) [OF inv] ids x] f(1) by (simp add: fresh_tunnel_def)
  moreover have "silent sid (take n ms) \<and> silent sid (drop n ms)" if "silent sid ms" for sid n ms
    using that unfolding silent_def by (metis append_is_Nil_conv append_take_drop_id log_simps(3) log_simps(6) add_is_0)
  ultimately show ?thesis
    using f streams_invD(5) [OF str u]
    by (simp add: stream_ok_def Let_def silent_def upload_ok_def download_ok_def source_ok_def within_def up_ledger_def down_ledger_def
        fresh_tunnel_def stream_task_new_def held_in_def unsent_def unsent_download_def ungranted_upload_def)
qed

lemma connect_once:
  assumes inv: "system_inv j" and ids: "ids_unique (srv j)" and n: "read_down j < length (outbox (srv j))"
    and msg: "outbox (srv j) ! read_down j = Connect sid url"
  shows "no_task (con j) sid"
  unfolding no_task_def
proof (intro allI impI notI)
  fix k y
  assume y: "stream_tasks (con j) k = Some y" "k_sid y = sid"
  have "distinct (log_connects (outbox (srv j)))" by (rule log_invD(6) [OF system_invD(1) [OF inv] ids])
  then have "distinct (log_connects (take (Suc (read_down j)) (outbox (srv j))))"
    by (metis append_take_drop_id distinct_append log_simps(9))
  then have "sid \<notin> set (log_connects (take (read_down j) (outbox (srv j))))" using msg by (simp add: log_delivered(4) [OF n])
  then show False using streams_invD(2) [OF system_invD(5) [OF inv ids] y(1)] y(2) by (auto simp: log_connects_mem)
qed

text \<open>A task after a message was read: an old one, or the one the message spawned.\<close>

lemma down_origin:
  assumes inv: "system_inv j" and ids: "ids_unique (srv j)" and n: "read_down j < length (outbox (srv j))"
    and msg: "msg = wire_form (outbox (srv j) ! read_down j)" and u: "stream_tasks (con j) u = None" "\<not> outbound_closed (con j)"
    and y': "stream_tasks (session_message u msg (con j)) k = Some y'"
  defines "j' \<equiv> j\<lparr>con := session_message u msg (con j), read_down := Suc (read_down j)\<rparr>"
  shows "(\<exists>y. stream_tasks (con j) k = Some y \<and> k_sid y = k_sid y' \<and> k_target y = k_target y')
      \<or> k = u \<and> no_task (con j) (k_sid y') \<and> outbox (srv j) ! read_down j = Connect (k_sid y') (k_target y')"
    and "started (srv j) t x \<Longrightarrow> t_sid x = k_sid y' \<Longrightarrow> stream_ok j' t x k y'"
proof -
  have "((\<exists>y. stream_tasks (con j) k = Some y \<and> k_sid y = k_sid y' \<and> k_target y = k_target y')
      \<or> k = u \<and> no_task (con j) (k_sid y') \<and> outbox (srv j) ! read_down j = Connect (k_sid y') (k_target y'))
    \<and> (started (srv j) t x \<longrightarrow> t_sid x = k_sid y' \<longrightarrow> stream_ok j' t x k y')"
  proof (cases "stream_tasks (con j) k")
    case None
    obtain sid url where new: "k = u" "msg = Connect sid url" "y' = stream_task_new sid url"
      by (rule session_message_new [OF answers_invD(1) [OF system_invD(2) [OF inv]] u(1) None y'])
    then have c: "outbox (srv j) ! read_down j = Connect sid url" using msg by simp
    have k: "k_sid y' = sid" "k_target y' = url" by (simp_all add: new(3) stream_task_new_def)
    have nt: "no_task (con j) sid" by (rule connect_once [OF inv ids n c])
    then have "stream_ok j' t x k y'" if "started (srv j) t x" "t_sid x = sid" for t x
      using spawned_stream [OF inv ids that(1) _ u(1)] that(2) new by (simp add: j'_def)
    then show ?thesis using nt c k new(1) by blast
  next
    case (Some y)
    have step: "session_step (con j) (From_server msg) (session_message u msg (con j))"
      by (rule session_step.message [OF u(2,1)])
    have e: "k_phase y = Dialing \<Longrightarrow> msg \<noteq> Data (k_sid y) p" for p
    proof
      assume "k_phase y = Dialing" "msg = Data (k_sid y) p"
      then have "outbox (srv j) ! read_down j = Data (k_sid y) p" using msg by (cases "outbox (srv j) ! read_down j") simp_all
      then show False using not_early [OF inv ids Some, of p] n \<open>k_phase y = Dialing\<close> nth_mem by fastforce
    qed
    obtain t0 x0 where "started (srv j) t0 x0" "t_sid x0 = k_sid y" "stream_ok j t0 x0 k y" using task_tunnel [OF inv ids Some] by blast
    then have k: "k_sid y' = k_sid y" "k_target y' = k_target y"
      using down_stream [OF inv n msg step Some _ _ e, of x0 t0] y' by auto
    have "stream_ok j' t x k y'" if "started (srv j) t x" "t_sid x = k_sid y"
      using down_stream [OF inv n msg step Some _ _ e, of x t] y' that
        tunnel_in_orderD(4) [OF streams_invD(3) [OF system_invD(5) [OF inv ids] that(1)] Some] by (auto simp: j'_def)
    then show ?thesis using Some k by auto
  qed
  then show "(\<exists>y. stream_tasks (con j) k = Some y \<and> k_sid y = k_sid y' \<and> k_target y = k_target y')
      \<or> k = u \<and> no_task (con j) (k_sid y') \<and> outbox (srv j) ! read_down j = Connect (k_sid y') (k_target y')"
    and "started (srv j) t x \<Longrightarrow> t_sid x = k_sid y' \<Longrightarrow> stream_ok j' t x k y'" by blast+
qed

lemma down_streams:
  assumes inv: "system_inv j" and ids: "ids_unique (srv j)" and n: "read_down j < length (outbox (srv j))"
    and msg: "msg = wire_form (outbox (srv j) ! read_down j)" and u: "stream_tasks (con j) u = None" "\<not> outbound_closed (con j)"
  shows "streams_inv (j\<lparr>con := session_message u msg (con j), read_down := Suc (read_down j)\<rparr>)" (is "streams_inv ?j")
proof -
  let ?s = "session_message u msg (con j)"
  note str = system_invD(5) [OF inv ids] and origin = down_origin [OF inv ids n msg u]
  have later: "\<exists>y'. stream_tasks ?s k = Some y' \<and> task_later y y'" if "stream_tasks (con j) k = Some y" for k y
    by (rule session_step_later [OF system_invD(2) [OF inv] session_step.message [OF u(2,1)] that])
  have "tunnel_in_order ?j t x" if x: "started (srv j) t x" for t x
  proof -
    have "no_task ?s (t_sid x) \<Longrightarrow> no_task (con j) (t_sid x)" using later unfolding no_task_def task_later_def by metis
    then show ?thesis using tunnel_in_orderD(1-3) [OF streams_invD(3) [OF str x]] origin(2) x by (auto simp: tunnel_in_order_def)
  qed
  moreover have "tasks_unique ?s"
    unfolding tasks_unique_def
  proof (intro allI impI)
    fix k k' y y'
    assume y: "stream_tasks ?s k = Some y" and y': "stream_tasks ?s k' = Some y'" and eq: "k_sid y = k_sid y'"
    show "k = k'"
      using origin(1) [OF y] origin(1) [OF y'] eq tasks_uniqueD [OF streams_invD(1) [OF str], of k _ k'] by (auto simp: no_task_def)
  qed
  moreover have "Connect (k_sid y) (k_target y) \<in> set (take (Suc (read_down j)) (outbox (srv j)))" if y: "stream_tasks ?s k = Some y" for k y
    using origin(1) [OF y] streams_invD(2) [OF str, of k] n by (auto simp: take_Suc_conv_app_nth)
  moreover have "from_backend ?j k = [] \<and> to_backend ?j k = []" if "stream_tasks ?s k = None" for k
    using later [of k] that streams_invD(5) [OF str, of k] by (cases "stream_tasks (con j) k") fastforce+
  ultimately show ?thesis using streams_invD(4) [OF str] by (simp add: streams_inv_def)
qed

lemma down_inv:
  assumes inv: "system_inv j" and n: "read_down j < length (outbox (srv j))"
    and msg: "msg = wire_form (outbox (srv j) ! read_down j)" and step: "session_step (con j) (From_server msg) s'"
  shows "system_inv (j\<lparr>con := s', read_down := Suc (read_down j)\<rparr>)"
proof -
  obtain u where u: "stream_tasks (con j) u = None" "\<not> outbound_closed (con j)" and s': "s' = session_message u msg (con j)"
    using step by (auto elim: session_step.cases)
  show ?thesis
    using system_invD(1,4) [OF inv] answers_inv_step [OF system_invD(2) [OF inv] step] n down_streams [OF inv _ n msg u]
    by (simp add: system_inv_def s')
qed

section \<open>Messages for the server\<close>

text \<open>The next message always fits: its payload the tunnel's window, its grant the tunnel's credit.\<close>

lemma up_fits:
  assumes inv: "system_inv j" and ids: "ids_unique (srv j)" and n: "read_up j < length (outbound (con j))" and x: "started (srv j) t x"
  defines "msg \<equiv> outbound (con j) ! read_up j"
  shows "queued x + length (data_of (t_sid x) msg) \<le> STREAM_RECV_WINDOW"
    and "t_credit x + int (grant_of (t_sid x) msg) \<le> int STREAM_RECV_WINDOW"
proof -
  have ord: "tunnel_in_order j t x" by (rule streams_invD(3) [OF system_invD(5) [OF inv ids] x])
  have "queued x + length (data_of (t_sid x) msg) \<le> STREAM_RECV_WINDOW \<and> t_credit x + int (grant_of (t_sid x) msg) \<le> int STREAM_RECV_WINDOW"
  proof (cases "no_task (con j) (t_sid x)")
    case True
    have "silent (t_sid x) (outbound (con j))" by (rule no_task_silent(1) [OF system_invD(2) [OF inv] True])
    then have "silent (t_sid x) [msg]" using n by (auto simp: silent_def msg_def log_data_def log_grants_def)
    moreover have "queued x \<le> ungranted_download x" by (simp add: ungranted_download_def)
    ultimately show ?thesis using tunnel_in_orderD(3) [OF ord True] by (simp add: fresh_tunnel_def silent_def)
  next
    case False
    then obtain k y where y: "stream_tasks (con j) k = Some y" "k_sid y = t_sid x" unfolding no_task_def by blast
    have "0 \<le> k_credit y" using answers_invD(2) [OF system_invD(2) [OF inv] y(1)] by (simp add: task_ok_def credit_ok_def)
    then have "0 \<le> unsent_download y" "0 \<le> ungranted_upload y"
      by (simp_all add: unsent_download_def ungranted_upload_def split: option.splits)
    moreover have "queued x \<le> ungranted_download x" by (simp add: ungranted_download_def)
    ultimately show ?thesis
      using tunnel_in_orderD(4) [OF ord y] n
      by (simp add: stream_ok_def Let_def within_def up_ledger_def down_ledger_def log_delivered(2,3) msg_def)
  qed
  then show "queued x + length (data_of (t_sid x) msg) \<le> STREAM_RECV_WINDOW"
    and "t_credit x + int (grant_of (t_sid x) msg) \<le> int STREAM_RECV_WINDOW" by simp_all
qed

lemma up_in_order:
  assumes inv: "system_inv j" and ids: "ids_unique (srv j)" and n: "read_up j < length (outbound (con j))"
    and msg: "msg = wire_form (outbound (con j) ! read_up j)" and x: "started (srv j) t x"
  defines "j' \<equiv> j\<lparr>srv := handle_message msg (srv j), read_up := Suc (read_up j)\<rparr>"
  shows "\<exists>x'. started (handle_message msg (srv j)) t x' \<and> tunnel_in_order j' t x'"
proof -
  note mi = log_invD(1) [OF system_invD(1) [OF inv]] and ai = system_invD(2) [OF inv]
  have ord: "tunnel_in_order j t x" by (rule streams_invD(3) [OF system_invD(5) [OF inv ids] x])
  have x1: "tunnels (srv j) t = Some x" "t_phase x \<noteq> Reserved" using x by (simp_all add: started_def)
  obtain x' where x': "tunnels (handle_message msg (srv j)) t = Some x'"
    and rc: "tunnel_receives (bound_to (srv j) t (t_sid x)) msg x x'"
    using receive_moves [OF mi x1(1), of msg] up_fits [OF inv ids n x] msg by auto
  have sid: "t_sid x' = t_sid x" "t_phase x' \<noteq> Reserved" "sending x' = sending x" using rc x1(2) by (simp_all add: tunnel_receives_def)
  have b: "bound_to (handle_message msg (srv j)) t (t_sid x) \<Longrightarrow> bound_to (srv j) t (t_sid x)" by (rule receive_bound [OF mi])
  have mem: "outbound (con j) ! read_up j \<in> set (outbound (con j))" using n by simp
  have acc: "t_response x' = Some (Inr ()) \<Longrightarrow> t_response x = Some (Inr ()) \<or> ConnectOk (t_sid x) \<in> set (outbound (con j))"
    using rc mem msg by (auto simp: tunnel_receives_def)
  have "stream_ok j' t x' k y" if "stream_tasks (con j) k = Some y" "k_sid y = t_sid x" for k y
    using tunnel_in_orderD(4) [OF ord that] tunnel_receives_stream [OF rc b] n sid
    by (simp add: stream_ok_def Let_def j'_def log_delivered msg)
  moreover have "fresh_tunnel x' \<and> to_client j t = []" if nt: "no_task (con j) (t_sid x)"
  proof -
    have "silent (t_sid x) (outbound (con j))" by (rule no_task_silent(1) [OF ai nt])
    then have "silent (t_sid x) [msg]" using mem by (auto simp: silent_def msg log_data_def log_grants_def)
    then show ?thesis
      using tunnel_in_orderD(3) [OF ord nt] rc acc no_task_silent(2) [OF ai nt]
      by (auto simp: fresh_tunnel_def tunnel_receives_def silent_def)
  qed
  ultimately show ?thesis
    using tunnel_in_orderD(1,2) [OF ord] acc x' sid by (intro exI [of _ x']) (auto simp: started_def tunnel_in_order_def j'_def)
qed

lemma receive_started:
  assumes "log_inv m" and "started (handle_message msg m) t x'"
  shows "\<exists>x. started m t x"
proof (cases "tunnels m t")
  case None
  then show ?thesis using assms(2) no_tunnel_receive [of msg m t] by (simp add: started_def del: no_tunnel_receive)
next
  case (Some x)
  show ?thesis
  proof (cases "t_phase x = Reserved")
    case True
    then show ?thesis
      using reserved_step [OF log_invD(1,2) [OF assms(1)] Some True manager_step.receive [of m msg]] assms(2) same_tunnel_sel [of x x']
      by (auto simp: started_def)
  qed (use Some in \<open>auto simp: started_def\<close>)
qed

lemma up_inv:
  assumes inv: "system_inv j" and n: "read_up j < length (outbound (con j))" and msg: "msg = wire_form (outbound (con j) ! read_up j)"
  shows "system_inv (j\<lparr>srv := handle_message msg (srv j), read_up := Suc (read_up j)\<rparr>)" (is "system_inv ?j")
proof -
  note li = system_invD(1) [OF inv]
  have step: "manager_step (srv j) (Receive msg) (handle_message msg (srv j))" by (rule manager_step.receive)
  have "streams_inv ?j" if ids': "ids_unique (handle_message msg (srv j))"
  proof -
    have ids: "ids_unique (srv j)" by (rule ids_unique_step [OF log_invD(1) [OF li] step ids'])
    note str = system_invD(5) [OF inv ids]
    have "tunnel_in_order ?j t x'" if x': "started (handle_message msg (srv j)) t x'" for t x'
    proof -
      obtain x where "started (srv j) t x" using receive_started [OF li x'] by blast
      from up_in_order [OF inv ids n msg this] show ?thesis using x' by (auto simp: started_def)
    qed
    moreover have "\<nexists>x. started (srv j) t x" if "\<nexists>x. started (handle_message msg (srv j)) t x" for t
      using up_in_order [OF inv ids n msg] that by blast
    ultimately show ?thesis using streams_invD(1,2,4,5) [OF str] by (simp add: streams_inv_def)
  qed
  then show ?thesis using log_inv_step [OF li step] system_invD(2-4) [OF inv] n by (simp add: system_inv_def)
qed

section \<open>Every step keeps the invariant\<close>

lemma system_step_inv: "system_inv j \<Longrightarrow> system_step j e j' \<Longrightarrow> system_inv j'"
proof -
  assume inv: "system_inv j" and "system_step j e j'"
  from this(2) show ?thesis
  proof cases
    case (server ev m')
    then show ?thesis using server_step_inv [OF inv] by simp
  next
    case (connector ev s')
    then show ?thesis using connector_step_inv [OF inv] by simp
  next
    case (down f msg s')
    then show ?thesis using down_inv [OF inv] down_crossed by simp
  next
    case (up f show_error msg)
    then show ?thesis using up_inv [OF inv] up_crossed by simp
  next
    case writer
    then show ?thesis using inv
      by (simp add: system_inv_def streams_inv_def tunnel_in_order_def stream_ok_def)
  qed
qed

interpretation system_runs: step_invariant system_step system_inv
  by unfold_locales (rule system_step_inv)

lemma system_inv_new: "system_inv (system_new cid)"
  using log_inv_new [of cid] answers_inv_new
  by (simp add: system_inv_def system_new_def streams_inv_def tasks_unique_def started_def manager_new_def session_new_def)

lemma system_reachable: "run system_step (system_new cid) tr j \<Longrightarrow> system_inv j"
  using system_runs.run_inv [OF _ system_inv_new] by blast

end
