(* ===== verification/Tunnel_Runs.thy ===== *)
theory Tunnel_Runs
  imports Tunnel_System
begin

text \<open>
  What the two ends of a WebSocket session guarantee together, over every run of \<open>Tunnel_System\<close>: the
  bytes of a tunnel arrive unchanged and in order at the other end, a connector that keeps to its credit
  is never cut off, neither end buffers more than a window, and no credit is lost. The stream ids of a
  session are distinct as long as its counter has not wrapped. \<open>system_replay\<close> runs a list of events.
\<close>

declare map_of_eq_Some_iff [simp del] and Some_eq_map_of_iff [simp del]

section \<open>Stream ids\<close>

definition started_tunnels :: "manager \<Rightarrow> nat set" where
  "started_tunnels m = {t. \<exists>x. started m t x}"

lemma next_id_sel [simp]: "next_stream_id (close_credit t m) = next_stream_id m" "next_stream_id (respond t r m) = next_stream_id m"
  "next_stream_id (finish t m) = next_stream_id m" "next_stream_id (release_stream_slot m) = next_stream_id m"
  by (simp_all add: close_credit_def respond_def finish_def release_stream_slot_def)

lemma next_id_remove [simp]: "next_stream_id (remove_stream sid m) = next_stream_id m"
  by (simp add: remove_stream_def Let_def split: option.splits)

lemma next_id_shutdown [simp]: "next_stream_id (shutdown m) = next_stream_id m"
proof -
  have "next_stream_id (foldl (\<lambda>m (_ :: u32, t). respond t r m) m ps) = next_stream_id m" for r m ps
    by (induction ps arbitrary: m) (auto split: prod.splits)
  moreover have "next_stream_id (foldl (\<lambda>m (_ :: u32, t). close_credit t m) m ps) = next_stream_id m" for m ps
    by (induction ps arbitrary: m) (auto split: prod.splits)
  ultimately show ?thesis by (simp add: shutdown_def Let_def)
qed

lemma next_id_step:
  assumes "manager_step m e m'" and "\<And>t. e \<noteq> Start t"
  shows "next_stream_id m' = next_stream_id m"
  using assms(1)
proof (cases rule: manager_step.cases)
  case (bridge u target r)
  then show ?thesis by (auto simp: bridge_def try_reserve_stream_slot_def split: if_splits)
next
  case (task t x)
  then show ?thesis using assms(2)
    by (auto simp: tunnel_next_def split: manager_event.splits if_splits option.splits sum.splits list.splits)
next
  case (receive msg)
  then show ?thesis by (cases msg) (auto simp: handle_message_def Let_def split: option.splits)
qed auto

text \<open>Only \<open>Start\<close> gives a tunnel its id.\<close>

lemma started_step:
  assumes inv: "log_inv m" and step: "manager_step m e m'" and x': "started m' t x'" and e: "e \<noteq> Start t"
  shows "\<exists>x. started m t x \<and> t_sid x' = t_sid x"
proof (cases "tunnels m t")
  case None
  then obtain target where "bridge t target m = (Inr (), m')" using no_tunnel_step [OF step None] x' by (auto simp: started_def)
  then show ?thesis using x' by (auto simp: bridge_def try_reserve_stream_slot_def started_def split: if_splits)
next
  case (Some x)
  show ?thesis
  proof (cases "t_phase x = Reserved")
    case True
    then show ?thesis
      using reserved_step [OF log_invD(1,2) [OF inv] Some True step] x' e same_tunnel_sel [of x x'] by (auto simp: started_def)
  next
    case False
    then show ?thesis
      using manager_step_kept [OF log_invD(1) [OF inv] Some False step] x' Some by (auto simp: started_def tunnel_kept_def)
  qed
qed

lemma started_kept:
  assumes "log_inv m" and "manager_step m e m'" and "started m t x"
  shows "\<exists>x'. started m' t x' \<and> t_sid x' = t_sid x"
  using manager_step_kept [OF log_invD(1) [OF assms(1)] _ _ assms(2), of t x] assms(3) by (auto simp: started_def tunnel_kept_def)

definition ids_inv :: "manager \<Rightarrow> bool" where
  "ids_inv m \<longleftrightarrow> log_inv m \<and> (card (started_tunnels m) \<le> 2 ^ 32 \<longrightarrow> ids_unique m
     \<and> next_stream_id m = 1 + of_nat (card (started_tunnels m))
     \<and> (\<forall>t x. started m t x \<longrightarrow> (\<exists>i < card (started_tunnels m). t_sid x = 1 + of_nat i)))"

lemma finite_started: "log_inv m \<Longrightarrow> finite (started_tunnels m)"
  using log_invD(1) by (auto simp: started_tunnels_def started_def manager_inv_def tables_ok_def dom_def
      intro: finite_subset [of _ "dom (tunnels m)"])

lemma ids_uniqueI: "(\<And>t u x y. started m t x \<Longrightarrow> started m u y \<Longrightarrow> t_sid x = t_sid y \<Longrightarrow> t = u) \<Longrightarrow> ids_unique m"
  by (auto simp: ids_unique_def started_def)

lemma of_nat_u32_inj: "i < 2 ^ 32 \<Longrightarrow> j < 2 ^ 32 \<Longrightarrow> (1 + of_nat i :: u32) = 1 + of_nat j \<Longrightarrow> i = j"
proof -
  assume lt: "i < 2 ^ 32" "j < 2 ^ 32" and "(1 + of_nat i :: u32) = 1 + of_nat j"
  then have "unat (of_nat i :: u32) = unat (of_nat j :: u32)" by simp
  moreover have "i < 4294967296" "j < 4294967296" using lt by simp_all
  ultimately show "i = j" by (simp only: unat_of_nat_u32)
qed

lemma start_id:
  assumes inv: "ids_inv m" and step: "manager_step m (Start t) m'" and few: "card (started_tunnels m) < 2 ^ 32"
  shows "next_stream_id m' = next_stream_id m + 1 \<and> (\<exists>x'. started m' t x' \<and> t_sid x' = next_stream_id m) \<and> (\<nexists>x. started m t x)"
proof -
  have li: "log_inv m" and nx: "next_stream_id m = 1 + of_nat (card (started_tunnels m))"
    and old: "\<And>t x. started m t x \<Longrightarrow> \<exists>i < card (started_tunnels m). t_sid x = 1 + of_nat i"
    using inv few by (simp_all add: ids_inv_def)
  obtain x where x: "tunnels m t = Some x" "t_phase x = Reserved" "start_tunnel t m = Some m'"
    using step by (auto elim!: manager_step.cases simp: tunnel_next_def split: if_splits)
  have "next_stream_id m \<notin> fst ` set (streams m)"
  proof
    assume "next_stream_id m \<in> fst ` set (streams m)"
    then obtain u where "map_of (streams m) (next_stream_id m) = Some u"
      by (metis map_of_eq_None_iff option.exhaust)
    then obtain z where "tunnels m u = Some z" "live (next_stream_id m) z" using live_registered [OF log_invD(1) [OF li]] by blast
    then have "started m u z" "t_sid z = next_stream_id m" by (auto simp: started_def live_def)
    then obtain i where "i < card (started_tunnels m)" "(1 + of_nat i :: u32) = 1 + of_nat (card (started_tunnels m))"
      using old nx by metis
    then show False using of_nat_u32_inj [of i "card (started_tunnels m)"] few by simp
  qed
  then show ?thesis using x by (auto simp: start_tunnel_def started_def)
qed

lemma start_ids:
  assumes inv: "ids_inv m" and step: "manager_step m (Start t) m'" and few: "card (started_tunnels m) < 2 ^ 32"
  defines "n \<equiv> card (started_tunnels m)"
  shows "started m' t y \<Longrightarrow> t_sid y = 1 + of_nat n"
    and "started m' u y \<Longrightarrow> u \<noteq> t \<Longrightarrow> \<exists>z i. started m u z \<and> t_sid y = t_sid z \<and> i < n \<and> t_sid y = 1 + of_nat i"
    and "ids_unique m'"
proof -
  have li: "log_inv m" and un: "ids_unique m" and ni: "next_stream_id m = 1 + of_nat n"
    and old: "\<And>t x. started m t x \<Longrightarrow> \<exists>i < n. t_sid x = 1 + of_nat i"
    using inv few by (simp_all add: ids_inv_def n_def)
  show new: "t_sid y = 1 + of_nat n" if "started m' t y" for y
    using that start_id [OF inv step few] ni by (auto simp: started_def)
  show other: "\<exists>z i. started m u z \<and> t_sid y = t_sid z \<and> i < n \<and> t_sid y = 1 + of_nat i" if y: "started m' u y" "u \<noteq> t" for u y
  proof -
    obtain z where z: "started m u z" "t_sid y = t_sid z" using started_step [OF li step y(1)] y(2) by auto
    then show ?thesis using old [OF z(1)] by auto
  qed
  have mixed: False if m: "started m' t y" "started m' u z" "u \<noteq> t" "t_sid y = t_sid z" for u y z
  proof -
    obtain i where i: "i < n" "t_sid z = 1 + of_nat i" using other [OF m(2,3)] by blast
    then have "i = n" using new [OF m(1)] m(4) few by (intro of_nat_u32_inj) (simp_all add: n_def)
    then show False using i(1) by simp
  qed
  show "ids_unique m'"
  proof (rule ids_uniqueI)
    fix u v y z
    assume y: "started m' u y" and z: "started m' v z" and eq: "t_sid y = t_sid z"
    show "u = v"
    proof (cases "u = t \<or> v = t")
      case True
      then show ?thesis using mixed [of y v z] mixed [of z u y] y z eq by auto
    next
      case False
      then obtain y0 z0 where "started m u y0" "t_sid y = t_sid y0" "started m v z0" "t_sid z = t_sid z0"
        using other [OF y] other [OF z] by blast
      then show ?thesis using ids_uniqueD [OF un, of u y0 v z0] eq by (simp add: started_def)
    qed
  qed
qed

lemma start_tunnels:
  assumes inv: "ids_inv m" and step: "manager_step m (Start t) m'"
  shows "started_tunnels m' = insert t (started_tunnels m)" and "t \<notin> started_tunnels m"
proof -
  have li: "log_inv m" using inv by (simp add: ids_inv_def)
  obtain x where x: "tunnels m t = Some x" "t_phase x = Reserved" "start_tunnel t m = Some m'"
    using step by (auto elim!: manager_step.cases simp: tunnel_next_def split: if_splits)
  then have "t \<in> started_tunnels m'" by (auto simp: started_tunnels_def started_def start_tunnel_def split: option.splits)
  then show "started_tunnels m' = insert t (started_tunnels m)"
    using started_kept [OF li step] started_step [OF li step] unfolding started_tunnels_def by blast
  show "t \<notin> started_tunnels m" using x by (simp add: started_tunnels_def started_def)
qed

lemma ids_inv_start:
  assumes inv: "ids_inv m" and step: "manager_step m (Start t) m'"
  shows "ids_inv m'"
proof -
  have li: "log_inv m" using inv by (simp add: ids_inv_def)
  let ?n = "card (started_tunnels m)"
  have c: "card (started_tunnels m') = Suc ?n" using start_tunnels [OF inv step] finite_started [OF li] by simp
  show ?thesis
  proof (cases "?n < 2 ^ 32")
    case True
    have "\<exists>i < Suc ?n. t_sid y = 1 + of_nat i" if "started m' u y" for u y
      using start_ids(1,2) [OF inv step True] that by (metis lessI less_SucI)
    moreover have "next_stream_id m' = 1 + of_nat (Suc ?n)" using start_id [OF inv step True] inv True by (simp add: ids_inv_def)
    ultimately show ?thesis using log_inv_step [OF li step] c start_ids(3) [OF inv step True] by (simp add: ids_inv_def)
  next
    case False
    then show ?thesis using log_inv_step [OF li step] c by (simp add: ids_inv_def)
  qed
qed

lemma ids_inv_step: "ids_inv m \<Longrightarrow> manager_step m e m' \<Longrightarrow> ids_inv m'"
proof -
  assume inv: "ids_inv m" and step: "manager_step m e m'"
  then have li: "log_inv m" by (simp add: ids_inv_def)
  show ?thesis
  proof (cases "\<exists>t. e = Start t")
    case True
    then show ?thesis using ids_inv_start [OF inv] step by blast
  next
    case False
    have was: "\<exists>x. started m t x \<and> t_sid x' = t_sid x" if "started m' t x'" for t x'
      using started_step [OF li step that] False by blast
    then have st: "started_tunnels m' = started_tunnels m" using started_kept [OF li step] by (fastforce simp: started_tunnels_def)
    have "ids_unique m'" if "ids_unique m"
    proof (rule ids_uniqueI)
      fix t u x y
      assume "started m' t x" "started m' u y" "t_sid x = t_sid y"
      then show "t = u" using was [of t x] was [of u y] ids_uniqueD [OF that, of t _ u] by (auto simp: started_def)
    qed
    then show ?thesis
      using inv log_inv_step [OF li step] next_id_step [OF step] False was by (auto simp: ids_inv_def st) metis
  qed
qed

interpretation ids_runs: step_invariant manager_step ids_inv
  by unfold_locales (rule ids_inv_step)

text \<open>The server's part of a step of the system.\<close>

lemma system_step_server: "system_step j e j' \<Longrightarrow> srv j' = srv j \<or> (\<exists>ev. manager_step (srv j) ev (srv j'))"
  by (erule system_step.cases) (auto intro: manager_step.receive)

interpretation system_ids: step_invariant system_step "\<lambda>j. ids_inv (srv j)"
  using system_step_server ids_inv_step by unfold_locales metis

lemma system_ids_unique:
  assumes "run system_step (system_new cid) tr j" and "card (started_tunnels (srv j)) \<le> 2 ^ 32"
  shows "ids_unique (srv j)"
proof -
  have "ids_inv (srv (system_new cid))"
    using log_inv_new [of cid] by (auto simp: ids_inv_def system_new_def started_tunnels_def started_def manager_new_def ids_unique_def)
  then show ?thesis using system_ids.run_inv [OF assms(1)] assms(2) by (simp add: ids_inv_def)
qed

section \<open>Runs\<close>

text \<open>A run of the system, computed: a message that fits the wire crosses it, and the connector's next task has the
  number of messages read as its name.\<close>

lemma down_step:
  assumes "\<not> writer_over j" and "read_down j < length (outbox (srv j))" and "msg = outbox (srv j) ! read_down j"
    and "encodable msg" and "on_wire (wire_form msg)" and "\<not> outbound_closed (con j)" and "stream_tasks (con j) u = None"
  shows "system_step j Down (j\<lparr>con := session_message u (wire_form msg) (con j), read_down := Suc (read_down j)\<rparr>)"
proof (rule system_step.down [OF assms(1,2)])
  have "encode msg = Inr (body_bytes (wire_form msg))" using assms(4) by (simp add: encode_Inr)
  then show "write_turn (From_queue (Some (outbox (srv j) ! read_down j))) = Some (Binary (body_bytes (wire_form msg)))"
    by (simp add: write_turn_def assms(3))
  show "wss_recv [Frame (Binary (body_bytes (wire_form msg)))] = Some (Inr (Some (wire_form msg)), [])"
    using decode_body_bytes [OF assms(5)] by simp
  show "session_step (con j) (From_server (wire_form msg)) (session_message u (wire_form msg) (con j))"
    by (rule session_step.message [OF assms(6,7)])
qed

lemma up_step:
  assumes "read_up j < length (outbound (con j))" and "msg = outbound (con j) ! read_up j" and "encodable msg" and "on_wire (wire_form msg)"
  shows "system_step j Up (j\<lparr>srv := handle_message (wire_form msg) (srv j), read_up := Suc (read_up j)\<rparr>)"
proof (rule system_step.up [OF assms(1)])
  show "connector_frame (outbound (con j) ! read_up j) = Inr (Binary (body_bytes (wire_form msg)))"
    using assms(3) by (simp add: connector_frame_def assms(2) and_then_eq_Inr encode_Inr)
  show "read_turn (\<lambda>_. []) (Frame (Binary (body_bytes (wire_form msg)))) = Handle (wire_form msg)"
    using decode_body_bytes [OF assms(4)] by (simp add: read_turn_def)
qed

definition system_exec :: "system_event \<Rightarrow> tunnel_system \<Rightarrow> tunnel_system option" where
  "system_exec e j = (case e of
       Srv ev \<Rightarrow> if is_receive ev \<or> is_channel_closed ev \<and> \<not> writer_over j then None
         else map_option (\<lambda>m'. (server_io ev j)\<lparr>srv := m'\<rparr>) (manager_exec ev (srv j))
     | Con (Task k ev) \<Rightarrow> (case stream_tasks (con j) k of
           None \<Rightarrow> None
         | Some y \<Rightarrow> map_option (\<lambda>(y', ms). (connector_io (Task k ev) j)
             \<lparr>con := (con j)\<lparr>stream_tasks := (stream_tasks (con j))(k \<mapsto> y'), outbound := outbound (con j) @ ms\<rparr>\<rparr>)
             (stream_handler (outbound_closed (con j)) ev y))
     | Down \<Rightarrow>
         if writer_over j \<or> length (outbox (srv j)) \<le> read_down j \<or> outbound_closed (con j)
            \<or> stream_tasks (con j) (read_down j) \<noteq> None then None
         else let msg = outbox (srv j) ! read_down j in
           if encodable msg \<and> on_wire (wire_form msg)
           then Some (j\<lparr>con := session_message (read_down j) (wire_form msg) (con j), read_down := Suc (read_down j)\<rparr>) else None
     | Up \<Rightarrow>
         if length (outbound (con j)) \<le> read_up j then None
         else let msg = outbound (con j) ! read_up j in
           if encodable msg \<and> on_wire (wire_form msg)
           then Some (j\<lparr>srv := handle_message (wire_form msg) (srv j), read_up := Suc (read_up j)\<rparr>) else None
     | _ \<Rightarrow> None)"

primrec system_replay :: "system_event list \<Rightarrow> tunnel_system \<Rightarrow> tunnel_system option" where
  "system_replay [] j = Some j"
| "system_replay (e # es) j = (case system_exec e j of None \<Rightarrow> None | Some j' \<Rightarrow> system_replay es j')"

lemma system_exec_step:
  assumes "system_exec e j = Some j'"
  shows "system_step j e j'"
proof (cases e)
  case (Srv ev)
  then obtain m' where m: "\<not> is_receive ev" "is_channel_closed ev \<Longrightarrow> writer_over j" "manager_exec ev (srv j) = Some m'"
      "j' = (server_io ev j)\<lparr>srv := m'\<rparr>"
    using assms by (auto simp: system_exec_def split: if_splits)
  show ?thesis using system_step.server [OF m(3) [unfolded manager_exec_step] m(1,2)] Srv m(4) by simp
next
  case (Con ev)
  then obtain k tv y y' ms where t: "ev = Task k tv" "stream_tasks (con j) k = Some y"
      "stream_handler (outbound_closed (con j)) tv y = Some (y', ms)"
      "j' = (connector_io ev j)\<lparr>con := (con j)\<lparr>stream_tasks := (stream_tasks (con j))(k \<mapsto> y'), outbound := outbound (con j) @ ms\<rparr>\<rparr>"
    using assms by (auto simp: system_exec_def split: session_event.splits option.splits)
  show ?thesis using system_step.connector [OF session_step.task [OF t(2,3)]] Con t(1,4) by simp
next
  case Down
  then show ?thesis using assms by (auto simp: system_exec_def Let_def intro!: down_step split: if_splits)
next
  case Up
  then show ?thesis using assms by (auto simp: system_exec_def Let_def intro!: up_step split: if_splits)
qed (use assms in \<open>simp add: system_exec_def\<close>)

lemma system_replay_run: "system_replay es j = Some j' \<Longrightarrow> run system_step j es j'"
proof (induction es arbitrary: j)
  case (Cons e es)
  then obtain j1 where j1: "system_exec e j = Some j1" "system_replay es j1 = Some j'" by (auto split: option.splits)
  show ?case by (rule run_Cons [OF system_exec_step [OF j1(1)] Cons.IH [OF j1(2)]])
qed auto

section \<open>A tunnel at work\<close>

definition demo_task :: stream_task where
  "demo_task = (stream_task_new 1 ''a:1'')\<lparr>k_phase := Running\<rparr>"

definition demo_linked :: tunnel_system where
  "demo_linked = (system_new ''c'')\<lparr>srv := demo_open,
     con := session_new\<lparr>backends := [(1, 0)], stream_tasks := [0 \<mapsto> demo_task], outbound := [ConnectOk 1]\<rparr>,
     read_down := 1, read_up := 1\<rparr>"

lemma case_option_same [simp]: "(case z of None \<Rightarrow> c | Some _ \<Rightarrow> c) = c"
  by (cases z) simp_all

lemmas system_eval = system_exec_def server_io_def connector_io_def system_new_def session_new_def session_message_def
  handle_connect_def remove_backend_def stream_task_new_def stream_handler_def demo_task_def demo_linked_def str_fits_def
  MAX_CONNECT_TARGET_LEN_def

lemma demo_linked_run: "run system_step (system_new ''c'') [Srv (Bridge 1 ''a:1''), Srv (Start 1), Srv (Connect_sent 1), Down,
    Con (Task 0 (Dialed (Inr ()))), Con (Task 0 Answer_sent), Up, Srv (Connect_answered 1)] demo_linked"
  by (rule system_replay_run)
    (simp add: demo_defs manager_eval system_eval is_str_def utf8_valid_ascii as_bytes_def; simp add: fun_eq_iff)

text \<open>The client sends two bytes, which reach the backend; the backend answers with one.\<close>

definition demo_events :: "system_event list" where
  "demo_events = [Srv (Upload 1 [5, 6]), Srv (Upload_sent 1), Down, Con (Task 0 Take_data), Con (Task 0 Backend_written),
     Con (Task 0 (Backend_read [7])), Con (Task 0 Credit_acquired), Con (Task 0 (Data_sent [7]))]"

definition demo_busy_tunnel :: tunnel where
  "demo_busy_tunnel = demo_tunnel\<lparr>t_phase := Open, t_response := Some (Inr ()), t_credit := int STREAM_RECV_WINDOW - 2\<rparr>"

definition demo_busy_task :: stream_task where
  "demo_busy_task = demo_task\<lparr>k_credit := int STREAM_RECV_WINDOW - 1, k_drained := 2\<rparr>"

definition demo_busy :: tunnel_system where
  "demo_busy = demo_linked\<lparr>
     srv := demo_open\<lparr>tunnels := [1 \<mapsto> demo_busy_tunnel], outbox := [Connect 1 ''a:1'', Data 1 [5, 6]]\<rparr>,
     con := session_new\<lparr>backends := [(1, 0)], stream_tasks := [0 \<mapsto> demo_busy_task], outbound := [ConnectOk 1, Data 1 [7]]\<rparr>,
     read_down := 2, from_client := (\<lambda>_. [])(1 := [5, 6]), to_backend := (\<lambda>_. [])(0 := [5, 6]),
     from_backend := (\<lambda>_. [])(0 := [7])\<rparr>"

lemma demo_credit: "\<not> WINDOW_UPDATE_THRESHOLD \<le> 2" "credit_taken 1 (int STREAM_RECV_WINDOW) = Some (int STREAM_RECV_WINDOW - 1)"
    "credit_taken 2 (int STREAM_RECV_WINDOW) = Some (int STREAM_RECV_WINDOW - 2)"
  by (simp_all add: credit_taken_def i64_sub_id STREAM_RECV_WINDOW_def i64_max_def WINDOW_UPDATE_THRESHOLD_def)

lemma demo_busy_run: "\<exists>tr. run system_step (system_new ''c'') tr demo_busy"
proof -
  have "system_replay demo_events demo_linked = Some demo_busy"
    by (simp add: demo_events_def demo_busy_def demo_busy_tunnel_def demo_busy_task_def demo_defs manager_eval system_eval
        is_finished_def idle_download_def idle_upload_def backend_written_def demo_credit MAX_DATA_PAYLOAD_LEN_def
        payload_fits_def numeral_2_eq_2 [symmetric]; simp add: fun_eq_iff)
  then show ?thesis using run_append [OF system_replay_run demo_linked_run] by blast
qed

lemma demo_one_tunnel: "card (started_tunnels (srv demo_linked)) \<le> 2 ^ 32" "card (started_tunnels (srv demo_busy)) \<le> 2 ^ 32"
proof -
  have "started_tunnels (srv demo_linked) = {1}" "started_tunnels (srv demo_busy) = {1}"
    by (auto simp: started_tunnels_def started_def demo_linked_def demo_busy_def demo_defs demo_busy_tunnel_def split: if_splits)
  then show "card (started_tunnels (srv demo_linked)) \<le> 2 ^ 32" "card (started_tunnels (srv demo_busy)) \<le> 2 ^ 32" by simp_all
qed

lemma demo_busy_stream: "started (srv demo_busy) 1 demo_busy_tunnel" "stream_tasks (con demo_busy) 0 = Some demo_busy_task"
    "k_sid demo_busy_task = t_sid demo_busy_tunnel"
  by (simp_all add: started_def demo_busy_def demo_linked_def demo_busy_tunnel_def demo_busy_task_def demo_task_def demo_defs stream_task_new_def)

section \<open>What the two ends guarantee together\<close>

lemma resets_sel [simp]: "resets (close_credit t m) = resets m" "resets (respond t r m) = resets m"
  "resets (finish t m) = resets m" "resets (release_stream_slot m) = resets m"
  by (simp_all add: close_credit_def respond_def finish_def release_stream_slot_def)

lemma resets_remove [simp]: "resets (remove_stream sid m) = resets m"
  by (simp add: remove_stream_def Let_def split: option.splits)

lemma reached_stream:
  assumes run: "run system_step (system_new cid) tr j" and few: "card (started_tunnels (srv j)) \<le> 2 ^ 32"
    and x: "started (srv j) t x" and y: "stream_tasks (con j) k = Some y" "k_sid y = t_sid x"
  shows "stream_ok j t x k y" and "t_target x = k_target y" and "log_data (t_sid x) (outbox (srv j)) @ sending x = from_client j t"
    and "0 \<le> t_credit x" and "0 \<le> k_credit y" and "t_drained x < WINDOW_UPDATE_THRESHOLD" and "k_drained y < WINDOW_UPDATE_THRESHOLD"
proof -
  note inv = system_reachable [OF run] and ids = system_ids_unique [OF run few]
  note ord = streams_invD(3) [OF system_invD(5) [OF inv ids] x]
  show "stream_ok j t x k y" by (rule tunnel_in_orderD(4) [OF ord y])
  show "log_data (t_sid x) (outbox (srv j)) @ sending x = from_client j t" by (rule tunnel_in_orderD(2) [OF ord])
  obtain u z where z: "started (srv j) u z" "t_sid z = k_sid y" "t_target z = k_target y" using task_tunnel [OF inv ids y(1)] by metis
  have "z = x" using ids_uniqueD [OF ids, of u z t x] x y(2) z(1,2) by (auto simp: started_def)
  then show "t_target x = k_target y" using z(3) by simp
  have "tunnel_ok x" using inv_tunnel [OF log_invD(1) [OF system_invD(1) [OF inv]]] x by (auto simp: started_def)
  then show "0 \<le> t_credit x" "t_drained x < WINDOW_UPDATE_THRESHOLD" by (simp_all add: tunnel_ok_def)
  have "task_ok y" by (rule answers_invD(2) [OF system_invD(2) [OF inv] y(1)])
  then show "0 \<le> k_credit y" "k_drained y < WINDOW_UPDATE_THRESHOLD" by (simp_all add: task_ok_def credit_ok_def)
qed

lemma log_data_take: "prefix (log_data sid (take n ms)) (log_data sid ms)"
  using log_data_split [of sid ms n] by (metis prefixI)

text \<open>(C2) A tunnel carries bytes unchanged, in order and without loss in the middle: what the connector wrote to the
  backend of a stream is a prefix of what the client of the tunnel with that id sent, what the server wrote to that
  client is a prefix of what the backend sent, and the backend is the one the tunnel was opened for. Both ends run
  interleaved with all other tunnels, their failures, cancellations, and the loss of the link.\<close>

theorem tunnel_bytes_intact:
  assumes "run system_step (system_new cid) tr j" and "card (started_tunnels (srv j)) \<le> 2 ^ 32"
    and "started (srv j) t x" and "stream_tasks (con j) k = Some y" and "k_sid y = t_sid x"
  shows "k_target y = t_target x \<and> prefix (to_backend j k) (from_client j t) \<and> prefix (to_client j t) (from_backend j k)"
proof -
  note st = reached_stream [OF assms]
  let ?down = "log_data (t_sid x) (take (read_down j) (outbox (srv j)))" and ?up = "log_data (t_sid x) (take (read_up j) (outbound (con j)))"
  have "prefix (to_backend j k) ?down" "prefix (to_client j t) ?up" "prefix (log_data (t_sid x) (outbound (con j))) (from_backend j k)"
    using st(1) append_prefixD by (auto simp: stream_ok_def Let_def upload_ok_def download_ok_def source_ok_def)
  moreover have "prefix ?down (from_client j t)"
    using log_data_take prefix_order.trans st(3) by (metis prefixI)
  ultimately show ?thesis using st(2) log_data_take prefix_order.trans by metis
qed

theorem tunnel_bytes_intact_witness:
  "to_backend demo_busy 0 = [5, 6] \<and> prefix (to_backend demo_busy 0) (from_client demo_busy 1) \<and> k_target demo_busy_task = ''a:1''"
proof -
  obtain tr where "run system_step (system_new ''c'') tr demo_busy" using demo_busy_run by blast
  then show ?thesis
    using tunnel_bytes_intact [OF _ demo_one_tunnel(2) demo_busy_stream]
    by (auto simp: demo_busy_def demo_busy_tunnel_def demo_tunnel_def)
qed

text \<open>What the server makes of the connector's next message: no window is exceeded, and only \<open>Close\<close> ends a stream.\<close>

lemma up_effect:
  assumes inv: "system_inv j" and ids: "ids_unique (srv j)" and n: "read_up j < length (outbound (con j))"
    and msg: "msg = wire_form (outbound (con j) ! read_up j)"
  shows "resets (handle_message msg (srv j)) = resets (srv j) \<and>
    (streams (handle_message msg (srv j)) = streams (srv j) \<or>
      (\<exists>sid. Close sid \<in> set (outbound (con j)) \<and> handle_message msg (srv j) = remove_stream sid (srv j)))"
proof (cases msg)
  case (Data sid payload)
  show ?thesis
  proof (cases "map_of (streams (srv j)) sid")
    case (Some t)
    then obtain x where x: "tunnels (srv j) t = Some x" "live sid x"
      using live_registered [OF log_invD(1) [OF system_invD(1) [OF inv]]] by blast
    then have "t_outstanding x + length payload \<le> STREAM_RECV_WINDOW"
      using up_fits(1) [OF inv ids n, of t x] Data msg wire_form_sel(1) [of sid "outbound (con j) ! read_up j"]
      by (auto simp: started_def live_def)
    then show ?thesis using Data Some x by (auto simp: handle_message_def Let_def receiver_gone_def live_def)
  qed (simp add: Data handle_message_def)
next
  case (Close sid)
  then have "Close sid \<in> set (outbound (con j))" using msg n wire_form_sel(5) [of "outbound (con j) ! read_up j" sid] by (metis nth_mem)
  then show ?thesis using Close by (auto simp: handle_message_def)
next
  case (Reset sid)
  then have "Reset sid \<in> set (outbound (con j))" using msg n wire_form_sel(6) [of "outbound (con j) ! read_up j" sid] by (metis nth_mem)
  then show ?thesis using answers_invD(4) [OF system_invD(2) [OF inv]] by (fastforce simp: answer_ok_def)
qed (simp_all add: handle_message_def respond_def split: option.splits)

text \<open>(C14) The server never cuts off a connector: whatever message of the connector it reads next, it finds no window
  exceeded and leaves no \<open>Reset\<close> to be sent.\<close>

theorem window_kept_by_peer:
  assumes "run system_step (system_new cid) tr j" and "card (started_tunnels (srv j)) \<le> 2 ^ 32" and "system_step j Up j'"
  shows "resets (srv j') = resets (srv j)"
proof -
  note inv = system_reachable [OF assms(1)] and ids = system_ids_unique [OF assms(1,2)]
  obtain msg where n: "read_up j < length (outbound (con j))" and msg: "msg = wire_form (outbound (con j) ! read_up j)"
      and j': "srv j' = handle_message msg (srv j)"
    using assms(3) by (auto elim!: system_step.cases dest: up_crossed)
  show ?thesis using up_effect [OF inv ids n msg] by (simp add: j')
qed

theorem window_kept_by_peer_witness:
  "\<exists>j. system_step demo_busy Up j \<and> read_up j = 2 \<and> resets (srv j) = []"
proof -
  obtain tr where run: "run system_step (system_new ''c'') tr demo_busy" using demo_busy_run by blast
  have "\<exists>j. system_exec Up demo_busy = Some j \<and> read_up j = 2"
    by (simp add: system_exec_def Let_def demo_busy_def demo_linked_def payload_fits_def MAX_DATA_PAYLOAD_LEN_def)
  then obtain j where j: "system_step demo_busy Up j" "read_up j = 2" using system_exec_step by blast
  then show ?thesis
    using window_kept_by_peer [OF run demo_one_tunnel(2) j(1)] by (auto simp: demo_busy_def demo_defs)
qed

text \<open>(C16) Neither end holds more than one window of a tunnel's bytes, however slow its socket: what the connector has
  received for the backend, and what the server has received for the client, without having granted it back.\<close>

theorem tunnel_buffers_bounded:
  assumes "run system_step (system_new cid) tr j" and "card (started_tunnels (srv j)) \<le> 2 ^ 32"
    and "started (srv j) t x" and "stream_tasks (con j) k = Some y" and "k_sid y = t_sid x"
  shows "length (held_in y) + k_drained y \<le> STREAM_RECV_WINDOW \<and> length (held_out x) + t_drained x \<le> STREAM_RECV_WINDOW"
proof -
  note st = reached_stream [OF assms]
  have "int (length (held_in y) + k_drained y) \<le> ungranted_upload y"
    by (simp add: held_in_def ungranted_upload_def length_concat split: option.splits)
  moreover have "length (held_out x) + t_drained x \<le> ungranted_download x" by (simp add: ungranted_download_def)
  ultimately show ?thesis using stream_okD [OF st(1,4,5)] by linarith
qed

theorem tunnel_buffers_bounded_witness:
  "k_drained demo_busy_task = 2 \<and> length (held_in demo_busy_task) + k_drained demo_busy_task \<le> 262144"
proof -
  obtain tr where "run system_step (system_new ''c'') tr demo_busy" using demo_busy_run by blast
  then show ?thesis
    using tunnel_buffers_bounded [OF _ demo_one_tunnel(2) demo_busy_stream] by (simp add: demo_busy_task_def STREAM_RECV_WINDOW_def)
qed

text \<open>(C15) No credit is lost: when a tunnel is registered at both ends, every message was read, and an end holds nothing of
  what it received, then the sender's credit is back to more than the window less the threshold of a grant, so that
  a whole chunk read from its socket can be sent at once.\<close>

theorem credit_recovers:
  assumes "run system_step (system_new cid) tr j" and "card (started_tunnels (srv j)) \<le> 2 ^ 32"
    and "started (srv j) t x" and "stream_tasks (con j) k = Some y" and "k_sid y = t_sid x"
    and "bound_to (srv j) t (t_sid x)" and "serves (con j) k (t_sid x)" and "k_open y" "k_uploading y" "k_phase y \<noteq> Ended"
    and "read_down j = length (outbox (srv j))" and "read_up j = length (outbound (con j))"
  shows "(t_sending x = None \<longrightarrow> held_in y = [] \<longrightarrow> k_grant y = None \<longrightarrow> credit_taken (int TUNNEL_READ_CHUNK) (t_credit x) \<noteq> None)
    \<and> (k_ready y = None \<longrightarrow> held_out x = [] \<longrightarrow> t_grant x = None \<longrightarrow> credit_taken (int TUNNEL_READ_CHUNK) (k_credit y) \<noteq> None)"
proof -
  note st = reached_stream [OF assms(1-5)]
  have up: "up_ledger x y 0 0 = int STREAM_RECV_WINDOW" and down: "down_ledger x y 0 0 = int STREAM_RECV_WINDOW"
    using st(1) assms(6-12) by (simp_all add: stream_ok_def Let_def within_def uploads_live_def downloads_live_def)
  have "credit_taken (int TUNNEL_READ_CHUNK) (t_credit x) \<noteq> None" if "t_sending x = None" "held_in y = []" "k_grant y = None"
  proof -
    have "ungranted_upload y = int (k_drained y)"
      using that(3) arg_cong [OF that(2), of length] by (simp add: held_in_def ungranted_upload_def length_concat split: option.splits)
    then show ?thesis using up st(7) that(1)
      by (simp add: up_ledger_def sending_def credit_taken_def TUNNEL_READ_CHUNK_def WINDOW_UPDATE_THRESHOLD_def STREAM_RECV_WINDOW_def)
  qed
  moreover have "credit_taken (int TUNNEL_READ_CHUNK) (k_credit y) \<noteq> None" if "k_ready y = None" "held_out x = []" "t_grant x = None"
  proof -
    have "queued x = 0" using arg_cong [OF that(2), of length] by simp
    then have "ungranted_download x = t_drained x" using that(3) by (simp add: ungranted_download_def)
    then show ?thesis using down st(6) that(1)
      by (simp add: down_ledger_def unsent_download_def credit_taken_def TUNNEL_READ_CHUNK_def WINDOW_UPDATE_THRESHOLD_def
          STREAM_RECV_WINDOW_def)
  qed
  ultimately show ?thesis by blast
qed

theorem credit_recovers_witness:
  "\<exists>x. tunnels (srv demo_linked) 1 = Some x \<and> credit_taken (int TUNNEL_READ_CHUNK) (t_credit x) \<noteq> None"
proof -
  let ?x = "demo_tunnel\<lparr>t_phase := Open, t_response := Some (Inr ())\<rparr>"
  have "started (srv demo_linked) 1 ?x" "stream_tasks (con demo_linked) 0 = Some demo_task" "k_sid demo_task = t_sid ?x"
    "bound_to (srv demo_linked) 1 (t_sid ?x)" "serves (con demo_linked) 0 (t_sid ?x)" "k_open demo_task" "k_uploading demo_task"
    "k_phase demo_task \<noteq> Ended" "read_down demo_linked = length (outbox (srv demo_linked))"
    "read_up demo_linked = length (outbound (con demo_linked))"
    by (simp_all add: started_def bound_to_def serves_def demo_linked_def demo_task_def demo_defs stream_task_new_def)
  note idle = credit_recovers [OF demo_linked_run demo_one_tunnel(1) this]
  have "credit_taken (int TUNNEL_READ_CHUNK) (t_credit ?x) \<noteq> None"
    by (rule conjunct1 [OF idle, rule_format]) (simp_all add: demo_tunnel_def held_in_def demo_task_def stream_task_new_def)
  then show ?thesis by (simp add: demo_linked_def demo_open_def)
qed

end
