(* ===== verification/Tunnel_Cleanup.thy ===== *)
theory Tunnel_Cleanup
  imports Tunnel_Runs
begin

text \<open>
  Why a stream of the server is no longer registered, and what the connector is told about it: both ends of a
  WebSocket session let go of a tunnel together, so that a backend connection does not outlive its tunnel.
\<close>

declare map_of_eq_Some_iff [simp del] and Some_eq_map_of_iff [simp del]

section \<open>At the server\<close>

lemma start_binds:
  assumes "start_tunnel u m = Some m'"
  obtains sid nxt where "map_of (streams m) sid = None"
    "m' = upd_tunnel u (\<lambda>x. x\<lparr>t_sid := sid, t_phase := Connecting\<rparr>) (m\<lparr>next_stream_id := nxt,
       pending := AList.update sid u (pending m), streams := AList.update sid u (streams m)\<rparr>)"
proof -
  obtain sid nxt where al: "alloc_stream_id (Suc (length (streams m))) (streams m) (next_stream_id m) = Some (sid, nxt)"
    using assms by (auto simp: start_tunnel_def simp del: alloc_stream_id.simps split: option.splits)
  have "map_of (streams m) sid = None" using alloc_fresh [OF al] by (simp add: map_of_eq_None_iff)
  then show ?thesis using that [of sid nxt] assms al by (simp add: start_tunnel_def del: alloc_stream_id.simps)
qed

text \<open>A stream that a step of the server's own ends: the connector was, or will be, told to reset it, unless it
  was never told to connect, or the session is over.\<close>

lemma bound_remove_other: "sid \<noteq> i \<Longrightarrow> bound_to (remove_stream i m) t sid = bound_to m t sid"
  by (auto simp: bound_to_def remove_stream_def Let_def map_of_delete release_stream_slot_def close_credit_def respond_def split: option.splits)

lemma bound_release [simp]: "bound_to (release_stream_slot m) t sid = bound_to m t sid"
  by (simp add: bound_to_def release_stream_slot_def)

lemma unbound_task:
  assumes ids: "ids_unique m" and x: "started m t x" and b: "bound_to m t (t_sid x)"
    and z: "tunnels m u = Some z" "tunnel_next e u z m = Some m'" "event_task e = Some u" and nb: "\<not> bound_to m' t (t_sid x)"
  shows "is_channel_closed e \<or> e = Connect_unsent t \<and> t_phase x = Connecting
    \<or> t_sid x \<in> set (resets m') \<or> Reset (t_sid x) \<in> set (outbox m')"
proof (cases "\<exists>v. e = Start v")
  case True
  then have "start_tunnel u m = Some m'" using z(2) by (auto simp: tunnel_next_def split: if_splits)
  then have "bound_to m' t (t_sid x)" using b by (elim start_binds) (auto simp: bound_to_def map_of_update)
  then show ?thesis using nb by simp
next
  case False
  have keep: "bound_to m' t (t_sid x)" if "t_sid z \<noteq> t_sid x"
    using z(2) that b False
    by (cases e) (auto simp: tunnel_next_def bound_remove_other split: if_splits option.splits sum.splits list.splits)
  have "t_phase z = Reserved \<Longrightarrow> bound_to m' t (t_sid x)" using z(2) b False by (cases e) (auto simp: tunnel_next_def split: if_splits)
  then have u: "u = t" using ids_uniqueD [OF ids, of u z t x] x z(1) keep nb by (auto simp: started_def)
  then have zx: "z = x" using x z(1) by (simp add: started_def)
  show ?thesis
    using z(2,3) b nb False unfolding u zx
    by (cases e) (auto simp: tunnel_next_def bound_to_def [of m] split: if_splits option.splits sum.splits list.splits)
qed

lemma unbound_step:
  assumes ids: "ids_unique m" and x: "started m t x" "bound_to m t (t_sid x)"
    and step: "manager_step m e m'" and e: "\<not> is_receive e" and nb: "\<not> bound_to m' t (t_sid x)"
  shows "shutdown_notified m' \<or> is_channel_closed e \<or> e = Connect_unsent t \<and> t_phase x = Connecting
    \<or> t_sid x \<in> set (resets m') \<or> Reset (t_sid x) \<in> set (outbox m')"
  using step
proof (cases rule: manager_step.cases)
  case (bridge u target r)
  then show ?thesis using x nb by (auto simp: bridge_def try_reserve_stream_slot_def bound_to_def split: if_splits)
next
  case (task u z)
  then show ?thesis using unbound_task [OF ids x task(2,3,1) nb] by blast
next
  case (reset i)
  then show ?thesis using x nb by (simp add: bound_to_def)
qed (use e x nb in \<open>simp_all add: bound_to_def\<close>)

text \<open>A stream is reset only once the connector was told to connect it.\<close>

definition told :: "manager \<Rightarrow> u32 \<Rightarrow> bool" where
  "told m sid \<longleftrightarrow> (\<exists>t x. tunnels m t = Some x \<and> t_sid x = sid \<and> t_phase x \<notin> {Reserved, Connecting})"

lemma toldI: "tunnels m t = Some x \<Longrightarrow> t_phase x \<notin> {Reserved, Connecting} \<Longrightarrow> told m (t_sid x)"
  unfolding told_def by blast

lemma not_told: "ids_unique m \<Longrightarrow> started m t x \<Longrightarrow> t_phase x = Connecting \<Longrightarrow> \<not> told m (t_sid x)"
proof
  assume m: "ids_unique m" "started m t x" "t_phase x = Connecting" "told m (t_sid x)"
  then obtain u y where "tunnels m u = Some y" "t_sid y = t_sid x" "t_phase y \<notin> {Reserved, Connecting}" by (auto simp: told_def)
  then show False using ids_uniqueD [OF m(1), of t x u y] m(2,3) by (auto simp: started_def)
qed

lemma connect_told: "log_inv m \<Longrightarrow> sid \<in> set (log_connects (outbox m)) \<Longrightarrow> told m sid"
  using log_invD(3) by (fastforce simp: log_connects_mem said_ok_def told_def)

lemma told_step:
  assumes "manager_inv m" and "manager_step m e m'" and "told m sid"
  shows "told m' sid"
proof -
  obtain t x where x: "tunnels m t = Some x" "t_sid x = sid" "t_phase x \<notin> {Reserved, Connecting}" using assms(3) by (auto simp: told_def)
  then obtain y where "tunnels m' t = Some y" "tunnel_kept x y" using manager_step_kept [OF assms(1) x(1) _ assms(2)] by auto
  then show ?thesis using x unfolding told_def tunnel_kept_def by blast
qed

lemma resets_shutdown [simp]: "resets (shutdown m) = resets m"
proof -
  have "resets (foldl (\<lambda>m (_ :: u32, t). respond t r m) m ps) = resets m" for r m ps
    by (induction ps arbitrary: m) (auto split: prod.splits)
  moreover have "resets (foldl (\<lambda>m (_ :: u32, t). close_credit t m) m ps) = resets m" for m ps
    by (induction ps arbitrary: m) (auto split: prod.splits)
  ultimately show ?thesis by (simp add: shutdown_def Let_def)
qed

definition resetting :: "manager \<Rightarrow> u32 set" where
  "resetting m = set (resets m) \<union> {sid. Reset sid \<in> set (outbox m)}"

lemma resetting_step:
  assumes inv: "manager_inv m" and step: "manager_step m e m'" and e: "\<not> is_receive e"
  shows "resetting m \<subseteq> resetting m'" and "sid \<in> resetting m' \<Longrightarrow> sid \<in> resetting m \<or> told m sid"
proof -
  have "resetting m \<subseteq> resetting m' \<and> (sid \<in> resetting m' \<longrightarrow> sid \<in> resetting m \<or> told m sid)"
    using step
  proof (cases rule: manager_step.cases)
    case (bridge u target r)
    then show ?thesis by (auto simp: bridge_def try_reserve_stream_slot_def resetting_def split: if_splits)
  next
    case (task u z)
    then have "told m (t_sid z)" if "t_phase z \<in> {Waiting, Open}" using that by (intro toldI) auto
    then show ?thesis using task(3)
      by (cases e) (auto simp: tunnel_next_def start_tunnel_def resetting_def split: if_splits option.splits sum.splits list.splits)
  next
    case (reset i)
    have "resets m = take i (resets m) @ resets m ! i # drop (Suc i) (resets m)" using reset(3) by (simp add: id_take_nth_drop)
    then have "set (resets m) = insert (resets m ! i) (set (take i (resets m) @ drop (Suc i) (resets m)))"
      by (metis list.set(2) set_append Un_insert_right)
    then show ?thesis by (auto simp: reset resetting_def)
  qed (use e in \<open>simp_all add: resetting_def\<close>)
  then show "resetting m \<subseteq> resetting m'" and "sid \<in> resetting m' \<Longrightarrow> sid \<in> resetting m \<or> told m sid" by blast+
qed

section \<open>At both ends\<close>

text \<open>\<open>let_go\<close>: why a started tunnel has no stream any more. A \<open>Reset\<close> is never said before the \<open>Connect\<close> of its stream,
  and a stream that the connector has read a \<open>Reset\<close> for is not served.\<close>

definition let_go :: "tunnel_system \<Rightarrow> tunnel \<Rightarrow> bool" where
  "let_go j x \<longleftrightarrow> shutdown_notified (srv j) \<or> writer_over j \<or> t_sid x \<in> resetting (srv j)
     \<or> Close (t_sid x) \<in> set (outbound (con j))
     \<or> t_phase x \<noteq> Connecting \<and> t_sid x \<notin> set (log_connects (outbox (srv j)))"

definition connects_first :: "message list \<Rightarrow> bool" where
  "connects_first ms \<longleftrightarrow> (\<forall>i sid url. i < length ms \<longrightarrow> ms ! i = Connect sid url \<longrightarrow> Reset sid \<notin> set (take i ms))"

definition cleanup_inv :: "tunnel_system \<Rightarrow> bool" where
  "cleanup_inv j \<longleftrightarrow> (\<forall>sid \<in> resetting (srv j). told (srv j) sid) \<and> connects_first (outbox (srv j))
     \<and> (\<forall>t x. started (srv j) t x \<longrightarrow> bound_to (srv j) t (t_sid x) \<or> let_go j x)
     \<and> (\<forall>sid. Reset sid \<in> set (take (read_down j) (outbox (srv j))) \<longrightarrow> map_of (backends (con j)) sid = None)"

lemma cleanup_invD:
  assumes "cleanup_inv j"
  shows "sid \<in> resetting (srv j) \<Longrightarrow> told (srv j) sid" and "connects_first (outbox (srv j))"
    and "started (srv j) t x \<Longrightarrow> bound_to (srv j) t (t_sid x) \<or> let_go j x"
    and "Reset sid \<in> set (take (read_down j) (outbox (srv j))) \<Longrightarrow> map_of (backends (con j)) sid = None"
  using assms unfolding cleanup_inv_def by blast+

lemma connects_first_append:
  assumes "connects_first ms" and "\<And>sid. sid \<in> set (log_connects ms') \<Longrightarrow> Reset sid \<notin> set (ms @ ms')"
  shows "connects_first (ms @ ms')"
  unfolding connects_first_def
proof (intro allI impI)
  fix i sid url
  assume i: "i < length (ms @ ms')" "(ms @ ms') ! i = Connect sid url"
  show "Reset sid \<notin> set (take i (ms @ ms'))"
  proof (cases "i < length ms")
    case True
    then show ?thesis using assms(1) i by (simp add: connects_first_def nth_append)
  next
    case False
    then have "Connect sid url \<in> set ms'" using i by (simp add: nth_append) (metis add_diff_inverse_nat nat_add_left_cancel_less nth_mem)
    then have "Reset sid \<notin> set (ms @ ms')" using assms(2) log_connects_mem by blast
    then show ?thesis by (blast dest: in_set_takeD)
  qed
qed

text \<open>A step of the server's own.\<close>

lemma new_connects:
  assumes inv: "log_inv m" and step: "manager_step m e m'"
  obtains ms where "outbox m' = outbox m @ ms"
    "\<And>sid. sid \<in> set (log_connects ms) \<Longrightarrow> \<exists>t x. started m t x \<and> t_phase x = Connecting \<and> t_sid x = sid \<and> e = Connect_sent t"
proof -
  obtain ms where ms: "outbox m' = outbox m @ ms"
      "log_connects ms = (case e of Connect_sent t \<Rightarrow> (case tunnels m t of Some x \<Rightarrow> [t_sid x] | None \<Rightarrow> []) | _ \<Rightarrow> [])"
      "case e of Connect_sent t \<Rightarrow> (\<exists>x. tunnels m t = Some x \<and> t_phase x = Connecting) | _ \<Rightarrow> True"
    using local_said [OF inv step] by blast
  then show ?thesis by (intro that [of ms]) (auto simp: started_def split: manager_event.splits)
qed

lemma server_let_go:
  assumes inv: "log_inv (srv j)" and ids: "ids_unique (srv j)" and step: "manager_step (srv j) e m'" and e: "\<not> is_receive e"
    and wo: "is_channel_closed e \<Longrightarrow> writer_over j" and x: "started (srv j) t x" and x': "started m' t x'"
    and was: "bound_to (srv j) t (t_sid x) \<or> let_go j x"
  shows "bound_to m' t (t_sid x') \<or> let_go ((server_io e j)\<lparr>srv := m'\<rparr>) x'" (is "_ \<or> let_go ?j x'")
proof -
  have kept: "tunnel_kept x x'" using manager_step_kept [OF log_invD(1) [OF inv] _ _ step, of t x] x x' by (auto simp: started_def)
  then have sid: "t_sid x' = t_sid x" and ph: "t_phase x' = Connecting \<Longrightarrow> t_phase x = Connecting" by (simp_all add: tunnel_kept_def)
  obtain ms where ms: "outbox m' = outbox (srv j) @ ms"
    "\<And>sid. sid \<in> set (log_connects ms) \<Longrightarrow> \<exists>t x. started (srv j) t x \<and> t_phase x = Connecting \<and> t_sid x = sid \<and> e = Connect_sent t"
    using new_connects [OF inv step] by metis
  have grow: "resetting (srv j) \<subseteq> resetting m'" by (rule resetting_step(1) [OF log_invD(1) [OF inv] step e])
  show ?thesis
  proof (cases "bound_to (srv j) t (t_sid x)")
    case True
    have "let_go ?j x'" if "e = Connect_unsent t" "t_phase x = Connecting"
    proof -
      have "t_sid x \<notin> set (log_connects (outbox (srv j)))" using connect_told [OF inv] not_told [OF ids x that(2)] by blast
      moreover have "t_sid x \<notin> set (log_connects ms)" using ms(2) that(1) by blast
      moreover have "t_phase x' = Finished" using step that x x' by (auto elim!: manager_step.cases simp: tunnel_next_def finish_def started_def)
      ultimately show ?thesis using ms(1) by (simp add: let_go_def sid)
    qed
    then show ?thesis using unbound_step [OF ids x True step e] wo by (auto simp: sid let_go_def resetting_def)
  next
    case False
    have "t_sid x \<notin> set (log_connects ms)" if "t_phase x \<noteq> Connecting"
      using ms(2) [of "t_sid x"] ids_uniqueD [OF ids, of t x] x that by (fastforce simp: started_def)
    then show ?thesis using was False grow manager_step_const [OF step] ph ms(1) by (auto simp: let_go_def sid)
  qed
qed

lemma server_cleanup:
  assumes inv: "system_inv j" and ids: "ids_unique m'" and clean: "cleanup_inv j" and step: "manager_step (srv j) e m'"
    and e: "\<not> is_receive e" and wo: "is_channel_closed e \<Longrightarrow> writer_over j"
  shows "cleanup_inv ((server_io e j)\<lparr>srv := m'\<rparr>)" (is "cleanup_inv ?j")
proof -
  note li = system_invD(1) [OF inv] and mi = log_invD(1) [OF system_invD(1) [OF inv]]
  have un: "ids_unique (srv j)" by (rule ids_unique_step [OF mi step ids])
  obtain ms where ms: "outbox m' = outbox (srv j) @ ms"
    "\<And>sid. sid \<in> set (log_connects ms) \<Longrightarrow> \<exists>t x. started (srv j) t x \<and> t_phase x = Connecting \<and> t_sid x = sid \<and> e = Connect_sent t"
    using new_connects [OF li step] by metis
  have told: "sid \<in> resetting m' \<Longrightarrow> told (srv j) sid" for sid
    using resetting_step(2) [OF mi step e] cleanup_invD(1) [OF clean] by blast
  have "Reset sid \<notin> set (outbox (srv j) @ ms)" if "sid \<in> set (log_connects ms)" for sid
    using ms(2) [OF that] told [of sid] not_told [OF un] by (auto simp: resetting_def ms(1))
  then have "connects_first (outbox m')" unfolding ms(1) by (intro connects_first_append cleanup_invD(2) [OF clean])
  moreover have "bound_to m' t (t_sid x') \<or> let_go ?j x'" if x': "started m' t x'" for t x'
  proof (cases "e = Start t")
    case True
    then have "start_tunnel t (srv j) = Some m'" using step by (auto elim!: manager_step.cases simp: tunnel_next_def split: if_splits)
    then show ?thesis using x' by (elim start_binds) (auto simp: started_def bound_to_def map_of_update split: option.splits)
  next
    case False
    then obtain x where x: "started (srv j) t x" using started_step [OF li step x'] by blast
    show ?thesis by (rule server_let_go [OF li un step e wo x x' cleanup_invD(3) [OF clean x]])
  qed
  moreover have "take (read_down j) (outbox m') = take (read_down j) (outbox (srv j))" using ms(1) system_invD(3) [OF inv] by simp
  ultimately show ?thesis using told told_step [OF mi step] cleanup_invD(4) [OF clean] unfolding cleanup_inv_def by simp
qed

text \<open>The connector's side. Only \<open>Connect\<close> has a stream served.\<close>

lemma not_served_message:
  assumes "map_of (backends s) sid = None" and "\<And>url. msg \<noteq> Connect sid url"
  shows "map_of (backends (session_message u msg s)) sid = None"
proof -
  have rm: "map_of (backends (remove_backend i s)) sid = None" if "map_of (backends s) sid = None" for i and s :: session
    using that by (auto simp: remove_backend_def drop_state_def map_of_delete split: option.splits)
  show ?thesis
  proof (cases msg)
    case (Connect i url)
    have "map_of (filter (\<lambda>(_, v). \<not> is_finished s v) (backends s)) sid = None"
      using assms(1) by (auto simp: map_of_eq_None_iff)
    then show ?thesis
      using rm [of "s\<lparr>backends := filter (\<lambda>(_, v). \<not> is_finished s v) (backends s)\<rparr>" i] assms(2) Connect
      by (auto simp: session_message_def handle_connect_def Let_def map_of_update)
  qed (use assms(1) rm in \<open>auto simp: session_message_def split: option.splits\<close>)
qed

lemma cleanup_other:
  assumes "cleanup_inv j" and "srv j' = srv j" and "writer_over j \<Longrightarrow> writer_over j'" and "set (outbound (con j)) \<subseteq> set (outbound (con j'))"
    and "\<And>sid. Reset sid \<in> set (take (read_down j') (outbox (srv j))) \<Longrightarrow> map_of (backends (con j')) sid = None"
  shows "cleanup_inv j'"
proof -
  have "let_go j x \<Longrightarrow> let_go j' x" for x using assms(2-4) by (auto simp: let_go_def)
  then show ?thesis using assms(1,5) unfolding cleanup_inv_def assms(2) by blast
qed

lemma connector_cleanup:
  assumes clean: "cleanup_inv j" and step: "session_step (con j) e s'" and e: "\<not> is_from_server e"
  shows "cleanup_inv ((connector_io e j)\<lparr>con := s'\<rparr>)" (is "cleanup_inv ?j")
proof -
  have "set (outbound (con j)) \<subseteq> set (outbound s') \<and> (map_of (backends (con j)) sid = None \<longrightarrow> map_of (backends s') sid = None)" for sid
    using step
  proof cases
    case finish
    have "outbound (foldl (\<lambda>s (_ :: u32, t). drop_state t s) s bs) = outbound s" for s bs
      by (induction bs arbitrary: s) (auto simp: drop_state_def)
    then show ?thesis using finish by (simp add: end_session_def)
  qed (use e in auto)
  then show ?thesis using cleanup_invD(4) [OF clean] by (intro cleanup_other [OF clean]) simp_all
qed

lemma down_cleanup:
  assumes clean: "cleanup_inv j" and n: "read_down j < length (outbox (srv j))" and msg: "msg = wire_form (outbox (srv j) ! read_down j)"
  shows "cleanup_inv (j\<lparr>con := session_message u msg (con j), read_down := Suc (read_down j)\<rparr>)" (is "cleanup_inv ?j")
proof -
  have "map_of (backends (session_message u msg (con j))) sid = None"
    if r: "Reset sid \<in> set (take (Suc (read_down j)) (outbox (srv j)))" for sid
  proof (cases "msg = Reset sid")
    case True
    then show ?thesis by (simp add: session_message_def remove_backend_gone)
  next
    case False
    then have old: "Reset sid \<in> set (take (read_down j) (outbox (srv j)))"
      using r n wire_form_sel(6) [of "outbox (srv j) ! read_down j" sid] by (auto simp: msg take_Suc_conv_app_nth)
    then have "msg \<noteq> Connect sid url" for url
      using cleanup_invD(2) [OF clean] n wire_form_sel(3) [of "outbox (srv j) ! read_down j" sid url] by (auto simp: msg connects_first_def)
    then show ?thesis by (rule not_served_message [OF cleanup_invD(4) [OF clean old]])
  qed
  then show ?thesis by (intro cleanup_other [OF clean]) simp_all
qed

lemma up_cleanup:
  assumes inv: "system_inv j" and ids: "ids_unique (srv j)" and clean: "cleanup_inv j" and n: "read_up j < length (outbound (con j))"
    and msg: "msg = wire_form (outbound (con j) ! read_up j)"
  shows "cleanup_inv (j\<lparr>srv := handle_message msg (srv j), read_up := Suc (read_up j)\<rparr>)" (is "cleanup_inv ?j")
proof -
  note li = system_invD(1) [OF inv] and mi = log_invD(1) [OF system_invD(1) [OF inv]]
  let ?m = "handle_message msg (srv j)"
  have step: "manager_step (srv j) (Receive msg) ?m" by (rule manager_step.receive)
  note ef = up_effect [OF inv ids n msg]
  have same: "resetting ?m = resetting (srv j)" using ef by (simp add: resetting_def)
  have "bound_to ?m t (t_sid x') \<or> let_go ?j x'" if x': "started ?m t x'" for t x'
  proof -
    obtain x where x: "started (srv j) t x" using started_step [OF li step x'] by blast
    have kept: "tunnel_kept x x'" using manager_step_kept [OF mi _ _ step, of t x] x x' by (auto simp: started_def)
    then have sid: "t_sid x' = t_sid x" and ph: "t_phase x' = Connecting \<Longrightarrow> t_phase x = Connecting" by (simp_all add: tunnel_kept_def)
    have go: "let_go ?j x'" if "let_go j x" using that sid ph same by (auto simp: let_go_def)
    show ?thesis
    proof (cases "bound_to (srv j) t (t_sid x)")
      case True
      consider "streams ?m = streams (srv j)" | i where "Close i \<in> set (outbound (con j))" "?m = remove_stream i (srv j)"
        using ef by blast
      then have "bound_to ?m t (t_sid x) \<or> Close (t_sid x) \<in> set (outbound (con j))"
        using True by cases (auto simp: bound_to_def [of ?m] bound_to_def [of "srv j"], metis bound_remove_other bound_to_def)
      then show ?thesis using sid by (auto simp: let_go_def)
    next
      case False
      then show ?thesis using cleanup_invD(3) [OF clean x] go by blast
    qed
  qed
  moreover have "told ?m sid" if "sid \<in> resetting ?m" for sid
    using told_step [OF mi step] cleanup_invD(1) [OF clean] that same by blast
  ultimately show ?thesis using cleanup_invD(2,4) [OF clean] unfolding cleanup_inv_def by simp
qed

text \<open>The invariant with what it rests on, as long as the ids are distinct.\<close>

definition clean_system :: "tunnel_system \<Rightarrow> bool" where
  "clean_system j \<longleftrightarrow> system_inv j \<and> (ids_unique (srv j) \<longrightarrow> cleanup_inv j)"

lemma clean_step: "clean_system j \<Longrightarrow> system_step j e j' \<Longrightarrow> clean_system j'"
proof -
  assume c: "clean_system j" and step: "system_step j e j'"
  then have inv: "system_inv j" by (simp add: clean_system_def)
  have "cleanup_inv j'" if ids: "ids_unique (srv j')"
  proof -
    have un: "ids_unique (srv j)"
      using system_step_server [OF step] ids ids_unique_step [OF log_invD(1) [OF system_invD(1) [OF inv]]] by auto
    then have clean: "cleanup_inv j" using c by (simp add: clean_system_def)
    from step show ?thesis
    proof cases
      case (server ev m')
      then show ?thesis using server_cleanup [OF inv _ clean, of m' ev] ids by simp
    next
      case (connector ev s')
      then show ?thesis using connector_cleanup [OF clean] by simp
    next
      case (down f msg s')
      then show ?thesis using down_cleanup [OF clean down(4) down_crossed [OF down(5,6)]] by (auto elim!: session_step.cases)
    next
      case (up f show_error msg)
      then show ?thesis using up_cleanup [OF inv un clean up(3) up_crossed [OF up(4,5)]] by simp
    next
      case writer
      then show ?thesis using cleanup_invD(4) [OF clean] by (intro cleanup_other [OF clean]) simp_all
    qed
  qed
  then show ?thesis using system_step_inv [OF inv step] by (simp add: clean_system_def)
qed

interpretation clean_runs: step_invariant system_step clean_system
  by unfold_locales (rule clean_step)

lemma clean_new: "clean_system (system_new cid)"
  using system_inv_new [of cid]
  by (simp add: clean_system_def cleanup_inv_def system_new_def manager_new_def resetting_def connects_first_def started_def)

section \<open>No backend outlives its tunnel\<close>

text \<open>(C4) Once the server has let go of a tunnel, for whatever reason (refused or timed out, an error on either socket, the end
  of the other side), and as soon as what it says to the connector has been sent and read, the connector's task for it
  has ended or is cancelled: no backend connection is left behind while the session lives on.\<close>

theorem backend_not_leaked:
  assumes "run system_step (system_new cid) tr j" and "card (started_tunnels (srv j)) \<le> 2 ^ 32"
    and "started (srv j) t x" and "\<not> bound_to (srv j) t (t_sid x)" and "\<not> shutdown_notified (srv j)"
    and "\<not> writer_over j" and "resets (srv j) = []" and "read_down j = length (outbox (srv j))"
    and "stream_tasks (con j) k = Some y" and "k_sid y = t_sid x"
  shows "k_aborted y \<or> k_phase y = Ended"
proof -
  have sys: "clean_system j" by (rule clean_runs.run_inv [OF assms(1) clean_new])
  have ids: "ids_unique (srv j)" by (rule system_ids_unique [OF assms(1,2)])
  have inv: "system_inv j" and clean: "cleanup_inv j" using sys ids by (simp_all add: clean_system_def)
  note str = system_invD(5) [OF inv ids] and ans = system_invD(2) [OF inv]
  have "t_sid x \<in> set (log_connects (outbox (srv j)))"
    using streams_invD(2) [OF str assms(9)] assms(8,10) by (auto simp: log_connects_mem)
  then consider "Reset (t_sid x) \<in> set (outbox (srv j))" | "Close (t_sid x) \<in> set (outbound (con j))"
    using cleanup_invD(3) [OF clean assms(3)] assms(4-7) by (auto simp: let_go_def resetting_def)
  then show ?thesis
  proof cases
    case 1
    then have "\<not> serves (con j) k (k_sid y)" using cleanup_invD(4) [OF clean, of "t_sid x"] assms(8,10) by (simp add: serves_def)
    then show ?thesis using answers_invD(5) [OF ans assms(9)] by blast
  next
    case 2
    then obtain u z where z: "stream_tasks (con j) u = Some z" "k_sid z = t_sid x" "k_phase z = Ended"
      using answers_invD(4) [OF ans 2] by (auto simp: answer_ok_def)
    then have "u = k" using tasks_uniqueD [OF streams_invD(1) [OF str] z(1) assms(9)] assms(10) by simp
    then show ?thesis using z assms(9) by simp
  qed
qed

theorem backend_not_leaked_witness:
  "\<exists>j y. run system_step demo_linked [Srv (Upload_error 1), Down] j \<and> stream_tasks (con j) 0 = Some y \<and> k_aborted y"
proof -
  let ?x = "demo_tunnel\<lparr>t_phase := Open, t_response := Some (Inr ()), t_credit_closed := True, t_uploading := False\<rparr>"
  let ?y = "demo_task\<lparr>k_open := False, k_aborted := True\<rparr>"
  have "\<exists>j. system_replay [Srv (Upload_error 1), Down] demo_linked = Some j \<and> tunnels (srv j) = [1 \<mapsto> ?x] \<and> streams (srv j) = []
      \<and> \<not> shutdown_notified (srv j) \<and> \<not> writer_over j \<and> resets (srv j) = [] \<and> outbox (srv j) = [Connect 1 ''a:1'', Reset 1]
      \<and> read_down j = 2 \<and> stream_tasks (con j) = [0 \<mapsto> ?y]"
    by (simp add: demo_defs manager_eval system_eval remove_stream_def close_credit_def release_stream_slot_def drop_state_def Let_def)
  then obtain j where j: "system_replay [Srv (Upload_error 1), Down] demo_linked = Some j" "tunnels (srv j) = [1 \<mapsto> ?x]"
      "streams (srv j) = []" "\<not> shutdown_notified (srv j)" "\<not> writer_over j" "resets (srv j) = []"
      "outbox (srv j) = [Connect 1 ''a:1'', Reset 1]" "read_down j = 2" "stream_tasks (con j) = [0 \<mapsto> ?y]" by blast
  have "started_tunnels (srv j) = {1}" using j(2) by (auto simp: started_tunnels_def started_def split: if_splits)
  then have few: "card (started_tunnels (srv j)) \<le> 2 ^ 32" by simp
  note run = system_replay_run [OF j(1)]
  have "k_aborted ?y \<or> k_phase ?y = Ended"
  proof (rule backend_not_leaked [OF run_append [OF run demo_linked_run] few, of 1 ?x 0])
    show "k_sid ?y = t_sid ?x" by (simp add: demo_task_def demo_tunnel_def stream_task_new_def)
  qed (use j in \<open>simp_all add: started_def bound_to_def\<close>)
  then show ?thesis using run j(9) by (intro exI [of _ j] exI [of _ ?y]) simp
qed

end
