(* ===== verification/Listeners.thy ===== *)
theory Listeners
  imports Quic_Tunnel Obfs
begin

text \<open>
  The sockets both programs open and the QUIC endpoints on them: \<open>bind_dual_stack_tcp\<close> of
  \<open>crates/server/src/main.rs\<close>, the binding of \<open>crates/proto/src/obfs.rs\<close>, \<open>quic_transport_config\<close> of
  \<open>crates/proto/src/lib.rs\<close>, \<open>create_quic_endpoint\<close> and \<open>quic_accept_loop\<close> of
  \<open>crates/server/src/transport/quic.rs\<close>, \<open>connect\<close> and \<open>client_config\<close> of
  \<open>crates/connector/src/transport_quic.rs\<close>. How system calls, rustls and quinn answer are parameters.
\<close>

section \<open>Sockets\<close>

datatype socket_type = Tcp_stream | Udp_datagram

datatype socket_call = New_socket bool socket_type | Set_only_v6 bool | Set_reuse_address bool | Set_nonblocking bool
  | Bind_addr "ip_addr \<times> u16" | Listen_backlog nat | Udp_state_new | Into_tokio

text \<open>A socket: the options that were set, \<open>None\<close> where the system's default stands.\<close>

record socket =
  sk_ipv6 :: bool
  sk_type :: socket_type
  sk_only_v6 :: "bool option"
  sk_reuse :: bool
  sk_nonblocking :: bool
  sk_addr :: "(ip_addr \<times> u16) option"
  sk_backlog :: "nat option"

type_synonym socket_sys = "socket_call \<Rightarrow> io_error option"

definition apply_call :: "socket_call \<Rightarrow> socket \<Rightarrow> socket" where
  "apply_call c s = (case c of
       Set_only_v6 b \<Rightarrow> s\<lparr>sk_only_v6 := Some b\<rparr>
     | Set_reuse_address b \<Rightarrow> s\<lparr>sk_reuse := b\<rparr>
     | Set_nonblocking b \<Rightarrow> s\<lparr>sk_nonblocking := b\<rparr>
     | Bind_addr a \<Rightarrow> s\<lparr>sk_addr := Some a\<rparr>
     | Listen_backlog n \<Rightarrow> s\<lparr>sk_backlog := Some n\<rparr>
     | _ \<Rightarrow> s)"

definition new_socket :: "socket_sys \<Rightarrow> bool \<Rightarrow> socket_type \<Rightarrow> socket io_result" where
  "new_socket sys v6 ty = (case sys (New_socket v6 ty) of
     Some e \<Rightarrow> Inl e
   | None \<Rightarrow> Inr \<lparr>sk_ipv6 = v6, sk_type = ty, sk_only_v6 = None, sk_reuse = False, sk_nonblocking = False,
       sk_addr = None, sk_backlog = None\<rparr>)"

text \<open>A chain of calls with \<open>?\<close> after each: the first error ends it.\<close>

fun socket_calls :: "socket_sys \<Rightarrow> socket_call list \<Rightarrow> socket \<Rightarrow> socket io_result" where
  "socket_calls sys [] s = Inr s"
| "socket_calls sys (c # cs) s = (case sys c of Some e \<Rightarrow> Inl e | None \<Rightarrow> socket_calls sys cs (apply_call c s))"

definition bind_dual_stack_tcp :: "socket_sys \<Rightarrow> ip_addr \<times> u16 \<Rightarrow> socket io_result" where
  "bind_dual_stack_tcp sys addr = and_then (new_socket sys True Tcp_stream)
     (socket_calls sys [Set_only_v6 False, Set_reuse_address True, Set_nonblocking True, Bind_addr addr,
        Listen_backlog 1024, Into_tokio])"

definition v6_any :: ip_addr where
  "v6_any = V6 (Ipv6 0 0 0 0 0 0 0 0)"

definition v4_any :: ip_addr where
  "v4_any = V4 (Ipv4 0 0 0 0)"

definition bind_std_udp_socket :: "socket_sys \<Rightarrow> ip_addr \<times> u16 \<Rightarrow> socket io_result" where
  "bind_std_udp_socket sys addr =
     (let v6 = is_ipv6 (fst addr);
          any = (case fst addr of V6 ip \<Rightarrow> v6_unspecified ip | V4 _ \<Rightarrow> False)
      in and_then (new_socket sys v6 Udp_datagram)
           (socket_calls sys ((if any then [Set_only_v6 False] else []) @ [Set_nonblocking True, Bind_addr addr])))"

text \<open>\<open>ObfuscatedSocket::bind\<close>.\<close>

record obfuscated_socket =
  os_inner :: socket
  os_secret :: "byte list"

definition obfuscated_bind :: "socket_sys \<Rightarrow> ip_addr \<times> u16 \<Rightarrow> byte list \<Rightarrow> obfuscated_socket io_result" where
  "obfuscated_bind sys addr secret =
     and_then (bind_std_udp_socket sys addr) (\<lambda>s.
     and_then (socket_calls sys [Udp_state_new, Into_tokio] s) (\<lambda>s. Inr \<lparr>os_inner = s, os_secret = secret\<rparr>))"

section \<open>QUIC endpoints\<close>

definition ALPN :: string where
  "ALPN = ''x2rp-tunnel''"

definition HEARTBEAT_READ_TIMEOUT_SECS :: nat where
  "HEARTBEAT_READ_TIMEOUT_SECS = 30"

definition QUIC_PORT :: u16 where
  "QUIC_PORT = 443"

record quic_settings =
  qs_keep_alive_secs :: nat
  qs_max_idle_ms :: u32
  qs_receive_window :: u32
  qs_stream_receive_window :: u32
  qs_max_bidi_streams :: u32
  qs_max_uni_streams :: u32
  qs_mtu_upper_bound :: u16

definition quic_transport_config :: quic_settings where
  "quic_transport_config = \<lparr>qs_keep_alive_secs = 5, qs_max_idle_ms = of_nat HEARTBEAT_READ_TIMEOUT_SECS * 1000,
     qs_receive_window = 1024 * 1024, qs_stream_receive_window = of_nat STREAM_RECV_WINDOW,
     qs_max_bidi_streams = of_nat MAX_ACTIVE_STREAMS, qs_max_uni_streams = 0,
     qs_mtu_upper_bound = of_nat MTU_DISCOVERY_UPPER_BOUND\<rparr>"

text \<open>What an end offers: its ALPN protocols and its settings. \<open>crypto\<close> is quinn's conversion of a TLS configuration.\<close>

record quic_config =
  qc_alpn :: "string list"
  qc_settings :: quic_settings

definition quic_config_of :: "(string list \<Rightarrow> unit io_result) \<Rightarrow> quic_config io_result" where
  "quic_config_of crypto =
     and_then (crypto [ALPN]) (\<lambda>_. Inr \<lparr>qc_alpn = [ALPN], qc_settings = quic_transport_config\<rparr>)"

definition or_else :: "'e + 'a \<Rightarrow> ('e \<Rightarrow> 'e + 'a) \<Rightarrow> 'e + 'a" where
  "or_else r f = (case r of Inl e \<Rightarrow> f e | Inr x \<Rightarrow> Inr x)"

text \<open>The calls for the IPv6 socket and, if it cannot be had, for the IPv4 one turn out as \<open>sys6\<close> and \<open>sys4\<close> say.\<close>

definition create_quic_endpoint ::
  "(string list \<Rightarrow> unit io_result) \<Rightarrow> socket_sys \<Rightarrow> socket_sys \<Rightarrow> (obfuscated_socket \<Rightarrow> unit io_result) \<Rightarrow> byte list
     \<Rightarrow> (quic_config \<times> obfuscated_socket) io_result" where
  "create_quic_endpoint crypto sys6 sys4 endpoint secret =
     and_then (quic_config_of crypto) (\<lambda>config.
     and_then (or_else (obfuscated_bind sys6 (v6_any, QUIC_PORT) secret)
                 (\<lambda>_. obfuscated_bind sys4 (v4_any, QUIC_PORT) secret)) (\<lambda>socket.
     and_then (endpoint socket) (\<lambda>_. Inr (config, socket))))"

text \<open>\<open>quic_accept_loop\<close> on what the endpoint accepts until it is closed: each connection whose handshake succeeds
  gets a session of its own, the others cost nothing.\<close>

fun quic_accept_loop :: "(string + 'c) list \<Rightarrow> 'c list" where
  "quic_accept_loop [] = []"
| "quic_accept_loop (Inr connection # incoming) = connection # quic_accept_loop incoming"
| "quic_accept_loop (Inl e # incoming) = quic_accept_loop incoming"

text \<open>\<open>connect\<close> of the connector: the platform's verifier checks the server's certificate, and no other is asked.\<close>

definition quic_connect ::
  "unit io_result \<Rightarrow> (string list \<Rightarrow> unit io_result) \<Rightarrow> (quic_config \<Rightarrow> 'c quic_lib) \<Rightarrow> (string \<Rightarrow> byte list option) \<Rightarrow> url_lib
     \<Rightarrow> resolver \<Rightarrow> transport_config \<Rightarrow> ('c \<times> byte list) io_result" where
  "quic_connect verifier crypto q hex url_parse lookup tc =
     and_then verifier (\<lambda>_.
     and_then (quic_config_of crypto) (\<lambda>config. connect_with (q config) hex url_parse lookup tc))"

section \<open>Lemmas\<close>

lemma socket_calls_Inr:
  "socket_calls sys cs s = Inr s' \<longleftrightarrow> (\<forall>c \<in> set cs. sys c = None) \<and> s' = fold apply_call cs s"
  by (induction cs arbitrary: s) (auto split: option.splits)

lemma new_socket_Inr: "new_socket sys v6 ty = Inr s \<longleftrightarrow> sys (New_socket v6 ty) = None
    \<and> s = \<lparr>sk_ipv6 = v6, sk_type = ty, sk_only_v6 = None, sk_reuse = False, sk_nonblocking = False, sk_addr = None, sk_backlog = None\<rparr>"
  by (auto simp: new_socket_def split: option.splits)

text \<open>A listener of \<open>bind_dual_stack_tcp\<close> takes IPv4 peers too and never blocks; so does the socket of a server's
  endpoint, unless there is no IPv6.\<close>

lemma dual_stack_socket:
  assumes "bind_dual_stack_tcp sys addr = Inr s"
  shows "sk_ipv6 s \<and> sk_only_v6 s = Some False \<and> sk_nonblocking s \<and> sk_reuse s \<and> sk_addr s = Some addr \<and> sk_backlog s = Some 1024"
  using assms by (auto simp: bind_dual_stack_tcp_def and_then_eq_Inr new_socket_Inr socket_calls_Inr apply_call_def
      simp del: socket_calls.simps)

lemma obfuscated_bind_socket:
  assumes "obfuscated_bind sys addr secret = Inr s"
  shows "os_secret s = secret \<and> sk_addr (os_inner s) = Some addr \<and> sk_nonblocking (os_inner s) \<and> sk_ipv6 (os_inner s) = is_ipv6 (fst addr)
    \<and> (fst addr = v6_any \<longrightarrow> sk_only_v6 (os_inner s) = Some False)"
  using assms
  by (auto simp: obfuscated_bind_def bind_std_udp_socket_def and_then_eq_Inr new_socket_Inr socket_calls_Inr apply_call_def
      v6_any_def v6_unspecified_def simp del: socket_calls.simps split: if_splits)

lemma endpoint_socket:
  assumes "create_quic_endpoint crypto sys6 sys4 endpoint secret = Inr (config, s)"
  shows "os_secret s = secret \<and> sk_nonblocking (os_inner s) \<and> config = \<lparr>qc_alpn = [ALPN], qc_settings = quic_transport_config\<rparr>
    \<and> (sk_addr (os_inner s) = Some (v6_any, QUIC_PORT) \<and> sk_only_v6 (os_inner s) = Some False
       \<or> sk_addr (os_inner s) = Some (v4_any, QUIC_PORT))"
  using assms obfuscated_bind_socket
  by (fastforce simp: create_quic_endpoint_def quic_config_of_def or_else_def and_then_eq_Inr split: sum.splits)

end
