(* ===== verification/Service.thy ===== *)
theory Service
  imports Listeners Tls Admin_Api
begin

text \<open>
  The two programs: their command lines (\<open>main\<close> of \<open>crates/server/src/main.rs\<close> and of
  \<open>crates/connector/src/main.rs\<close>, \<open>cmd_status\<close> and \<open>cmd_logs\<close> of \<open>crates/proto/src/host.rs\<close>), the start of
  the server (\<open>run_server\<close>) and the run of the connector (\<open>cmd_run\<close>), down to the status they exit with. What
  clap parses, the commands that are run, signals, and what the system and the libraries answer are parameters.
\<close>

section \<open>Commands\<close>

datatype command = Run_cmd | Status_cmd | Logs_cmd

text \<open>\<open>spawn\<close>: running a program with arguments; what it exits with is dropped.\<close>

type_synonym spawn = "string \<Rightarrow> string list \<Rightarrow> nat io_result"

definition cmd_status :: "spawn \<Rightarrow> string \<Rightarrow> unit io_result" where
  "cmd_status spawn service = and_then (spawn ''systemctl'' [''status'', service, ''--no-pager'']) (\<lambda>_. Inr ())"

definition cmd_logs :: "spawn \<Rightarrow> string \<Rightarrow> unit io_result" where
  "cmd_logs spawn service = and_then (spawn ''journalctl'' [''-fu'', service, ''--no-pager'']) (\<lambda>_. Inr ())"

definition exit_code :: "'e + unit \<Rightarrow> nat" where
  "exit_code r = (case r of Inl _ \<Rightarrow> 1 | Inr _ \<Rightarrow> 0)"

section \<open>The server\<close>

definition SERVER_SERVICE :: string where
  "SERVER_SERVICE = ''x2rp''"

definition localhost :: ip_addr where
  "localhost = V4 (Ipv4 127 0 0 1)"

text \<open>What the start asks of its surroundings: the state file, certificates for a domain with a token, TLS settings,
  listeners, and what \<open>create_quic_endpoint\<close> asks.\<close>

record 'p server_env =
  se_from_json :: "byte list \<Rightarrow> string + app_state"
  se_euid :: u32
  se_opened :: "open_file io_result"
  se_bind :: "ip_addr \<times> u16 \<Rightarrow> unit io_result"
  se_ensured :: "string \<Rightarrow> string \<Rightarrow> tls_error + bool"
  se_loaded :: "(io_error + string) + 'p"
  se_settings :: "string + unit"
  se_sockets :: "u16 \<Rightarrow> socket_sys"
  se_hex :: "string \<Rightarrow> byte list option"
  se_crypto :: "string list \<Rightarrow> unit io_result"
  se_udp6 :: socket_sys
  se_udp4 :: socket_sys
  se_endpoint :: "obfuscated_socket \<Rightarrow> unit io_result"

datatype quic_state = Quic_ready quic_config obfuscated_socket | Quic_failed io_error | Quic_disabled

datatype server_error = State_error load_error | Io_error io_error | Start_error start_error | Settings_error string

record ('n, 'q, 'l, 'p) services =
  sv_global :: "('n, 'q, 'l) global_state"
  sv_certs :: 'p
  sv_https :: "ip_addr \<times> u16"
  sv_http :: "ip_addr \<times> u16"
  sv_quic :: quic_state

datatype ('n, 'q, 'l, 'p) server_run = Failed server_error | Setup_only | Serving "('n, 'q, 'l, 'p) services"

definition start_quic :: "'p server_env \<Rightarrow> string \<Rightarrow> quic_state" where
  "start_quic env secret_hex = (case se_hex env secret_hex of
     Some secret \<Rightarrow> if length secret = 32
       then (case create_quic_endpoint (se_crypto env) (se_udp6 env) (se_udp4 env) (se_endpoint env) secret of
           Inr (offer, socket) \<Rightarrow> Quic_ready offer socket | Inl e \<Rightarrow> Quic_failed e)
       else Quic_disabled
   | None \<Rightarrow> Quic_disabled)"

text \<open>The HTTPS listener: an address and the TLS settings for it; a dual-stack probe decides which.\<close>

definition https_listener :: "'p server_env \<Rightarrow> string + ip_addr \<times> u16" where
  "https_listener env = (case bind_dual_stack_tcp (se_sockets env 443) (v6_any, 443) of
     Inr _ \<Rightarrow> and_then (se_settings env) (\<lambda>_. Inr (v6_any, 443))
   | Inl _ \<Rightarrow> and_then (se_settings env) (\<lambda>_. Inr (v4_any, 443)))"

definition redirect_listener :: "'p server_env \<Rightarrow> (ip_addr \<times> u16) io_result" where
  "redirect_listener env = (case bind_dual_stack_tcp (se_sockets env 80) (v6_any, 80) of
     Inr _ \<Rightarrow> Inr (v6_any, 80)
   | Inl _ \<Rightarrow> and_then (se_bind env (v4_any, 80)) (\<lambda>_. Inr (v4_any, 80)))"

definition run_server :: "'n libs \<Rightarrow> ('q, 'l) governor \<Rightarrow> 'p server_env \<Rightarrow> ('n, 'q, 'l, 'p) server_run" where
  "run_server libs gov env = (case app_state_load (se_from_json env) (se_euid env) (se_opened env) of
     Inl e \<Rightarrow> Failed (State_error e)
   | Inr st \<Rightarrow> (case se_bind env (localhost, ADMIN_API_PORT) of
       Inl e \<Rightarrow> Failed (Io_error e)
     | Inr _ \<Rightarrow>
         if \<not> initialized st \<or> domain st = [] then Setup_only
         else (case start_tls (cf_api_token (config st)) (se_ensured env (domain st) (cf_api_token (config st))) (se_loaded env) of
           Inl e \<Rightarrow> Failed (Start_error e)
         | Inr certs \<Rightarrow> (case https_listener env of
             Inl e \<Rightarrow> Failed (Settings_error e)
           | Inr https \<Rightarrow> (case redirect_listener env of
               Inl e \<Rightarrow> Failed (Io_error e)
             | Inr http \<Rightarrow> Serving \<lparr>sv_global = boot libs gov (Some st) st, sv_certs = certs, sv_https = https, sv_http = http,
                 sv_quic = start_quic env (obfuscation_secret (config st))\<rparr>)))))"

text \<open>\<open>joined\<close>: how the task of the admin API ended, which the server waits for.\<close>

definition server_main ::
  "'n libs \<Rightarrow> ('q, 'l) governor \<Rightarrow> spawn \<Rightarrow> 'p server_env \<Rightarrow> string + unit \<Rightarrow> command option \<Rightarrow> nat" where
  "server_main libs gov spawn env joined cmd = (case (case cmd of None \<Rightarrow> Run_cmd | Some c \<Rightarrow> c) of
     Run_cmd \<Rightarrow> (case run_server libs gov env of Failed _ \<Rightarrow> 1 | _ \<Rightarrow> exit_code joined)
   | Status_cmd \<Rightarrow> exit_code (cmd_status spawn SERVER_SERVICE)
   | Logs_cmd \<Rightarrow> exit_code (cmd_logs spawn SERVER_SERVICE))"

section \<open>The connector\<close>

definition CONNECTOR_SERVICE :: string where
  "CONNECTOR_SERVICE = ''x2rp-connector''"

datatype run_error = Bad_config config_error | No_signal io_error | No_client string

text \<open>\<open>term\<close>: registering for SIGTERM; \<open>signalled\<close>: the \<open>select!\<close> took SIGTERM or SIGINT; \<open>built\<close>: the HTTP client;
  \<open>turns\<close>: the turns of the reconnect loop so far. \<open>None\<close>: it goes on.\<close>

definition cmd_run ::
  "(byte list \<Rightarrow> string + client_config) \<Rightarrow> u32 \<Rightarrow> open_file io_result \<Rightarrow> unit io_result \<Rightarrow> bool \<Rightarrow> string + unit
     \<Rightarrow> (settings_answer \<times> nat) list \<Rightarrow> (run_error + unit) option" where
  "cmd_run from_json euid opened term signalled built turns = (case load_config from_json euid opened of
     Inl e \<Rightarrow> Some (Inl (Bad_config e))
   | Inr c \<Rightarrow> (case term of
       Inl e \<Rightarrow> Some (Inl (No_signal e))
     | Inr _ \<Rightarrow>
         if signalled then Some (Inr ())
         else (case built of
           Inl e \<Rightarrow> Some (Inl (No_client e))
         | Inr _ \<Rightarrow>
             let tc = \<lparr>tc_server = cc_server c, tc_token = cc_token c, tc_obfuscation_secret = [], tc_force_wss = False\<rparr> in
             (case snd (reconnect_loop turns tc 0) of Stopped \<Rightarrow> Some (Inr ()) | Going _ _ \<Rightarrow> None))))"

definition connector_main ::
  "spawn \<Rightarrow> (run_error + unit) option \<Rightarrow> command \<Rightarrow> nat option" where
  "connector_main spawn result cmd = (case cmd of
     Run_cmd \<Rightarrow> map_option exit_code result
   | Status_cmd \<Rightarrow> Some (exit_code (cmd_status spawn CONNECTOR_SERVICE))
   | Logs_cmd \<Rightarrow> Some (exit_code (cmd_logs spawn CONNECTOR_SERVICE)))"

section \<open>Properties\<close>

lemma listeners_apart [simp]:
  "https_listener (env\<lparr>se_hex := h, se_crypto := a, se_udp6 := b, se_udp4 := c, se_endpoint := d\<rparr>) = https_listener env"
  "redirect_listener (env\<lparr>se_hex := h, se_crypto := a, se_udp6 := b, se_udp4 := c, se_endpoint := d\<rparr>) = redirect_listener env"
  by (simp_all add: https_listener_def redirect_listener_def split: sum.split)

text \<open>(C23) The edge is served only by a server that is ready for it: its state was read from a file no one else can read,
  it was set up and has a domain and a token for certificates, a certificate was ensured and the pair in service was
  loaded, and its admin API is bound to the loopback address. Its listeners are on ports 443 and 80, and a QUIC
  endpoint that runs does so on UDP port 443 under the configured secret. A problem with QUIC, an invalid secret
  included, never keeps the server from serving.\<close>

theorem serves_only_when_ready:
  assumes "run_server libs gov env = Serving s"
  shows "\<exists>st. app_state_load (se_from_json env) (se_euid env) (se_opened env) = Inr st \<and> sv_global s = boot libs gov (Some st) st
    \<and> initialized st \<and> domain st \<noteq> [] \<and> cf_api_token (config st) \<noteq> []
    \<and> (\<exists>r. se_ensured env (domain st) (cf_api_token (config st)) = Inr r) \<and> se_loaded env = Inr (sv_certs s)
    \<and> se_bind env (localhost, ADMIN_API_PORT) = Inr ()
    \<and> sv_https s \<in> {(v6_any, 443), (v4_any, 443)} \<and> sv_http s \<in> {(v6_any, 80), (v4_any, 80)}
    \<and> (\<forall>offer socket. sv_quic s = Quic_ready offer socket \<longrightarrow>
        se_hex env (obfuscation_secret (config st)) = Some (os_secret socket) \<and> length (os_secret socket) = 32
        \<and> sk_addr (os_inner socket) \<in> {Some (v6_any, 443), Some (v4_any, 443)})
    \<and> (\<forall>h a b c d. let env' = env\<lparr>se_hex := h, se_crypto := a, se_udp6 := b, se_udp4 := c, se_endpoint := d\<rparr> in
        run_server libs gov env' = Serving (s\<lparr>sv_quic := start_quic env' (obfuscation_secret (config st))\<rparr>))"
proof -
  obtain st certs where st: "app_state_load (se_from_json env) (se_euid env) (se_opened env) = Inr st"
      "se_bind env (localhost, ADMIN_API_PORT) = Inr ()" "initialized st" "domain st \<noteq> []"
    and tls: "start_tls (cf_api_token (config st)) (se_ensured env (domain st) (cf_api_token (config st))) (se_loaded env) = Inr certs"
    and li: "https_listener env = Inr (sv_https s)" "redirect_listener env = Inr (sv_http s)"
    and s: "s = \<lparr>sv_global = boot libs gov (Some st) st, sv_certs = certs, sv_https = sv_https s, sv_http = sv_http s,
      sv_quic = start_quic env (obfuscation_secret (config st))\<rparr>"
    using assms(1) by (auto simp: run_server_def split: sum.splits if_splits)
  have sel: "sv_global s = boot libs gov (Some st) st" "sv_certs s = certs"
      "sv_quic s = start_quic env (obfuscation_secret (config st))"
    by (subst s, simp)+
  have quic: "se_hex env (obfuscation_secret (config st)) = Some (os_secret socket) \<and> length (os_secret socket) = 32
      \<and> sk_addr (os_inner socket) \<in> {Some (v6_any, 443), Some (v4_any, 443)}" if "sv_quic s = Quic_ready offer socket" for offer socket
    using that endpoint_socket [of "se_crypto env" "se_udp6 env" "se_udp4 env" "se_endpoint env" _ offer socket]
    by (auto simp: sel start_quic_def QUIC_PORT_def split: option.splits sum.splits if_splits)
  have "run_server libs gov env' = Serving (s\<lparr>sv_quic := start_quic env' (obfuscation_secret (config st))\<rparr>)"
    if "env' = env\<lparr>se_hex := h, se_crypto := a, se_udp6 := b, se_udp4 := c, se_endpoint := d\<rparr>" for env' h a b c d
    using st tls li by (subst s) (simp add: run_server_def that)
  moreover have "cf_api_token (config st) \<noteq> []" "\<exists>r. se_ensured env (domain st) (cf_api_token (config st)) = Inr r" "se_loaded env = Inr certs"
    using tls by (auto simp: start_tls_def split: if_splits sum.splits)
  moreover have "sv_https s \<in> {(v6_any, 443), (v4_any, 443)}" "sv_http s \<in> {(v6_any, 80), (v4_any, 80)}"
    using li by (auto simp: https_listener_def redirect_listener_def and_then_eq_Inr split: sum.splits)
  ultimately show ?thesis using st quic sel by (simp add: Let_def)
qed

definition demo_state :: app_state where
  "demo_state = app_state_default\<lparr>initialized := True, domain := ''a.b'', config := \<lparr>cf_api_token = ''t'', obfuscation_secret = ''s''\<rparr>\<rparr>"

definition demo_server_env :: "unit server_env" where
  "demo_server_env = \<lparr>se_from_json = \<lambda>_. Inr demo_state, se_euid = 0,
     se_opened = Inr \<lparr>file_metadata = Inr (0x180, 0), file_content = Inr []\<rparr>, se_bind = \<lambda>_. Inr (),
     se_ensured = \<lambda>_ _. Inr False, se_loaded = Inr (), se_settings = Inr (), se_sockets = \<lambda>_ _. None,
     se_hex = \<lambda>_. Some (replicate 32 0), se_crypto = \<lambda>_. Inr (), se_udp6 = \<lambda>_. None, se_udp4 = \<lambda>_. None,
     se_endpoint = \<lambda>_. Inr ()\<rparr>"

theorem serves_only_when_ready_witness:
  "\<exists>s. run_server demo_libs demo_gov demo_server_env = Serving s \<and> sv_https s = (v6_any, 443)
    \<and> (\<exists>offer socket. sv_quic s = Quic_ready offer socket \<and> length (os_secret socket) = 32)"
proof -
  have "normalize_domain ''a.b'' = ''a.b''"
    using trim_printable [of "''a.b''"] by (simp add: normalize_domain_def to_ascii_lowercase_def ascii_lower_def is_ascii_upper_def byte_of_def printable_def)
  then have "app_state_load (\<lambda>_. Inr demo_state) 0 (se_opened demo_server_env) = Inr demo_state"
    by (simp add: app_state_load_def demo_server_env_def demo_state_def read_secret_file_def)
  then have "\<exists>s. run_server demo_libs demo_gov demo_server_env = Serving s \<and> sv_https s = (v6_any, 443)
      \<and> (\<exists>offer socket. sv_quic s = Quic_ready offer socket)"
    by (simp add: run_server_def demo_server_env_def demo_state_def start_tls_def https_listener_def redirect_listener_def
        bind_dual_stack_tcp_def new_socket_def start_quic_def create_quic_endpoint_def quic_config_of_def or_else_def
        obfuscated_bind_def bind_std_udp_socket_def)
  then show ?thesis using serves_only_when_ready [of demo_libs demo_gov demo_server_env] by blast
qed

text \<open>The connector exits with status 0 exactly when a signal asked it to stop or the server rejected its token, so
  that a service manager that restarts it on failure leaves a deleted connector stopped. It exits otherwise only when
  it cannot start; once it runs, nothing else ends it.\<close>

lemma connector_exit_status:
  "connector_main spawn (cmd_run from_json euid opened term signalled built turns) Run_cmd =
    (if is_ok (load_config from_json euid opened) \<and> is_ok term \<and> (signalled \<or> is_ok built)
     then (if signalled \<or> Rejected \<in> fst ` set turns then Some 0 else None) else Some 1)"
proof (cases "load_config from_json euid opened")
  case (Inr c)
  let ?tc = "\<lparr>tc_server = cc_server c, tc_token = cc_token c, tc_obfuscation_secret = [], tc_force_wss = False\<rparr>"
  have "(case snd (reconnect_loop turns ?tc 0) of Stopped \<Rightarrow> Some (Inr ()) | Going _ _ \<Rightarrow> None) =
      (if Rejected \<in> fst ` set turns then Some (Inr () :: run_error + unit) else None)"
    using reconnect_stops_iff_rejected [of turns ?tc 0] by (cases "snd (reconnect_loop turns ?tc 0)") auto
  then show ?thesis
    using Inr by (auto simp: connector_main_def cmd_run_def exit_code_def Let_def is_ok_def split: sum.splits)
qed (simp add: connector_main_def cmd_run_def exit_code_def is_ok_def)

end
