(* ===== verification/Spec2Isabelle.thy ===== *)
theory Spec2Isabelle
  imports Wire Send_Credit Obfs Rate_Limit Auth Allowlist Connector_Sessions Connector_Registry Api_Runs Edge
    Session_Manager Connector_Client Tls Quic_Tunnel Wss_Link Transport Http_Redirect Admin_Router Tunnel_Cleanup Service
begin

text \<open>
  x2rp is a self-hosted reverse proxy in Rust. A server with a public address terminates HTTPS for
  \<open>*.<domain>\<close> and forwards each request to a local origin or, through a connector that dialled
  out to it, to an origin in a private network. This development models the three crates of the
  repository, \<open>src/crates/proto\<close>, \<open>src/crates/server\<close> and \<open>src/crates/connector\<close>, and
  proves what makes them correct. This theory holds the properties that span components.

  \<^bold>\<open>Conventions.\<close> A Rust \<open>str\<close> is a \<^typ>\<open>string\<close> whose characters are its UTF-8 bytes; bytes are
  8-bit words, and integers keep their width wherever they can wrap or saturate. \<open>Result\<close> is a sum
  (\<^const>\<open>Inl\<close> is \<open>Err\<close>), a panic is \<open>None\<close>, a hash map an association list with distinct keys. Times are
  numbers of nanoseconds, or of seconds where the code counts seconds. Random draws, the clock, DNS answers,
  outcomes of system calls and everything third-party code answers are arguments. What is relied on of such
  code is a named hypothesis (\<open>header_laws\<close>, the inverse laws of JSON in \<open>app_state_save_refines\<close>, the
  equality law of the constant-time comparison), and witnesses instantiate it.

  \<^bold>\<open>Concurrency.\<close> Tasks and handlers are small-step relations over one state record, one step per stretch
  of code between await points or under one lock, so that a run is any interleaving. \<open>Traces\<close> defines runs
  and three locales, each interpreted on the models' own step relations: \<open>step_invariant\<close>, \<open>step_budget\<close>
  (a level that a step raises at most by what its label pays in) and \<open>step_origin\<close> (which steps can bring
  a condition about).

  \<^bold>\<open>Foundations.\<close> \<open>Prelude\<close> has the machine integers, results and generic lemmas; \<open>Rust_Str\<close> and
  \<open>Utf8\<close> the string operations of the standard library, trimming and character boundaries included;
  \<open>Codec\<close> the locales of field and message codecs; \<open>Tables\<close> hash maps.

  \<^bold>\<open>Protocol\<close> (\<open>proto/src\<close>).
  \<^item> \<open>Wire\<close> (\<open>lib.rs\<close>): \<open>Message\<close>, its encoding, decoding and QUIC framing. Decoding inverts
    encoding, accepts only canonical bytes and returns only well-formed messages.
  \<^item> \<open>Send_Credit\<close> (\<open>SendCredit\<close> in \<open>lib.rs\<close>): the credit with concurrent senders, grants and a close. It is
    never overcommitted, no wakeup is lost, a sender whose credit suffices returns.
  \<^item> \<open>Obfs\<close> (\<open>obfs.rs\<close>): the obfuscated datagrams over a stream cipher that is a parameter.
  \<^item> \<open>Ip\<close>, \<open>Ip_Text\<close> (\<open>ssrf.rs\<close> and the standard library's addresses): which addresses are dangerous, also
    inside IPv6, and the text of addresses.
  \<^item> \<open>Secure_File\<close> (\<open>host.rs\<close>, \<open>save_secure_file\<close> of \<open>server/src/api/mod.rs\<close>): private files, with a
    fault possible at every system call.

  \<^bold>\<open>Server\<close> (\<open>server/src\<close>).
  \<^item> \<open>Connector_Manager\<close>, \<open>Connector_Sessions\<close>, \<open>Connector_Registry\<close> (\<open>connector_manager.rs\<close>): one session's
    tables and tunnel tasks, their runs, and the registry over a heap of sessions whose addresses stand for
    \<open>Arc\<close> pointers. Buffers, stream slots and uploads are bounded, a removed stream never opens and its queue
    drains, a connector has at most one live session.
  \<^item> \<open>Quic_Tunnel\<close>, \<open>Wss_Link\<close>, \<open>Transport\<close> (\<open>transport/\<close>, \<open>quic_tunnel\<close>): the handshake of a QUIC tunnel at
    both ends, the WebSocket loops at both ends, and the sessions of the whole server from the token check
    to the last stamp, interleaved with the API, tunnels and restarts. \<open>transport_step\<close> is the step relation
    of the whole server.
  \<^item> \<open>Rate_Limit\<close>, \<open>Auth\<close>, \<open>Allowlist\<close>, \<open>Names\<close> (\<open>rate_limit.rs\<close>, \<open>auth.rs\<close>, \<open>allowlist.rs\<close>,
    \<open>api/mod.rs\<close>): limits per client, admin sessions and passwords, client allowlists, host names.
  \<^item> \<open>Api_State\<close>, \<open>Global\<close>, \<open>Resources_Api\<close>, \<open>Connectors_Api\<close>, \<open>Admin_Api\<close>, \<open>Api_Runs\<close>, \<open>Admin_Router\<close>
    (\<open>api/\<close>, \<open>http_middleware.rs\<close>, \<open>static_files.rs\<close>, the router of \<open>main.rs\<close>): the stored state, every
    handler with its checks, its locked section and its rollback, runs of them with failing saves, crashes
    and restarts, and the API behind its routes and CSRF check. The state stays consistent, a failed change is
    undone, and only the operator configures the server. A save is abstracted to \<open>save_outcome\<close>, which
    \<open>app_state_save\<close> refines.
  \<^item> \<open>Routes\<close>, \<open>Edge\<close> (\<open>proxy.rs\<close>, \<open>security_headers.rs\<close>): the route table and DNS cache, and the filters of
    the HTTPS edge: which requests go on, to which peer, with which headers, and how failures are answered.
  \<^item> \<open>Tls\<close> (\<open>tls.rs\<close>, the start and the daily check of \<open>main.rs\<close>), \<open>Http_Redirect\<close> (\<open>main.rs\<close>): obtaining,
    writing and loading certificates; the listener on port 80.

  \<^bold>\<open>Connector\<close> (\<open>connector/src\<close>).
  \<^item> \<open>Session_Manager\<close> (\<open>session_manager.rs\<close>): the streams of a session and their tasks. They are capped, and
    data and grants stay within the credit.
  \<^item> \<open>Connector_Client\<close> (\<open>main.rs\<close>, \<open>transport.rs\<close>): the configuration, the reconnect loop and its waits, the
    choice of a transport, and dialling.

  \<^bold>\<open>Programs\<close> (\<open>main.rs\<close> of both, \<open>host.rs\<close>, \<open>transport/quic.rs\<close>, \<open>transport_quic.rs\<close>, \<open>obfs.rs\<close>).
  \<^item> \<open>Listeners\<close>: the sockets that are opened, call by call, and the QUIC endpoints on them with the settings both
    ends offer.
  \<^item> \<open>Service\<close>: the start of the server, the run of the connector, their commands and exit statuses. The edge is
    served only by a server that is ready for it, and a connector that was rejected stays stopped.

  \<^bold>\<open>Both ends of a session.\<close>
  \<^item> \<open>Tunnel_Views\<close> and \<open>Task_Views\<close> say what a step of the server, or of the connector, is for one stream: the bytes
    it takes from a socket, writes to a socket, sends and grants, and what of them it still holds.
  \<^item> \<open>Tunnel_System\<close> joins a server's \<open>ConnectorManager\<close>, a connector's \<open>SessionManager\<close> and the frames between them
    to one step relation, \<open>system_step\<close>, and records the bytes that cross the four sockets. Its invariant accounts
    for every byte and every unit of credit of a stream: held at an end, on its way, or granted.
  \<^item> \<open>Tunnel_Runs\<close> shows what follows for every run: bytes arrive unchanged and in order at the backend the tunnel
    was opened for, no window is ever exceeded, both ends buffer at most a window, and no credit is lost.
    \<open>Tunnel_Cleanup\<close> shows that a backend connection does not outlive its tunnel.

  \<^bold>\<open>Bounds and granularity.\<close> The theorems on both ends hold for the first \<open>2 ^ 32\<close> tunnels of a session, whose ids are
  distinct; later ids wrap around and may be used again. The search for a free stream id runs on fuel \<open>length streams + 1\<close>:
  \<open>start_tunnel_fresh\<close> shows that it always finds one, since a session has at most 128 streams. The reconnect loop and the WebSocket loops, which run until they are stopped, are functions of
  the list of what they are answered; a state after any number of turns is reached with a list of that
  length. Sequences of system calls in a save are one step, with the fault chosen. \<open>regenerate_connector_token\<close>
  kicks the session just after it releases its lock; the model does so in the locked step.
  Allocations are taken to be shorter than \<open>2 ^ 63\<close> bytes, as Rust guarantees.

  \<^bold>\<open>Not modelled.\<close> Code whose behaviour is that of a library or of the operating system: Pingora's proxying, its
  configuration, peer timeouts and the relay pipe's polling; quinn, rustls and tungstenite beneath the streams and
  frames; the polling of UDP sockets (\<open>try_send\<close>, \<open>poll_recv\<close> and the poller of \<open>obfs.rs\<close> around its transformation of
  datagrams); axum's matching of paths and reading of bodies, and the response headers its layers add; clap's
  parsing of command lines; logging, except where it must not reveal secrets (\<open>debug_message\<close>,
  \<open>debug_server_config\<close>). Bodies of the console's files, delays that change no state (the login's minimum duration,
  DNS propagation), and the tests are left out too.
\<close>

section \<open>A server with one resource\<close>

text \<open>A server that was set up, given a resource, and restarted; and a visit to the resource.\<close>

definition demo_resource :: resource where
  "demo_resource = \<lparr>res_id = ''r1'', subdomain = ''w'', res_target = ''http://h'', res_enabled = True, res_connector = None,
     allowed_client_cidrs = []\<rparr>"

definition demo_server :: "(ip_addr, unit, unit) transports" where
  "demo_server = transports_new (boot demo_libs demo_gov (Some (stored (app demo_created))) (stored (app demo_created)))"

definition demo_guest :: request where
  "demo_guest = demo_visit\<lparr>rq_headers := [''host'' \<mapsto> ''w.a.b'']\<rparr>"

lemma demo_created_domain: "domain (app demo_created) = ''a.b''" "initialized (app demo_created)" "disk demo_created = Some (stored (app demo_created))"
  by (simp_all add: demo_created_def create_locked_def subdomain_in_use_def unknown_connector_def demo_up_state
      save_state_def persist_def Let_def demo_up_def setup_locked_def demo_request_def publish_def stored_def
      demo_fresh_def boot_def app_state_default_def)

lemma demo_server_resources: "resources (app (tr_state demo_server)) = [demo_resource]"
  by (simp add: demo_server_def transports_new_def boot_def stored_def demo_created_state demo_resource_def Let_def)

lemma demo_server_run: "run (transport_step show_error demo_libs demo_gov) (fresh_server demo_libs demo_gov)
    [Api Setup, Api Create_resource, Server_restart] demo_server"
proof -
  let ?step = "transport_step show_error demo_libs demo_gov" and ?t0 = "fresh_server demo_libs demo_gov"
  obtain s1 where s: "api_step demo_libs demo_gov (boot demo_libs demo_gov None app_state_default) Setup s1"
      "api_step demo_libs demo_gov s1 Create_resource demo_created"
    using demo_created_run by (auto elim!: run.cases [of _ _ "[_, _]"] run.cases [of _ _ "[_]"])
  have "?step ?t0 (Api Setup) (?t0\<lparr>tr_state := s1\<rparr>)"
    by (rule transport_step.api) (simp_all add: transports_new_def s(1))
  moreover have "?step (?t0\<lparr>tr_state := s1\<rparr>) (Api Create_resource) (?t0\<lparr>tr_state := demo_created\<rparr>)"
    using transport_step.api [of demo_libs demo_gov "?t0\<lparr>tr_state := s1\<rparr>" Create_resource demo_created] s(2) by simp
  moreover have "state_ok (stored (app demo_created))"
    using api_runs.run_inv [OF demo_created_run first_boot_ok] by (simp add: global_ok_def)
  then have "api_step demo_libs demo_gov demo_created Restart (tr_state demo_server)"
    using api_step.restart [OF refl, of demo_libs demo_gov demo_created] state_ok_normalized
    by (simp add: demo_created_domain demo_server_def transports_new_def)
  then have "?step (?t0\<lparr>tr_state := demo_created\<rparr>) Server_restart (transports_new (tr_state demo_server))"
    by (intro transport_step.restart) simp
  moreover have "transports_new (tr_state demo_server) = demo_server" by (simp add: demo_server_def transports_new_def)
  ultimately show ?thesis using run_Cons run_single by metis
qed

lemma demo_guest_forwarded:
  "\<exists>ctx c'. request_filter demo_libs demo_gov 0 ''q'' demo_guest (proxy_ctx (tr_state demo_server)) = (None, ctx, c')"
proof -
  let ?c = "proxy_ctx (tr_state demo_server)"
  have dom: "ctx_domain ?c = ''a.b''"
    using demo_domain by (simp add: demo_server_def transports_new_def boot_def Let_def stored_def demo_created_domain
        demo_created_state proxy_context_new_def)
  have host: "request_host demo_guest = ''w.a.b''"
    by (simp add: request_host_def demo_guest_def host_header_hostname_def strip_prefix_def to_ascii_lowercase_def
        ascii_lower_def is_ascii_upper_def byte_of_def)
  have admin: "\<not> is_admin_host ?c ''w.a.b''" by (simp add: is_admin_host_def strip_prefix_def)
  have route: "map_of (routes ?c) ''w.a.b'' = Some (from_resource demo_libs demo_resource)"
  proof -
    have ok: "global_ok demo_libs (tr_state demo_server)"
      using transport_runs.run_inv [OF demo_server_run [of "\<lambda>_. []"] fresh_server_inv] by (simp add: transport_inv_def)
    have "resource_ok demo_resource" using global_okD(1) [OF ok] by (simp add: state_ok_def demo_server_resources)
    then have "fqdn demo_libs ?c ''w'' = ''w'' @ ''.'' @ to_ascii_lowercase ''a.b''"
      using fqdn_label [of "''w''" ?c demo_libs] global_okD(2) [OF ok] dom by (simp add: resource_ok_def demo_resource_def)
    moreover have "to_ascii_lowercase ''a.b'' = ''a.b''"
      by (simp add: to_ascii_lowercase_def ascii_lower_def is_ascii_upper_def byte_of_def)
    ultimately show ?thesis
      using global_okD(3) [OF ok] unfolding routed_def demo_server_resources by (simp add: demo_resource_def)
  qed
  have adm: "client_admitted demo_libs (from_resource demo_libs demo_resource) (client_ip_from_peer (rq_peer demo_guest))"
    by (simp add: client_admitted_peer from_resource_def demo_resource_def admits_def demo_guest_def demo_visit_def parse_allowlist_def)
  have lim: "fst (limit_check demo_gov 0 b k l)" for b k l
    by (auto simp: limit_check_def rate_check_def demo_gov_def Let_def split: prod.splits)
  have con: "pr_connector (from_resource demo_libs demo_resource) = None" by (simp add: from_resource_def demo_resource_def)
  obtain l where "limit_check demo_gov 0 False (client_key (client_ip_from_peer (rq_peer demo_guest))) (limits ?c) = (True, l)"
    using lim by (metis prod.collapse)
  then show ?thesis using adm by (simp add: request_filter_def host admin route con Let_def)
qed

section \<open>Properties across components\<close>

declare map_of_eq_Some_iff [simp del] and Some_eq_map_of_iff [simp del]

text \<open>(C1) From the API to the edge to the connector: on every state the whole server can reach, a request the
  edge forwards is one for the admin console, under exactly its host name, or for an enabled resource of
  the current configuration under exactly the resource's name, which is never the console. A resource
  with a connector is relayed only over a session in service of that connector, which exists; one without
  is not relayed.\<close>

theorem forwarded_as_configured:
  assumes "run (transport_step show_error libs gov) (fresh_server libs gov) tr t"
    and "request_filter libs gov now random rq (proxy_ctx (tr_state t)) = (None, ctx, c')"
  shows "(request_host rq = ''x2rp.'' @ ctx_domain (proxy_ctx (tr_state t)) \<and> rc_resource ctx = Some admin_resource
      \<and> rc_relay ctx = None)
    \<or> (\<exists>r \<in> set (resources (app (tr_state t))). res_enabled r \<and> rc_resource ctx = Some (from_resource libs r)
      \<and> \<not> is_admin (from_resource libs r)
      \<and> request_host rq = subdomain r @ ''.'' @ to_ascii_lowercase (ctx_domain (proxy_ctx (tr_state t)))
      \<and> (case res_connector r of
          None \<Rightarrow> rc_relay ctx = None
        | Some cid \<Rightarrow> map_of (connectors (app (tr_state t))) cid \<noteq> None
            \<and> (\<exists>p l ph m. rc_relay ctx = Some (p, res_target r) \<and> links t p = Some (l, cid, ph) \<and> ph \<in> {Registered, Served}
              \<and> sessions (registry_of t) p = Some m \<and> connector_id m = cid)))"
proof -
  have inv: "links_ok t" "global_ok libs (tr_state t)"
    using transport_runs.run_inv [OF assms(1) fresh_server_inv] by (simp_all add: transport_inv_def)
  note ok = global_okD [OF inv(2)]
  let ?c = "proxy_ctx (tr_state t)"
  obtain r where r: "rc_resource ctx = Some r"
      "if is_admin_host ?c (request_host rq) then r = admin_resource else map_of (routes ?c) (request_host rq) = Some r"
    and relay: "rc_relay ctx = (case pr_connector r of None \<Rightarrow> None
      | Some cid \<Rightarrow> map_option (\<lambda>p. (p, pr_target r)) (registry_get cid (ctx_connectors ?c)))"
      "pr_connector r = None \<or> rc_relay ctx \<noteq> None"
    by (rule request_filter_forwards [OF assms(2)])
  show ?thesis
  proof (cases "is_admin_host ?c (request_host rq)")
    case True
    then show ?thesis using r relay(1) by (auto simp: is_admin_host_def admin_resource_def)
  next
    case False
    then obtain x where x: "x \<in> set (resources (app (tr_state t)))" "res_enabled x" "r = from_resource libs x"
        "fqdn libs ?c (subdomain x) = request_host rq"
      using r(2) ok unfolding routed_def by auto
    have ro: "resource_ok x" using ok x(1) by (simp add: state_ok_def)
    then have name: "request_host rq = subdomain x @ ''.'' @ to_ascii_lowercase (ctx_domain ?c)"
      using fqdn_label [of "subdomain x" ?c libs] ok(2) x(4) by (simp add: resource_ok_def)
    have "CHR ''_'' \<notin> set (subdomain x)" using ro label_chars by (auto simp: resource_ok_def)
    then have "\<not> is_admin r" by (auto simp: x(3) is_admin_def from_resource_def ADMIN_SUBDOMAIN_def)
    moreover have "case res_connector x of None \<Rightarrow> rc_relay ctx = None
      | Some cid \<Rightarrow> map_of (connectors (app (tr_state t))) cid \<noteq> None
        \<and> (\<exists>p l ph m. rc_relay ctx = Some (p, res_target x) \<and> links t p = Some (l, cid, ph) \<and> ph \<in> {Registered, Served}
          \<and> sessions (registry_of t) p = Some m \<and> connector_id m = cid)"
    proof (cases "res_connector x")
      case (Some cid)
      then obtain p where p: "map_of (managers (registry_of t)) cid = Some p" "rc_relay ctx = Some (p, res_target x)"
        using relay by (auto simp: x(3) from_resource_def registry_get_def)
      have "map_of (connectors (app (tr_state t))) cid \<noteq> None" using ok(1) x(1) Some by (auto simp: state_ok_def)
      then show ?thesis
        using p Some links_okD(4) [OF inv(1) p(1)] registry_entry [OF links_okD(1) [OF inv(1)] p(1)] by auto
    qed (use relay(1) x(3) in \<open>simp add: from_resource_def\<close>)
    ultimately show ?thesis using r(1) x name by blast
  qed
qed

theorem forwarded_as_configured_witness:
  "\<exists>ctx c'. request_filter demo_libs demo_gov 0 ''q'' demo_guest (proxy_ctx (tr_state demo_server)) = (None, ctx, c')
    \<and> rc_resource ctx = Some (from_resource demo_libs demo_resource) \<and> rc_relay ctx = None"
proof -
  obtain ctx c' where f: "request_filter demo_libs demo_gov 0 ''q'' demo_guest (proxy_ctx (tr_state demo_server)) = (None, ctx, c')"
    using demo_guest_forwarded by blast
  have "request_host demo_guest \<noteq> ''x2rp.'' @ d" for d
    by (simp add: request_host_def demo_guest_def host_header_hostname_def strip_prefix_def to_ascii_lowercase_def
        ascii_lower_def is_ascii_upper_def byte_of_def)
  then show ?thesis
    using forwarded_as_configured [OF demo_server_run [of "\<lambda>_. []"] f] f
    by (auto simp: demo_server_resources demo_resource_def)
qed

text \<open>End-to-end flow control of an upload: when every byte that reaches a stream of the connector was sent
  by the server's tunnel, and every grant the tunnel counts was sent by the stream, the connector never
  holds more than one window of the client's data for it, however slow the backend: what is queued or
  written without being granted yet is at most \<open>STREAM_RECV_WINDOW\<close>.\<close>

theorem upload_backpressure:
  assumes "run manager_step (manager_new cid l) tr0 m" and "tunnels m t = Some x" and "t_phase x \<noteq> Reserved"
    and "run manager_step m tr m'"
    and "run session_step session_new sr0 s0" and "stream_tasks s0 k = Some (stream_task_new (t_sid x) url)"
    and "run session_step s0 sr s" and "stream_tasks s k = Some y"
    and "sum_list (map (received_for (t_sid x)) sr) \<le> sum_list (map (uploaded t) tr)"
    and "sum_list (map (granted (t_sid x)) tr) \<le> sum_list (map (granted_by k) sr)"
  shows "sum_list (map length (k_queue y)) + k_drained y \<le> STREAM_RECV_WINDOW"
  using upload_bound [OF assms(1-4)] grants_bound [OF assms(5-8)] assms(9,10) by linarith

theorem upload_backpressure_witness:
  "\<exists>s y. run session_step demo_session [From_server (Data 1 [5, 6])] s \<and> stream_tasks s 0 = Some y
    \<and> k_queue y = [[5, 6]] \<and> sum_list (map length (k_queue y)) + k_drained y \<le> STREAM_RECV_WINDOW"
proof -
  let ?x = "demo_tunnel\<lparr>t_phase := Open, t_response := Some (Inr ())\<rparr>"
  obtain m where m: "manager_replay [Upload 1 [5, 6]] demo_open = Some m"
    by (simp add: demo_defs manager_eval credit_taken_def i64_sub_id i64_max_def i64_min_def STREAM_RECV_WINDOW_def)
  have x: "tunnels demo_open 1 = Some ?x" "t_phase ?x \<noteq> Reserved" "t_sid ?x = 1" by (simp_all add: demo_defs)
  have t: "stream_tasks demo_session 0 = Some (stream_task_new (t_sid ?x) ''u'')" by (simp add: demo_session_eq x(3))
  let ?s = "session_message 1 (Data 1 [5, 6]) demo_session" and ?y = "(stream_task_new 1 ''u'')\<lparr>k_queue := [[5, 6]]\<rparr>"
  have run: "run session_step demo_session [From_server (Data 1 [5, 6])] ?s"
    by (rule run_single, rule session_step.message) (simp_all add: demo_session_eq session_new_def)
  have y: "stream_tasks ?s 0 = Some ?y"
    by (simp add: demo_session_eq session_message_def is_finished_def stream_task_new_def)
  have "sum_list (map length (k_queue ?y)) + k_drained ?y \<le> STREAM_RECV_WINDOW"
    by (rule upload_backpressure [OF demo_open_run x(1,2) manager_replay_run [OF m] demo_session_run t run y]) (simp_all add: x(3))
  then show ?thesis using run y by (intro exI [of _ ?s] exI [of _ ?y]) simp
qed

text \<open>The check of a target and its use agree: a target the API accepts parses at the edge to the same
  host, port and scheme the check was made on.\<close>

theorem target_parsers_agree:
  assumes "parse_http_target_host_port libs url = Inr x"
  shows "parse_target_url libs url = Some x"
  using assms
  by (auto simp: parse_http_target_host_port_def parse_target_url_def and_then_eq_Inr ok_or_eq_Inr Let_def split: if_splits option.splits)

theorem target_parsers_agree_witness: "parse_target_url demo_libs ''http://h'' = Some (''127.0.0.1'', 3000, False)"
  by (rule target_parsers_agree) (simp add: parse_http_target_host_port_def demo_libs_def unbracket_def strip_prefix_def)

end
